(* ===== verification/Prelude.thy ===== *)
theory Prelude
  imports Main "HOL-Library.AList" "HOL-Library.List_Lexorder" "HOL-Library.Char_ord" "HOL-Library.Multiset"
begin

text \<open>
  What every component shares: Python exceptions as values, insertion-ordered dictionaries as
  association lists (\<open>AList.update\<close> overwrites in place or appends, which is what \<open>d[k] = v\<close> does),
  sorted views of sets, decimal and hexadecimal numerals, and Python's \<open>max(..., key=...)\<close>.

  A Python \<open>str\<close> is a \<open>string\<close>, one \<open>char\<close> per code point: the texts of the model are
  those whose code points lie below 256. The order on strings is the lexicographic order of
  code points (List_Lexorder over Char_ord), as in Python.
\<close>

named_theorems dict_simps "dictionary lookups after updates"
named_theorems sorted_simps "sorted views of sets of keys"

section \<open>Exceptions\<close>

text \<open>The exceptions the code raises or lets through, with the message where it is fixed.\<close>

datatype py_exc =
    TypeError string
  | ValueError string
  | KeyError string
  | AttributeError string
  | RuntimeError string
  | HTTPException int string
  | JSONDecodeError
  | IntegrityError string
  | DBAPIError string   \<comment> \<open>SQLAlchemy's, where the model does not tell its subclasses apart\<close>
  | OtherError string string   \<comment> \<open>any other class, by its name, and the text\<close>
  | SystemExit int

text \<open>A loop whose body may raise: the first exception ends it.\<close>

fun map_exc :: "('a \<Rightarrow> 'e + 'b) \<Rightarrow> 'a list \<Rightarrow> 'e + 'b list" where
  "map_exc f [] = Inr []"
| "map_exc f (x # xs) =
     (case f x of
        Inl e \<Rightarrow> Inl e
      | Inr y \<Rightarrow> (case map_exc f xs of Inl e \<Rightarrow> Inl e | Inr ys \<Rightarrow> Inr (y # ys)))"

lemma map_exc_InrD: "map_exc f xs = Inr ys \<Longrightarrow> list_all2 (\<lambda>x y. f x = Inr y) xs ys"
  by (induction xs arbitrary: ys) (auto split: sum.splits)

lemma map_exc_total: "(\<And>x. x \<in> set xs \<Longrightarrow> f x = Inr (g x)) \<Longrightarrow> map_exc f xs = Inr (map g xs)"
  by (induction xs) auto

lemma map_exc_cong [fundef_cong]:
  "xs = ys \<Longrightarrow> (\<And>x. x \<in> set ys \<Longrightarrow> f x = g x) \<Longrightarrow> map_exc f xs = map_exc g ys"
proof (induction xs arbitrary: ys)
  case (Cons a xs)
  then show ?case by (cases ys) (auto split: sum.splits)
qed simp

lemma map_exc_keys:
  assumes "map_exc f xs = Inr ys" and "\<And>x y. x \<in> set xs \<Longrightarrow> f x = Inr y \<Longrightarrow> h y = k x"
  shows "map h ys = map k xs"
  using assms
proof (induction xs arbitrary: ys)
  case (Cons a xs)
  then show ?case by (auto split: sum.splits)
qed simp

section \<open>Dictionaries\<close>

type_synonym 'v dict = "(string \<times> 'v) list"

abbreviation keys :: "('k \<times> 'v) list \<Rightarrow> 'k list" where
  "keys d \<equiv> map fst d"

lemma fst_map_snd [simp]: "fst \<circ> (\<lambda>(k, v). (k, f v)) = fst"
  by auto

lemma fst_image_map_snd [simp]: "fst ` (\<lambda>(k, v). (k, f v)) ` S = fst ` S"
  by (simp add: image_comp)

text \<open>\<open>d.update(e)\<close>: the entries of \<open>e\<close> are stored one after the other.\<close>

fun dict_update :: "('k \<times> 'v) list \<Rightarrow> ('k \<times> 'v) list \<Rightarrow> ('k \<times> 'v) list" where
  "dict_update d [] = d"
| "dict_update d ((k, v) # e) = dict_update (AList.update k v d) e"

lemma map_of_update [dict_simps]: "map_of (AList.update k v d) = (map_of d)(k \<mapsto> v)"
  by (simp add: update_conv')

lemma keys_update [dict_simps]: "fst ` set (AList.update k v d) = insert k (fst ` set d)"
  by (induction d) auto

lemma distinct_keys_update [dict_simps]:
  "distinct (keys d) \<Longrightarrow> distinct (keys (AList.update k v d))"
  by (rule distinct_update)

lemma keys_dict_update [dict_simps]: "fst ` set (dict_update d e) = fst ` set d \<union> fst ` set e"
  by (induction d e rule: dict_update.induct) (simp_all add: keys_update)

lemma distinct_dict_update [dict_simps]: "distinct (keys d) \<Longrightarrow> distinct (keys (dict_update d e))"
  by (induction d e rule: dict_update.induct) (auto simp: distinct_keys_update)

lemma map_of_dict_update:
  "distinct (keys e) \<Longrightarrow> map_of (dict_update d e) = map_of d ++ map_of e"
proof (induction d e rule: dict_update.induct)
  case (2 d k v e)
  then have "map_of e k = None" by (simp add: map_of_eq_None_iff)
  with 2 show ?case by (auto simp: dict_simps map_add_def fun_eq_iff split: option.splits)
qed simp

lemma map_of_dict_update_notin:
  "k \<notin> set (keys e) \<Longrightarrow> map_of (dict_update d e) k = map_of d k"
  by (induction d e rule: dict_update.induct) (auto simp: dict_simps)

lemma update_fresh: "k \<notin> fst ` set d \<Longrightarrow> AList.update k v d = d @ [(k, v)]"
  by (induction d) auto

lemma dict_update_fresh:
  "distinct (keys e) \<Longrightarrow> fst ` set d \<inter> fst ` set e = {} \<Longrightarrow> dict_update d e = d @ e"
proof (induction d e rule: dict_update.induct)
  case (2 d k v e)
  then show ?case by (auto simp: update_fresh)
qed simp

section \<open>Sorted views\<close>

text \<open>\<open>sorted(set(...))\<close> of a list of keys, and \<open>sorted(d.items(), key=lambda kv: kv[0])\<close>.\<close>

definition sorted_set :: "'a::linorder list \<Rightarrow> 'a list" where
  "sorted_set xs = sort (remdups xs)"

lemma set_sorted_set [simp, sorted_simps]: "set (sorted_set xs) = set xs"
  by (simp add: sorted_set_def)

lemma distinct_sorted_set [simp, sorted_simps]: "distinct (sorted_set xs)"
  by (simp add: sorted_set_def)

lemma sorted_sorted_set [simp, sorted_simps]: "sorted (sorted_set xs)"
  by (simp add: sorted_set_def)

lemma sorted_set_cong: "set xs = set ys \<Longrightarrow> sorted_set xs = sorted_set ys"
  by (rule sorted_distinct_set_unique) simp_all

lemma sorted_set_Nil_iff [simp]: "sorted_set xs = [] \<longleftrightarrow> xs = []"
  by (metis set_empty set_sorted_set)

definition sort_items :: "(string \<times> 'v) list \<Rightarrow> (string \<times> 'v) list" where
  "sort_items d = sort_key fst d"

lemma set_sort_items [simp, sorted_simps]: "set (sort_items d) = set d"
  by (simp add: sort_items_def)

lemma keys_sort_items: "keys (sort_items d) = sort (keys d)"
  unfolding sort_items_def by (rule properties_for_sort [symmetric]) simp_all

lemma distinct_keys_sort_items [simp, sorted_simps]:
  "distinct (keys (sort_items d)) \<longleftrightarrow> distinct (keys d)"
  by (simp add: keys_sort_items)

lemma map_of_sort_items [simp]:
  assumes "distinct (keys d)"
  shows "map_of (sort_items d) = map_of d"
  by (rule map_of_eqI) (use assms in \<open>auto simp: map_of_eq_Some_iff\<close>)

text \<open>Mapping the values commutes with sorting by key.\<close>

lemma sort_items_map:
  "sort_items (map (\<lambda>(k, v). (k, f v)) d) = map (\<lambda>(k, v). (k, f v)) (sort_items d)"
proof -
  have ins: "insort_key fst ((\<lambda>(k, v). (k, f v)) x) (map (\<lambda>(k, v). (k, f v)) ys) =
        map (\<lambda>(k, v). (k, f v)) (insort_key fst x ys)"
    for x and ys
    by (induction ys) (auto split: prod.splits)
  show ?thesis
  proof (induction d)
    case (Cons x d)
    then show ?case unfolding sort_items_def by (simp add: ins)
  qed (simp add: sort_items_def)
qed

lemma sort_items_idem [simp]: "sort_items (sort_items d) = sort_items d"
  unfolding sort_items_def by (rule sort_key_id_if_sorted) simp

lemma sorted_key_distinct_unique:
  assumes "mset xs = mset ys" and "distinct (map f xs)"
    and "sorted (map f xs)" and "sorted (map f ys)"
  shows "xs = ys"
proof -
  have "mset (map f xs) = mset (map f ys)" using assms(1) by simp
  then have "sort (map f ys) = map f xs"
    by (rule properties_for_sort) (rule assms(3))
  moreover have "sort (map f ys) = map f ys"
    by (rule properties_for_sort [OF refl assms(4)])
  ultimately have eq: "map f xs = map f ys" by simp
  have "inj_on f (set xs \<union> set ys)"
    using assms(1,2) mset_eq_setD [OF assms(1)] by (simp add: distinct_map)
  with eq show ?thesis by (rule map_inj_on)
qed

lemma sort_items_perm:
  assumes "mset d = mset e" and "distinct (keys d)"
  shows "sort_items d = sort_items e"
  by (rule sorted_key_distinct_unique [where f = fst])
     (use assms in \<open>simp_all add: keys_sort_items, simp_all add: sort_items_def\<close>)

end
