(* ===== verification/Json.thy ===== *)
theory Json
  imports Prelude
begin

text \<open>
  JSON values as Python holds them after \<open>json.loads\<close>, and what the code uses of the language on
  them: truthiness, \<open>==\<close>, \<open>str\<close>, and \<open>json.dumps\<close> with compact separators (with or without
  \<open>sort_keys\<close>). A dictionary keeps its insertion order, so \<open>JObj\<close> holds an association list with
  distinct keys (\<open>wf_json\<close>). A finite float carries its exact value \<open>m * 2 ^ e\<close> and the text of
  its \<open>repr\<close>, which the interpreter computes.
\<close>

section \<open>Values\<close>

datatype pyfloat = FNum int int string | FInf | FNegInf | FNan

datatype json =
    JNull
  | JBool bool
  | JInt int
  | JFloat pyfloat
  | JStr string
  | JList "json list"
  | JObj "(string \<times> json) list"

lemma size_items [termination_simp]:
  "(k, v) \<in> set kvs \<Longrightarrow> size v < Suc (size_list (\<lambda>x. Suc (size (snd x))) kvs)"
  by (induction kvs) auto

lemma size_items_prod: "(k, v) \<in> set kvs \<Longrightarrow> size v < Suc (size_list (size_prod f size) kvs)"
  by (induction kvs) auto

lemma size_zip_fst [termination_simp]:
  "(x, y) \<in> set (zip xs ys) \<Longrightarrow> size x < Suc (size_list size xs)"
  by (auto dest!: set_zip_leftD simp: less_Suc_eq_le size_list_estimation')

lemma size_items_if [termination_simp]:
  "(k, v) \<in> set (if b then sort_items kvs else kvs) \<Longrightarrow>
     size v < Suc (size_list (\<lambda>x. Suc (size (snd x))) kvs)"
  by (auto simp: size_items split: if_splits)

fun wf_json :: "json \<Rightarrow> bool" where
  "wf_json (JList xs) = list_all wf_json xs"
| "wf_json (JObj kvs) = (distinct (keys kvs) \<and> list_all (\<lambda>(k, v). wf_json v) kvs)"
| "wf_json _ = True"

definition is_obj :: "json \<Rightarrow> bool" where
  "is_obj j = (case j of JObj _ \<Rightarrow> True | _ \<Rightarrow> False)"

definition is_list :: "json \<Rightarrow> bool" where
  "is_list j = (case j of JList _ \<Rightarrow> True | _ \<Rightarrow> False)"

text \<open>\<open>d.get(k)\<close> where \<open>d\<close> is known to be a dictionary.\<close>

fun jget :: "json \<Rightarrow> string \<Rightarrow> json option" where
  "jget (JObj kvs) k = map_of kvs k"
| "jget _ k = None"

fun truthy :: "json \<Rightarrow> bool" where
  "truthy JNull = False"
| "truthy (JBool b) = b"
| "truthy (JInt i) = (i \<noteq> 0)"
| "truthy (JFloat (FNum m e t)) = (m \<noteq> 0)"
| "truthy (JFloat _) = True"
| "truthy (JStr s) = (s \<noteq> [])"
| "truthy (JList xs) = (xs \<noteq> [])"
| "truthy (JObj kvs) = (kvs \<noteq> [])"

section \<open>Python equality\<close>

text \<open>
  \<open>True == 1 == 1.0\<close>; dictionaries compare without regard to order; a NaN inside a container is
  equal to itself (containers compare by identity first, and \<open>json.loads\<close> hands out one NaN object).
\<close>

definition float_eq :: "int \<times> int \<Rightarrow> int \<times> int \<Rightarrow> bool" where
  "float_eq x y = (case (x, y) of ((m1, e1), (m2, e2)) \<Rightarrow>
     if e2 \<le> e1 then m1 * 2 ^ nat (e1 - e2) = m2 else m1 = m2 * 2 ^ nat (e2 - e1))"

fun num_val :: "json \<Rightarrow> (int \<times> int) option" where
  "num_val (JBool b) = Some (if b then 1 else 0, 0)"
| "num_val (JInt i) = Some (i, 0)"
| "num_val (JFloat (FNum m e t)) = Some (m, e)"
| "num_val _ = None"

definition scalar_eq :: "json \<Rightarrow> json \<Rightarrow> bool" where
  "scalar_eq x y =
     (case (num_val x, num_val y) of (Some p, Some q) \<Rightarrow> float_eq p q | _ \<Rightarrow> x = y)"

fun py_eq :: "json \<Rightarrow> json \<Rightarrow> bool" where
  "py_eq (JList xs) y =
     (case y of
        JList ys \<Rightarrow> length xs = length ys \<and> list_all (\<lambda>(x, y). py_eq x y) (zip xs ys)
      | _ \<Rightarrow> False)"
| "py_eq (JObj a) y =
     (case y of
        JObj b \<Rightarrow> length a = length b \<and>
          list_all (\<lambda>(k, v). case map_of b k of None \<Rightarrow> False | Some w \<Rightarrow> py_eq v w) a
      | _ \<Rightarrow> False)"
| "py_eq x y = scalar_eq x y"

section \<open>Numerals and texts\<close>

definition digit :: "nat \<Rightarrow> char" where
  "digit n = char_of ((if n < 10 then 48 else 87) + n)"

fun show_nat :: "nat \<Rightarrow> string" where
  "show_nat n = (if n < 10 then [digit n] else show_nat (n div 10) @ [digit (n mod 10)])"

declare show_nat.simps [simp del]

definition show_int :: "int \<Rightarrow> string" where
  "show_int i = (if i < 0 then CHR ''-'' # show_nat (nat (- i)) else show_nat (nat i))"

definition code_of :: "char \<Rightarrow> nat" where
  "code_of c = of_char c"

text \<open>\<open>needle in text\<close>.\<close>

fun occurs_in :: "string \<Rightarrow> string \<Rightarrow> bool" where
  "occurs_in needle [] = (needle = [])"
| "occurs_in needle (c # cs) = (take (length needle) (c # cs) = needle \<or> occurs_in needle cs)"

definition newline :: string where
  "newline = [CHR 0x0A]"

text \<open>\<open>', '.join(...)\<close>.\<close>

fun join :: "string \<Rightarrow> string list \<Rightarrow> string" where
  "join sep [] = []"
| "join sep [x] = x"
| "join sep (x # y # xs) = x @ sep @ join sep (y # xs)"

section \<open>json.dumps\<close>

text \<open>
  \<open>ensure_ascii\<close> is on (the default): a character outside \<open>' '..'~'\<close>, a quote or a backslash is
  written as an escape, so the text is ASCII and \<open>encode("utf-8")\<close> has one byte per character.
\<close>

definition short_escapes :: "(nat \<times> nat) list" where
  "short_escapes = [(34, 34), (92, 92), (10, 110), (13, 114), (9, 116), (12, 102), (8, 98)]"

definition esc_char :: "char \<Rightarrow> string" where
  "esc_char c = (let n = code_of c in
     case map_of short_escapes n of
       Some m \<Rightarrow> [CHR 0x5C, char_of m]
     | None \<Rightarrow>
         if 32 \<le> n \<and> n \<le> 126 then [c]
         else CHR 0x5C # CHR ''u'' # ''00'' @ [digit (n div 16), digit (n mod 16)])"

definition quote_json :: "string \<Rightarrow> string" where
  "quote_json s = CHR 0x22 # concat (map esc_char s) @ [CHR 0x22]"

fun float_json :: "pyfloat \<Rightarrow> string" where
  "float_json (FNum m e t) = t"
| "float_json FInf = ''Infinity''"
| "float_json FNegInf = ''-Infinity''"
| "float_json FNan = ''NaN''"

fun dumps :: "bool \<Rightarrow> json \<Rightarrow> string" where
  "dumps srt JNull = ''null''"
| "dumps srt (JBool b) = (if b then ''true'' else ''false'')"
| "dumps srt (JInt i) = show_int i"
| "dumps srt (JFloat f) = float_json f"
| "dumps srt (JStr s) = quote_json s"
| "dumps srt (JList xs) = ''['' @ join '','' (map (dumps srt) xs) @ '']''"
| "dumps srt (JObj kvs) =
     ''{'' @ join '','' (map (\<lambda>(k, v). quote_json k @ '':'' @ dumps srt v)
                          (if srt then sort_items kvs else kvs)) @ ''}''"

section \<open>str() of a value\<close>

text \<open>
  \<open>repr\<close> of a string picks single quotes unless the text has one and no double quote; characters
  that are not printable are escaped (below 256: the controls, 127 to 160, and 173).
\<close>

definition repr_char :: "nat \<Rightarrow> char \<Rightarrow> string" where
  "repr_char q c = (let n = code_of c in
     if n = q \<or> n = 92 then [CHR 0x5C, c]
     else if n = 10 then CHR 0x5C # ''n''
     else if n = 13 then CHR 0x5C # ''r''
     else if n = 9 then CHR 0x5C # ''t''
     else if n < 32 \<or> (127 \<le> n \<and> n \<le> 160) \<or> n = 173
       then CHR 0x5C # ''x'' @ [digit (n div 16), digit (n mod 16)]
     else [c])"

definition repr_str :: "string \<Rightarrow> string" where
  "repr_str s =
     (let q = (if CHR 0x27 \<in> set s \<and> CHR 0x22 \<notin> set s then 34 else 39)
      in char_of q # concat (map (repr_char q) s) @ [char_of q])"

fun float_repr :: "pyfloat \<Rightarrow> string" where
  "float_repr (FNum m e t) = t"
| "float_repr FInf = ''inf''"
| "float_repr FNegInf = ''-inf''"
| "float_repr FNan = ''nan''"

fun py_repr :: "json \<Rightarrow> string" where
  "py_repr JNull = ''None''"
| "py_repr (JBool b) = (if b then ''True'' else ''False'')"
| "py_repr (JInt i) = show_int i"
| "py_repr (JFloat f) = float_repr f"
| "py_repr (JStr s) = repr_str s"
| "py_repr (JList xs) = ''['' @ join '', '' (map py_repr xs) @ '']''"
| "py_repr (JObj kvs) =
     ''{'' @ join '', '' (map (\<lambda>(k, v). repr_str k @ '': '' @ py_repr v) kvs) @ ''}''"

definition py_str :: "json \<Rightarrow> string" where
  "py_str j = (case j of JStr s \<Rightarrow> s | _ \<Rightarrow> py_repr j)"

section \<open>Keys sorted at every level\<close>

text \<open>\<open>_sort_keys\<close> of \<open>backend/app/core/normalizer.py\<close>.\<close>

fun sort_keys :: "json \<Rightarrow> json" where
  "sort_keys (JObj kvs) = JObj (map (\<lambda>(k, v). (k, sort_keys v)) (sort_items kvs))"
| "sort_keys (JList xs) = JList (map sort_keys xs)"
| "sort_keys j = j"

section \<open>The text determines the value\<close>

text \<open>
  Compact JSON without numbers is self-delimiting: a value followed by anything can be read back
  in one way only. With \<open>sort_keys\<close> the text is that of the value with its keys sorted.
\<close>

lemma dumps_sorted: "dumps True j = dumps False (sort_keys j)"
proof (induction j)
  case (JObj kvs)
  have "map (\<lambda>(k, v). quote_json k @ '':'' @ dumps True v) (sort_items kvs) =
        map (\<lambda>(k, v). quote_json k @ '':'' @ dumps False v)
          (map (\<lambda>(k, v). (k, sort_keys v)) (sort_items kvs))"
    by (auto simp: JObj)
  then show ?case by (simp only: dumps.simps sort_keys.simps if_True if_False)
qed (auto intro!: arg_cong [where f = "join '',''"])

lemma join_Cons: "join sep (x # xs) = x @ concat (map (\<lambda>y. sep @ y) xs)"
  by (induction xs arbitrary: x) auto

lemma tail_delimited:
  assumes "concat (map (\<lambda>x. c # f x) xs) @ d # r = concat (map (\<lambda>x. c # f x) ys) @ d # s"
    and "\<And>x y r s. x \<in> set xs \<Longrightarrow> f x @ r = f y @ s \<Longrightarrow> y \<in> set ys \<Longrightarrow> x = y \<and> r = s"
    and "c \<noteq> d"
  shows "xs = ys \<and> r = s"
  using assms(1,2)
proof (induction xs arbitrary: ys)
  case Nil
  then show ?case using assms(3) by (cases ys) auto
next
  case (Cons x xs)
  show ?case
  proof (cases ys)
    case Nil
    with Cons.prems(1) assms(3) show ?thesis by simp
  next
    case (Cons y ys')
    with Cons.prems have "x = y \<and> concat (map (\<lambda>x. c # f x) xs) @ d # r = concat (map (\<lambda>x. c # f x) ys') @ d # s"
      by (auto dest!: Cons.prems(2))
    with Cons.IH [of ys'] Cons.prems(2) show ?thesis by (auto simp: Cons)
  qed
qed

lemma list_delimited:
  assumes "join [c] (map f xs) @ d # r = join [c] (map f ys) @ d # s"
    and "\<And>x y r s. x \<in> set xs \<Longrightarrow> f x @ r = f y @ s \<Longrightarrow> y \<in> set ys \<Longrightarrow> x = y \<and> r = s"
    and "\<And>x q t. x \<in> set xs \<union> set ys \<Longrightarrow> f x @ q \<noteq> d # t"
    and "c \<noteq> d"
  shows "xs = ys \<and> r = s"
proof (cases xs)
  case Nil
  have "f y @ concat (map (\<lambda>x. c # f x) ys') @ d # s = d # r" if "ys = y # ys'" for y ys'
    using assms(1) Nil that by (simp add: join_Cons o_def)
  then have "ys = []" using assms(3) by (cases ys) auto
  with assms(1) Nil show ?thesis by simp
next
  case xs: (Cons x xs')
  show ?thesis
  proof (cases ys)
    case Nil
    with assms(1) assms(3) [of x] xs show ?thesis by (auto simp: join_Cons)
  next
    case ys: (Cons y ys')
    from assms(1) xs ys have
      "f x @ concat (map (\<lambda>x. c # f x) xs') @ d # r = f y @ concat (map (\<lambda>x. c # f x) ys') @ d # s"
      by (simp add: join_Cons o_def)
    with assms(2) xs ys have "x = y"
      and tl: "concat (map (\<lambda>x. c # f x) xs') @ d # r = concat (map (\<lambda>x. c # f x) ys') @ d # s"
      by (metis list.set_intros(1))+
    from tl have "xs' = ys' \<and> r = s"
      by (rule tail_delimited) (use assms(2,4) xs ys in auto)
    with \<open>x = y\<close> show ?thesis using xs ys by simp
  qed
qed

lemma code_of_digit: "n < 16 \<Longrightarrow> code_of (digit n) = (if n < 10 then 48 else 87) + n"
  by (simp add: digit_def code_of_def)

lemma digit_inj:
  assumes "i < 16" "j < 16" "digit i = digit j" shows "i = j"
proof -
  have "code_of (digit i) = code_of (digit j)" by (simp only: assms(3))
  then show ?thesis by (simp add: code_of_digit assms(1,2) split: if_splits)
qed

lemma code_of_inj: "code_of c = code_of d \<Longrightarrow> c = d"
  by (simp add: code_of_def)

lemma code_of_less: "code_of c < 256"
  by (simp add: code_of_def)

lemma char_of_code: "char_of (code_of c) = c"
  by (simp add: code_of_def)

lemma code_char_of: "n < 256 \<Longrightarrow> code_of (char_of n) = n"
  by (simp add: code_of_def)

lemma code_of_chars [simp]:
  "code_of (CHR 0x22) = 34" "code_of (CHR 0x5C) = 92" "code_of (CHR ''u'') = 117"
  by (simp_all add: code_of_def)

lemma short_escapes_inj:
  "map_of short_escapes m = Some k \<Longrightarrow> map_of short_escapes n = Some k \<Longrightarrow> m = n"
  by (simp add: short_escapes_def split: if_splits)

lemma short_escapes_range: "map_of short_escapes m = Some k \<Longrightarrow> k < 117"
  by (simp add: short_escapes_def split: if_splits)

lemma short_escapes_bs: "map_of short_escapes 92 = Some 92" "map_of short_escapes 34 = Some 34"
  by (simp_all add: short_escapes_def)

lemma esc_char_cases:
  obtains (short) m where "map_of short_escapes (code_of c) = Some m"
      "esc_char c = [CHR 0x5C, char_of m]" "m < 117"
  | (plain) "esc_char c = [c]" "code_of c \<noteq> 92" "code_of c \<noteq> 34"
  | (hex) "esc_char c = CHR 0x5C # CHR ''u'' # ''00'' @
        [digit (code_of c div 16), digit (code_of c mod 16)]"
proof (cases "map_of short_escapes (code_of c)")
  case (Some m)
  then show ?thesis by (intro short [of m]) (auto simp: esc_char_def short_escapes_range)
next
  case None
  then have "code_of c \<noteq> 92" "code_of c \<noteq> 34" by (auto simp: short_escapes_bs)
  moreover have "esc_char c = [c] \<or> esc_char c = CHR 0x5C # CHR ''u'' # ''00'' @
        [digit (code_of c div 16), digit (code_of c mod 16)]"
    using None by (simp add: esc_char_def Let_def)
  ultimately show ?thesis using plain hex by blast
qed

lemma code_char_eq: "m < 256 \<Longrightarrow> n < 256 \<Longrightarrow> char_of m = (char_of (n::nat) :: char) \<longleftrightarrow> m = n"
  by (metis code_char_of)

lemma short_not_u [simp]:
  assumes "n < 117"
  shows "char_of (n::nat) \<noteq> CHR ''u''" and "CHR ''u'' \<noteq> char_of (n::nat)"
proof -
  have "code_of (char_of n) \<noteq> code_of (CHR ''u'')" using assms code_char_of [of n] by simp
  then show "char_of (n::nat) \<noteq> CHR ''u''" by (rule contrapos_nn) simp
  then show "CHR ''u'' \<noteq> char_of (n::nat)" by simp
qed

lemma esc_char_delimited: "esc_char c @ r = esc_char d @ s \<Longrightarrow> c = d \<and> r = s"
proof (cases c rule: esc_char_cases)
  case c: (short m)
  assume eq: "esc_char c @ r = esc_char d @ s"
  show ?thesis
  proof (cases d rule: esc_char_cases)
    case (short n)
    with c eq have "m = n" "r = s" using code_char_eq [of m n] by auto
    with c short show ?thesis by (auto dest: short_escapes_inj intro: code_of_inj)
  next
    case plain
    with c eq show ?thesis by (auto simp: code_char_of)
  next
    case hex
    with c eq show ?thesis using code_char_of [of m] by auto
  qed
next
  case c: plain
  assume eq: "esc_char c @ r = esc_char d @ s"
  with c show ?thesis by (cases d rule: esc_char_cases) (auto simp: code_char_of)
next
  case c: hex
  assume eq: "esc_char c @ r = esc_char d @ s"
  show ?thesis
  proof (cases d rule: esc_char_cases)
    case (short n)
    with c eq show ?thesis using code_char_of [of n] by auto
  next
    case plain
    with c eq show ?thesis by (auto simp: code_char_of)
  next
    case hex
    with c eq have "code_of c div 16 = code_of d div 16" "code_of c mod 16 = code_of d mod 16" "r = s"
      using code_of_less [of c] code_of_less [of d] by (auto intro!: digit_inj)
    then have "code_of c = code_of d" by (metis div_mult_mod_eq)
    with \<open>r = s\<close> show ?thesis by (auto intro: code_of_inj)
  qed
qed

lemma esc_char_hd: "esc_char c @ q \<noteq> CHR 0x22 # t"
  by (cases c rule: esc_char_cases) (auto simp: code_char_of code_char_eq)

lemma quote_delimited: "quote_json s @ r = quote_json t @ u \<Longrightarrow> s = t \<and> r = u"
proof -
  assume "quote_json s @ r = quote_json t @ u"
  then have "concat (map esc_char s) @ CHR 0x22 # r = concat (map esc_char t) @ CHR 0x22 # u"
    by (simp add: quote_json_def)
  then show ?thesis
  proof (induction s arbitrary: t)
    case Nil
    then show ?case using esc_char_hd [symmetric] by (cases t) auto
  next
    case (Cons c s)
    then show ?case using esc_char_hd by (cases t) (auto dest: esc_char_delimited)
  qed
qed


fun delimited :: "json \<Rightarrow> bool" where
  "delimited (JInt i) = False"
| "delimited (JFloat f) = False"
| "delimited (JList xs) = list_all delimited xs"
| "delimited (JObj kvs) = list_all (\<lambda>(k, v). delimited v) kvs"
| "delimited _ = True"

lemma dumps_hd: "delimited j \<Longrightarrow> dumps False j @ q \<noteq> CHR '']'' # t"
  by (cases j) (auto simp: quote_json_def)

lemma dumps_delimited:
  "delimited a \<Longrightarrow> delimited b \<Longrightarrow> dumps False a @ r = dumps False b @ s \<Longrightarrow> a = b \<and> r = s"
proof (induction a arbitrary: b r s)
  case JNull
  then show ?case by (cases b) (auto simp: quote_json_def split: if_splits)
next
  case (JBool x)
  then show ?case by (cases b) (auto simp: quote_json_def split: if_splits)
next
  case (JStr x)
  then show ?case
    by (cases b) (auto split: if_splits dest: quote_delimited, auto simp: quote_json_def)
next
  case (JList xs)
  show ?case
  proof (cases b)
    case (JList ys)
    with JList.prems have "join [CHR '',''] (map (dumps False) xs) @ CHR '']'' # r =
        join [CHR '',''] (map (dumps False) ys) @ CHR '']'' # s" by simp
    then have "xs = ys \<and> r = s"
      by (rule list_delimited)
         (use JList.IH JList.prems JList in \<open>auto simp: list_all_iff dumps_hd\<close>)
    with JList show ?thesis by simp
  qed (use JList.prems in \<open>auto simp: quote_json_def split: if_splits\<close>)
next
  case (JObj kvs)
  let ?f = "\<lambda>(k, v). quote_json k @ '':'' @ dumps False v"
  show ?case
  proof (cases b)
    case b: (JObj kws)
    have step: "x = y \<and> r' = s'"
      if "x \<in> set kvs" "?f x @ r' = ?f y @ s'" "y \<in> set kws" for x y r' s'
    proof -
      obtain k v k' v' where xy: "x = (k, v)" "y = (k', v')" by (cases x; cases y)
      with that have "quote_json k @ '':'' @ dumps False v @ r' = quote_json k' @ '':'' @ dumps False v' @ s'"
        by simp
      from quote_delimited [OF this] have "k = k'" "dumps False v @ r' = dumps False v' @ s'" by auto
      moreover from this(2) have "v = v' \<and> r' = s'"
        using JObj.IH [of x v v' r' s'] JObj.prems(1,2) that xy b by (auto simp: list_all_iff)
      ultimately show ?thesis using xy by simp
    qed
    from JObj.prems b have "join [CHR '',''] (map ?f kvs) @ CHR ''}'' # r =
        join [CHR '',''] (map ?f kws) @ CHR ''}'' # s" by simp
    then have "kvs = kws \<and> r = s"
      by (rule list_delimited) (use step in \<open>auto simp: quote_json_def\<close>)
    with b show ?thesis by simp
  qed (use JObj.prems in \<open>auto simp: quote_json_def split: if_splits\<close>)
qed simp_all

lemma dumps_inject: "delimited a \<Longrightarrow> delimited b \<Longrightarrow> dumps False a = dumps False b \<Longrightarrow> a = b"
  using dumps_delimited [of a b "[]" "[]"] by simp

lemma show_nat_snoc: "10 \<le> n \<Longrightarrow> show_nat n = show_nat (n div 10) @ [digit (n mod 10)]"
  by (simp add: show_nat.simps [of n])

lemma show_nat_small: "n < 10 \<Longrightarrow> show_nat n = [digit n]"
  by (simp add: show_nat.simps [of n])

lemma show_nat_0: "show_nat 0 = ''0''" and show_nat_1: "show_nat 1 = ''1''"
  by (code_simp, code_simp)

lemma show_nat_nonempty [simp]: "show_nat n \<noteq> []"
  by (cases "n < 10") (simp_all add: show_nat_small show_nat_snoc)

lemma show_nat_inject: "show_nat m = show_nat n \<Longrightarrow> m = n"
proof (induction m arbitrary: n rule: less_induct)
  case (less m)
  have "last (show_nat k) = digit (k mod 10)" for k
    by (cases "k < 10") (simp_all add: show_nat_small show_nat_snoc)
  with less.prems have "digit (m mod 10) = digit (n mod 10)" by metis
  then have last: "m mod 10 = n mod 10" by (rule digit_inj [rotated 2]) simp_all
  have len: "length (show_nat k) = 1 \<longleftrightarrow> k < 10" for k
    by (cases "k < 10") (simp_all add: show_nat_small show_nat_snoc)
  show ?case
  proof (cases "m < 10")
    case True
    then have "n < 10" using len [of m] len [of n] less.prems by simp
    with True last show ?thesis by simp
  next
    case False
    then have n: "10 \<le> n" using len [of m] len [of n] less.prems by simp
    with False less.prems have "show_nat (m div 10) = show_nat (n div 10)"
      by (simp add: show_nat_snoc)
    then have "m div 10 = n div 10" by (rule less.IH [rotated]) (use False in simp)
    with last show ?thesis by (metis div_mult_mod_eq)
  qed
qed

lemma inj_show_nat: "inj show_nat"
  by (rule injI) (rule show_nat_inject)

section \<open>Equality is reflexive on well-formed values\<close>

lemma py_eq_refl: "wf_json j \<Longrightarrow> py_eq j j"
proof (induction j)
  case (JObj kvs)
  have "case map_of kvs k of None \<Rightarrow> False | Some w \<Rightarrow> py_eq v w" if "(k, v) \<in> set kvs" for k v
  proof -
    from that JObj.prems have "map_of kvs k = Some v" by simp
    moreover have "py_eq v v" using that JObj by (auto simp: list_all_iff)
    ultimately show ?thesis by simp
  qed
  then show ?case by (auto simp: list_all_iff)
next
  case (JList xs)
  then show ?case by (auto simp: list_all_iff zip_same_conv_map)
qed (auto simp: scalar_eq_def float_eq_def split: option.splits pyfloat.splits)

end
