(* ===== verification/Database.thy ===== *)
theory Database
  imports Json
begin

text \<open>
  The PostgreSQL database of the runtime service as a value: one list of rows per table of
  \<open>migrations/*.sql\<close>, in insertion order, and the three things the server itself decides, which
  the operations read and never change: the stream of uuids \<open>gen_random_uuid()\<close> hands out
  (\<open>db_uuid\<close>, read at position \<open>db_next\<close>), the value of \<open>NOW()\<close> (\<open>db_now\<close>, in seconds) and
  what a JSON value reads back as after a round trip through a JSONB column (\<open>db_jsonb\<close>).
  A statement is assumed to succeed: connection failures and size limits are not modelled.

  The section on get-or-create states the contract three operations of the code share: the two
  \<open>ensure_endpoint\<close> and \<open>register_snapshot\<close>.
\<close>

section \<open>Rows\<close>

type_synonym uuid = string

record endpoint_row =
  er_id :: uuid
  er_namespace :: string
  er_service :: string
  er_method :: string
  er_route :: string
  er_name :: string

record SchemaVersionRecord =
  sv_id :: uuid
  sv_endpoint_id :: uuid
  sv_version :: int
  sv_fingerprint :: string
  sv_canonical_schema :: json
  sv_classification :: string
  sv_previous_version_id :: "uuid option"
  sv_is_current :: bool

record subscription =
  sub_id :: uuid
  sub_consumer_id :: string
  sub_endpoint_id :: uuid
  sub_target_url :: string
  sub_threshold :: string
  sub_schema_version :: "int option"
  sub_active :: bool
  sub_created_at :: int
  sub_updated_at :: int

record attempt_row =
  at_event_id :: string
  at_consumer_id :: string
  at_endpoint_id :: uuid
  at_target_url :: string
  at_success :: bool
  at_failure_reason :: "string option"
  at_attempt_count :: int
  at_attempted_at :: int

record dlq_row =
  dq_id :: uuid
  dq_event_id :: string
  dq_consumer_id :: string
  dq_endpoint_id :: uuid
  dq_target_url :: string
  dq_payload :: json
  dq_failure_reason :: string
  dq_attempt_count :: int
  dq_created_at :: int
  dq_last_attempt_at :: int

datatype outbox_status = PENDING | DELIVERING | FAILED | DELIVERED

record outbox_row =
  ob_id :: uuid
  ob_subscription_id :: uuid
  ob_endpoint_id :: uuid
  ob_payload :: json
  ob_status :: outbox_status
  ob_attempts :: int
  ob_max_attempts :: int
  ob_next_retry_at :: int
  ob_created_at :: int
  ob_updated_at :: int

text \<open>The tables of the older contract guard.\<close>

record api_endpoint_row =
  ae_id :: uuid
  ae_service :: string
  ae_method :: string
  ae_route :: string

record snapshot_row =
  sn_id :: uuid
  sn_endpoint_id :: uuid
  sn_fingerprint :: string
  sn_schema :: json
  sn_active :: bool
  sn_created_at :: int

record violation_row =
  vi_id :: uuid
  vi_endpoint_id :: uuid
  vi_fingerprint :: string
  vi_severity :: string
  vi_payload :: json

record database =
  db_endpoints :: "endpoint_row list"
  db_versions :: "SchemaVersionRecord list"
  db_subscriptions :: "subscription list"
  db_attempts :: "attempt_row list"
  db_dlq :: "dlq_row list"
  db_outbox :: "outbox_row list"
  db_api_endpoints :: "api_endpoint_row list"
  db_snapshots :: "snapshot_row list"
  db_violations :: "violation_row list"
  db_uuid :: "nat \<Rightarrow> uuid"
  db_next :: nat
  db_now :: int
  db_jsonb :: "json \<Rightarrow> json"

definition empty_db :: "(nat \<Rightarrow> uuid) \<Rightarrow> int \<Rightarrow> (json \<Rightarrow> json) \<Rightarrow> database" where
  "empty_db uuids now jsonb =
     \<lparr>db_endpoints = [], db_versions = [], db_subscriptions = [], db_attempts = [], db_dlq = [],
      db_outbox = [], db_api_endpoints = [], db_snapshots = [], db_violations = [],
      db_uuid = uuids, db_next = 0, db_now = now, db_jsonb = jsonb\<rparr>"

section \<open>Statements\<close>

text \<open>\<open>gen_random_uuid()\<close> as a column default: the next uuid, and the server moved on.\<close>

definition new_uuid :: "database \<Rightarrow> uuid" where
  "new_uuid db = db_uuid db (db_next db)"

definition used_uuid :: "database \<Rightarrow> database" where
  "used_uuid db = db\<lparr>db_next := Suc (db_next db)\<rparr>"

text \<open>A row id the server has handed out already.\<close>

definition issued :: "database \<Rightarrow> uuid \<Rightarrow> bool" where
  "issued db i \<longleftrightarrow> (\<exists>n < db_next db. i = db_uuid db n)"

definition update_rows :: "('r \<Rightarrow> bool) \<Rightarrow> ('r \<Rightarrow> 'r) \<Rightarrow> 'r list \<Rightarrow> 'r list" where
  "update_rows P f rows = map (\<lambda>r. if P r then f r else r) rows"

text \<open>\<open>ORDER BY key DESC\<close>, rows with equal keys in insertion order.\<close>

definition order_desc :: "('r \<Rightarrow> int) \<Rightarrow> 'r list \<Rightarrow> 'r list" where
  "order_desc key rows = sort_key (\<lambda>r. - key r) rows"

definition order_asc :: "('r \<Rightarrow> int) \<Rightarrow> 'r list \<Rightarrow> 'r list" where
  "order_asc key rows = sort_key key rows"

definition first_row :: "'r list \<Rightarrow> 'r option" where
  "first_row rows = (case rows of [] \<Rightarrow> None | r # _ \<Rightarrow> Some r)"

text \<open>\<open>LIMIT n\<close>; a negative limit is an error of the server and not modelled.\<close>

definition limit_rows :: "int \<Rightarrow> 'r list \<Rightarrow> 'r list" where
  "limit_rows n rows = take (nat n) rows"

named_theorems sql_simps "statements on lists of rows"

lemma first_row_simps [simp]: "first_row [] = None" "first_row (r # rs) = Some r"
  by (simp_all add: first_row_def)

lemma first_row_filter_None [sql_simps]: "first_row (filter P rows) = None \<longleftrightarrow> (\<forall>r \<in> set rows. \<not> P r)"
  by (cases "filter P rows") (auto simp: filter_eq_Cons_iff filter_empty_conv)

lemma first_row_filter_SomeD: "first_row (filter P rows) = Some r \<Longrightarrow> r \<in> set rows \<and> P r"
  by (cases "filter P rows") (auto simp: filter_eq_Cons_iff)

lemma first_row_append [sql_simps]:
  "first_row (xs @ ys) = (case first_row xs of None \<Rightarrow> first_row ys | Some r \<Rightarrow> Some r)"
  by (cases xs) auto

lemma first_row_unique:
  assumes "r \<in> set rows" "P r" "\<And>q. q \<in> set rows \<Longrightarrow> P q \<Longrightarrow> q = r"
  shows "first_row (filter P rows) = Some r"
proof (cases "first_row (filter P rows)")
  case None
  with assms(1,2) show ?thesis by (simp add: first_row_filter_None)
next
  case (Some q)
  then show ?thesis using assms(3) [of q] by (auto dest: first_row_filter_SomeD)
qed

lemma map_update_rows [sql_simps]:
  "(\<And>r. g (f r) = g r) \<Longrightarrow> map g (update_rows P f rows) = map g rows"
  by (induction rows) (auto simp: update_rows_def)

lemma set_update_rows [sql_simps]: "set (update_rows P f rows) = (\<lambda>r. if P r then f r else r) ` set rows"
  by (simp add: update_rows_def)

lemma in_update_rows: "r \<in> set rows \<Longrightarrow> P r \<Longrightarrow> f r \<in> set (update_rows P f rows)"
  by (auto simp: update_rows_def intro: rev_image_eqI)

lemma length_update_rows [simp]: "length (update_rows P f rows) = length rows"
  by (simp add: update_rows_def)

lemma filter_update_rows [sql_simps]:
  "(\<And>r. Q (f r) = Q r) \<Longrightarrow> filter Q (update_rows P f rows) = update_rows P f (filter Q rows)"
  by (induction rows) (auto simp: update_rows_def)

lemma update_rows_Nil [simp]: "update_rows P f [] = []"
  by (simp add: update_rows_def)

lemma update_rows_append [sql_simps]:
  "update_rows P f (xs @ ys) = update_rows P f xs @ update_rows P f ys"
  by (simp add: update_rows_def)

lemma update_rows_none: "(\<And>r. r \<in> set rows \<Longrightarrow> \<not> P r) \<Longrightarrow> update_rows P f rows = rows"
  by (induction rows) (auto simp: update_rows_def)

lemma first_row_update:
  assumes "\<And>r. key (f r) = key r"
  shows "first_row (filter (\<lambda>r. key r = j) (update_rows (\<lambda>r. key r = i) f rows)) =
    (if i = j then map_option f (first_row (filter (\<lambda>r. key r = j) rows))
     else first_row (filter (\<lambda>r. key r = j) rows))"
  by (induction rows) (auto simp: update_rows_def assms)

lemma set_order [simp]: "set (order_desc k rows) = set rows" "set (order_asc k rows) = set rows"
  by (simp_all add: order_desc_def order_asc_def)

lemma order_desc_first_ge:
  assumes "first_row (order_desc k rows) = Some r"
  shows "r \<in> set rows \<and> (\<forall>q \<in> set rows. k q \<le> k r)"
proof -
  obtain rs where eq: "order_desc k rows = r # rs"
    using assms by (cases "order_desc k rows") auto
  have "sorted (map (\<lambda>r. - k r) (order_desc k rows))" by (simp add: order_desc_def)
  then have "\<forall>q \<in> set rs. k q \<le> k r" by (simp add: eq)
  moreover have "set rows = insert r (set rs)" using eq set_order(1) [of k rows] by simp
  ultimately show ?thesis by auto
qed

lemma first_order_None [sql_simps]: "first_row (order_desc k rows) = None \<longleftrightarrow> rows = []"
proof -
  have "first_row (order_desc k rows) = None \<longleftrightarrow> order_desc k rows = []"
    by (cases "order_desc k rows") auto
  then show ?thesis by (metis set_empty set_order(1))
qed

lemma new_uuid_fresh: "inj (db_uuid db) \<Longrightarrow> \<not> issued db (new_uuid db)"
  by (auto simp: issued_def new_uuid_def dest: injD)

lemma used_uuid_tables [simp]:
  "db_endpoints (used_uuid db) = db_endpoints db"
  "db_versions (used_uuid db) = db_versions db"
  "db_subscriptions (used_uuid db) = db_subscriptions db"
  "db_attempts (used_uuid db) = db_attempts db"
  "db_dlq (used_uuid db) = db_dlq db"
  "db_outbox (used_uuid db) = db_outbox db"
  "db_api_endpoints (used_uuid db) = db_api_endpoints db"
  "db_snapshots (used_uuid db) = db_snapshots db"
  "db_violations (used_uuid db) = db_violations db"
  "db_uuid (used_uuid db) = db_uuid db" "db_now (used_uuid db) = db_now db" "db_jsonb (used_uuid db) = db_jsonb db"
  by (simp_all add: used_uuid_def)

lemma issued_tables [simp]:
  "issued (db\<lparr>db_endpoints := x0\<rparr>) = issued db"
  "issued (db\<lparr>db_versions := x1\<rparr>) = issued db"
  "issued (db\<lparr>db_subscriptions := x2\<rparr>) = issued db"
  "issued (db\<lparr>db_attempts := x3\<rparr>) = issued db"
  "issued (db\<lparr>db_dlq := x4\<rparr>) = issued db"
  "issued (db\<lparr>db_outbox := x5\<rparr>) = issued db"
  "issued (db\<lparr>db_api_endpoints := x6\<rparr>) = issued db"
  "issued (db\<lparr>db_snapshots := x7\<rparr>) = issued db"
  "issued (db\<lparr>db_violations := x8\<rparr>) = issued db"
  by (simp_all add: issued_def fun_eq_iff)

lemma issued_used_uuid [sql_simps]: "issued (used_uuid db) i \<longleftrightarrow> issued db i \<or> i = new_uuid db"
  by (auto simp: issued_def used_uuid_def new_uuid_def less_Suc_eq)

section \<open>Get or create\<close>

locale get_or_create =
  fixes lookup :: "'db \<Rightarrow> 'k \<Rightarrow> 'i option"
    and ensure :: "'k \<Rightarrow> 'db \<Rightarrow> 'i \<times> 'db"
  assumes hit: "lookup db k = Some i \<Longrightarrow> ensure k db = (i, db)"
    and miss: "lookup db k = None \<Longrightarrow> ensure k db = (i, db') \<Longrightarrow> lookup db' k = Some i"
    and frame: "ensure k db = (i, db') \<Longrightarrow> l \<noteq> k \<Longrightarrow> lookup db' l = lookup db l"
begin

lemma found: "ensure k db = (i, db') \<Longrightarrow> lookup db' k = Some i"
  by (cases "lookup db k") (auto simp: hit intro: miss)

lemma idempotent: "ensure k db = (i, db') \<Longrightarrow> ensure k db' = (i, db')"
  by (rule hit [OF found])

lemma stable: "lookup db l = Some j \<Longrightarrow> ensure k db = (i, db') \<Longrightarrow> lookup db' l = Some j"
  by (cases "l = k") (auto simp: hit frame)

lemma created_iff: "ensure k db = (i, db') \<Longrightarrow> db' \<noteq> db \<Longrightarrow> lookup db k = None"
  by (cases "lookup db k") (auto simp: hit)

text \<open>A run of requests: every key asked for is there afterwards, and keeps its id throughout.\<close>

fun ensure_all :: "'k list \<Rightarrow> 'db \<Rightarrow> 'db" where
  "ensure_all [] db = db"
| "ensure_all (k # ks) db = ensure_all ks (snd (ensure k db))"

lemma ensure_all_stable: "lookup db l = Some j \<Longrightarrow> lookup (ensure_all ks db) l = Some j"
proof (induction ks db rule: ensure_all.induct)
  case (2 k ks db)
  then show ?case by (cases "ensure k db") (auto dest: stable)
qed simp

lemma ensure_all_found: "k \<in> set ks \<Longrightarrow> lookup (ensure_all ks db) k \<noteq> None"
proof (induction ks db rule: ensure_all.induct)
  case (2 l ks db)
  then show ?case
    by (cases "ensure l db") (auto dest: ensure_all_stable [OF found])
qed simp

lemma ensure_all_frame: "l \<notin> set ks \<Longrightarrow> lookup (ensure_all ks db) l = lookup db l"
proof (induction ks db rule: ensure_all.induct)
  case (2 k ks db)
  then show ?case by (cases "ensure k db") (auto simp: frame)
qed simp

end

end
