(* ===== verification/Keyed_Diff.thy ===== *)
theory Keyed_Diff
  imports Json
begin

text \<open>
  The contract the three diff engines of the repository share. Each compares two schemas path by
  path: it looks a path up on both sides (\<open>look\<close>), decides whether the two sides differ
  (\<open>differs\<close>), and reports one item per differing path. An engine may also raise (\<open>Inl\<close>).
  What the callers rely on follows from these laws alone and is proved once, here.
\<close>

locale keyed_diff =
  fixes diff :: "'s \<Rightarrow> 's \<Rightarrow> py_exc + 'd list"
    and item_path :: "'d \<Rightarrow> string"
    and look :: "'s \<Rightarrow> string \<Rightarrow> 'v option"
    and differs :: "'v option \<Rightarrow> 'v option \<Rightarrow> bool"
    and valid :: "'s \<Rightarrow> bool"
  assumes diff_paths: "diff a b = Inr ds \<Longrightarrow> item_path ` set ds = {p. differs (look a p) (look b p)}"
    and diff_distinct: "diff a b = Inr ds \<Longrightarrow> distinct (map item_path ds)"
    and differs_refl: "valid a \<Longrightarrow> \<not> differs (look a p) (look a p)"
begin

lemma reported_iff:
  "diff a b = Inr ds \<Longrightarrow> p \<in> item_path ` set ds \<longleftrightarrow> differs (look a p) (look b p)"
  by (simp add: diff_paths)

lemma self_diff_empty: "valid a \<Longrightarrow> diff a a = Inr ds \<Longrightarrow> ds = []"
  using diff_paths [of a a ds] differs_refl [of a] by simp

lemma empty_iff_agree:
  "diff a b = Inr ds \<Longrightarrow> ds = [] \<longleftrightarrow> (\<forall>p. \<not> differs (look a p) (look b p))"
  using diff_paths [of a b ds] by auto

lemma one_item_per_path:
  "diff a b = Inr ds \<Longrightarrow> d \<in> set ds \<Longrightarrow> e \<in> set ds \<Longrightarrow> item_path d = item_path e \<Longrightarrow> d = e"
  using diff_distinct [of a b ds] by (auto simp: distinct_map inj_on_def)

lemma count_eq_card:
  assumes "diff a b = Inr ds"
  shows "length ds = card {p. differs (look a p) (look b p)}"
  using diff_paths [OF assms] distinct_card [OF diff_distinct [OF assms]] by simp

end

text \<open>Engines whose comparison does not care which side is the old one.\<close>

locale symmetric_diff = keyed_diff +
  assumes differs_sym: "differs x y \<longleftrightarrow> differs y x"
begin

lemma swap_paths:
  "diff a b = Inr ds \<Longrightarrow> diff b a = Inr es \<Longrightarrow> item_path ` set ds = item_path ` set es"
  using diff_paths [of a b ds] diff_paths [of b a es] differs_sym by auto

lemma swap_length: "diff a b = Inr ds \<Longrightarrow> diff b a = Inr es \<Longrightarrow> length ds = length es"
  using count_eq_card [of a b ds] count_eq_card [of b a es] differs_sym by auto

end

end
