(* ===== verification/Schema_Infer.thy ===== *)
theory Schema_Infer
  imports Json
begin

text \<open>
  \<open>backend/app/core/schema_infer.py\<close>: the schema of an observed JSON document, one node per path.
  The code walks the document over a dictionary of mutable accumulators; here the dictionary is
  passed along, and the accumulator of a path is updated where the code assigns to it. Python's
  \<open>None\<close> as an example value is \<open>JNull\<close>; a set of texts is a list without repetitions.
\<close>

section \<open>Nodes and accumulators\<close>

record SchemaNode =
  nd_path :: string
  nd_type :: string
  nd_required :: bool
  nd_nullable :: bool
  nd_array_item_type :: "string option"
  nd_enum_values :: "string list option"
  nd_example_value :: json

record node_state =
  ns_type :: string
  ns_required :: bool
  ns_nullable :: bool
  ns_array_item_type :: "string option"
  ns_example_value :: json
  ns_enum_values :: "string list"
  ns_enum_disabled :: bool
  ns_is_string_leaf :: bool

type_synonym states = "node_state dict"

fun scalar_type :: "json \<Rightarrow> string" where
  "scalar_type JNull = ''null''"
| "scalar_type (JBool b) = ''boolean''"
| "scalar_type (JInt i) = ''integer''"
| "scalar_type (JFloat f) = ''number''"
| "scalar_type (JStr s) = ''string''"
| "scalar_type _ = ''unknown''"

definition enum_threshold :: nat where
  "enum_threshold = 10"

definition example_max_len :: nat where
  "example_max_len = 200"

definition truncate_example :: "json \<Rightarrow> json" where
  "truncate_example v = (case v of JStr s \<Rightarrow> JStr (take example_max_len s) | _ \<Rightarrow> v)"

definition join_path :: "string \<Rightarrow> string \<Rightarrow> string" where
  "join_path parent key = (if parent \<noteq> [] then parent @ ''.'' @ key else key)"

definition array_path :: "string \<Rightarrow> string" where
  "array_path parent = (if parent \<noteq> [] then parent @ ''[*]'' else ''[*]'')"

text \<open>A new \<open>_NodeState\<close>.\<close>

definition new_state :: "string \<Rightarrow> node_state" where
  "new_state ty =
     \<lparr>ns_type = ty, ns_required = True, ns_nullable = False, ns_array_item_type = None,
      ns_example_value = JNull, ns_enum_values = [], ns_enum_disabled = False, ns_is_string_leaf = False\<rparr>"

text \<open>\<open>_ensure\<close>, and an assignment to the accumulator it returned.\<close>

definition ensure :: "string \<Rightarrow> string \<Rightarrow> states \<Rightarrow> states" where
  "ensure path ty st =
     (if path \<in> set (keys st) then st else AList.update path (new_state ty) st)"

definition modify :: "string \<Rightarrow> (node_state \<Rightarrow> node_state) \<Rightarrow> states \<Rightarrow> states" where
  "modify path f st = (case map_of st path of None \<Rightarrow> st | Some s \<Rightarrow> AList.update path (f s) st)"

section \<open>The walk\<close>

text \<open>The end of \<open>_emit_value\<close>: a value that is not a container.\<close>

definition merge_type :: "string \<Rightarrow> node_state \<Rightarrow> node_state" where
  "merge_type t s =
     (if ns_type s = ''null'' then s\<lparr>ns_type := t, ns_nullable := True\<rparr>
      else if ns_type s \<noteq> t then s\<lparr>ns_type := ''mixed''\<rparr> else s)"

definition keep_example :: "json \<Rightarrow> node_state \<Rightarrow> node_state" where
  "keep_example v s = (if ns_example_value s = JNull then s\<lparr>ns_example_value := truncate_example v\<rparr> else s)"

definition collect_enum :: "json \<Rightarrow> node_state \<Rightarrow> node_state" where
  "collect_enum v s =
     (case v of
        JStr x \<Rightarrow>
          let s1 = s\<lparr>ns_is_string_leaf := True\<rparr> in
          if ns_enum_disabled s1 then s1
          else
            let values = List.insert x (ns_enum_values s1) in
            if enum_threshold < length values then s1\<lparr>ns_enum_disabled := True, ns_enum_values := []\<rparr>
            else s1\<lparr>ns_enum_values := values\<rparr>
      | _ \<Rightarrow> s)"

definition observe_scalar :: "json \<Rightarrow> node_state \<Rightarrow> node_state" where
  "observe_scalar v s = collect_enum v (keep_example v (merge_type (scalar_type v) s))"

definition emit_scalar :: "string \<Rightarrow> json \<Rightarrow> states \<Rightarrow> states" where
  "emit_scalar path v st =
     (if v = JNull then modify path (\<lambda>s. s\<lparr>ns_nullable := True\<rparr>) (ensure path ''null'' st)
      else modify path (observe_scalar v) (ensure path (scalar_type v) st))"

text \<open>How many items have each key; the keys in the order they were first seen.\<close>

fun fields_of :: "json \<Rightarrow> json dict" where
  "fields_of (JObj kvs) = kvs"
| "fields_of _ = []"

definition count_key :: "string \<Rightarrow> (string \<times> nat) list \<Rightarrow> (string \<times> nat) list" where
  "count_key k seen = AList.update k (Suc (case map_of seen k of None \<Rightarrow> 0 | Some n \<Rightarrow> n)) seen"

definition keys_seen :: "json list \<Rightarrow> (string \<times> nat) list" where
  "keys_seen data = fold (\<lambda>item seen. fold count_key (keys (fields_of item)) seen) data []"

definition mark_optional :: "string \<Rightarrow> nat \<Rightarrow> string \<times> nat \<Rightarrow> states \<Rightarrow> states" where
  "mark_optional item_path n_items kc st =
     (if snd kc < n_items then modify (join_path item_path (fst kc)) (\<lambda>s. s\<lparr>ns_required := False\<rparr>) st else st)"

definition item_type_of :: "json list \<Rightarrow> string" where
  "item_type_of data =
     (let item_types = remdups (filter (\<lambda>t. t \<noteq> ''null'') (map scalar_type data)) in
      if length item_types = 1 then hd item_types
      else if item_types \<noteq> [] then ''mixed'' else ''null'')"

text \<open>
  \<open>_walk\<close> and \<open>_emit_value\<close>; \<open>emit_fields\<close> is the loop over the entries of a dictionary,
  \<open>emit_rows\<close> the loop over a list of dictionaries, \<open>emit_items\<close> the one over any other list.
\<close>

function (sequential) walk :: "json \<Rightarrow> string \<Rightarrow> states \<Rightarrow> states"
  and emit_value :: "string \<Rightarrow> json \<Rightarrow> states \<Rightarrow> states"
  and emit_fields :: "string \<Rightarrow> json dict \<Rightarrow> states \<Rightarrow> states"
  and emit_rows :: "string \<Rightarrow> json list \<Rightarrow> states \<Rightarrow> states"
  and emit_items :: "string \<Rightarrow> json list \<Rightarrow> states \<Rightarrow> states" where
  "walk (JObj kvs) parent st = emit_fields parent kvs (if parent \<noteq> [] then ensure parent ''object'' st else st)"
| "walk (JList data) parent st =
     (let path = (if parent \<noteq> [] then parent else ''[*]'');
          st1 = ensure path ''array'' st;
          item_path = array_path parent in
      if data = [] then modify path (\<lambda>s. s\<lparr>ns_array_item_type := Some ''unknown''\<rparr>) st1
      else if list_all is_obj data then
        fold (mark_optional item_path (length data)) (keys_seen data)
          (emit_rows item_path data (modify path (\<lambda>s. s\<lparr>ns_array_item_type := Some ''object''\<rparr>) st1))
      else
        modify path (\<lambda>s. s\<lparr>ns_array_item_type := Some (item_type_of data)\<rparr>) (emit_items item_path data st1))"
| "walk v parent st = emit_scalar (if parent \<noteq> [] then parent else ''[root]'') v st"
| "emit_value path (JObj kvs) st = walk (JObj kvs) path (ensure path ''object'' st)"
| "emit_value path (JList xs) st = walk (JList xs) path st"
| "emit_value path v st = emit_scalar path v st"
| "emit_fields parent [] st = st"
| "emit_fields parent ((k, v) # kvs) st = emit_fields parent kvs (emit_value (join_path parent k) v st)"
| "emit_rows item_path [] st = st"
| "emit_rows item_path (JObj kvs # xs) st = emit_rows item_path xs (emit_fields item_path kvs st)"
| "emit_rows item_path (_ # xs) st = emit_rows item_path xs st"
| "emit_items item_path [] st = st"
| "emit_items item_path (x # xs) st = emit_items item_path xs (emit_value item_path x st)"
  by pat_completeness auto
termination
  by (relation "measure (\<lambda>c. case c of
        Inl (Inl (j, p, st)) \<Rightarrow> 4 * size j
      | Inl (Inr (p, j, st)) \<Rightarrow> 4 * size j + 1
      | Inr (Inl (p, kvs, st)) \<Rightarrow> 4 * size (JObj kvs) - 1
      | Inr (Inr (Inl (p, xs, st))) \<Rightarrow> 4 * size (JList xs) - 1
      | Inr (Inr (Inr (p, xs, st))) \<Rightarrow> 4 * size (JList xs) - 1)") auto

section \<open>The inferred schema\<close>

text \<open>\<open>_finalize\<close>; the accumulator of a path knows its path.\<close>

definition finalize :: "string \<times> node_state \<Rightarrow> SchemaNode" where
  "finalize ps =
     (let s = snd ps in
      \<lparr>nd_path = fst ps, nd_type = ns_type s, nd_required = ns_required s, nd_nullable = ns_nullable s,
       nd_array_item_type = ns_array_item_type s,
       nd_enum_values =
         (if ns_is_string_leaf s \<and> \<not> ns_enum_disabled s \<and> ns_enum_values s \<noteq> [] then Some (sort (ns_enum_values s))
          else None),
       nd_example_value = ns_example_value s\<rparr>)"

definition infer_schema :: "json \<Rightarrow> SchemaNode list" where
  "infer_schema data = sort_key nd_path (map finalize (walk data [] []))"

section \<open>What a document shows\<close>

text \<open>
  The values a document shows at each path, in document order: a dictionary and a list at their own
  path, the entries of a dictionary below it, the elements of a list under \<open>[*]\<close>, except that the
  dictionaries of a list of dictionaries are shown by their entries only.
\<close>

function (sequential) sightings :: "string \<Rightarrow> json \<Rightarrow> (string \<times> json) list"
  and sight_fields :: "string \<Rightarrow> json dict \<Rightarrow> (string \<times> json) list"
  and sight_rows :: "string \<Rightarrow> json list \<Rightarrow> (string \<times> json) list"
  and sight_items :: "string \<Rightarrow> json list \<Rightarrow> (string \<times> json) list" where
  "sightings p (JObj kvs) = (p, JObj kvs) # sight_fields p kvs"
| "sightings p (JList xs) = (if p \<noteq> [] then p else ''[*]'', JList xs) #
     (if list_all is_obj xs then sight_rows (array_path p) xs else sight_items (array_path p) xs)"
| "sightings p v = [(p, v)]"
| "sight_fields p [] = []"
| "sight_fields p ((k, v) # kvs) = sightings (join_path p k) v @ sight_fields p kvs"
| "sight_rows p [] = []"
| "sight_rows p (JObj kvs # xs) = sight_fields p kvs @ sight_rows p xs"
| "sight_rows p (_ # xs) = sight_rows p xs"
| "sight_items p [] = []"
| "sight_items p (x # xs) = sightings p x @ sight_items p xs"
  by pat_completeness auto
termination
  by (relation "measure (\<lambda>c. case c of
        Inl (Inl (p, j)) \<Rightarrow> 2 * size j
      | Inl (Inr (p, kvs)) \<Rightarrow> 2 * size (JObj kvs) - 1
      | Inr (Inl (p, xs)) \<Rightarrow> 2 * size (JList xs) - 1
      | Inr (Inr (p, xs)) \<Rightarrow> 2 * size (JList xs) - 1)") auto

fun document_sightings :: "json \<Rightarrow> (string \<times> json) list" where
  "document_sightings (JObj kvs) = sight_fields [] kvs"
| "document_sightings (JList xs) = sightings [] (JList xs)"
| "document_sightings v = [(''[root]'', v)]"

text \<open>The keys that some but not all dictionaries of a list have, at their path, at every level.\<close>

definition partial_keys :: "json list \<Rightarrow> string list" where
  "partial_keys data =
     filter (\<lambda>k. \<exists>x \<in> set data. k \<notin> set (keys (fields_of x))) (concat (map (\<lambda>x. keys (fields_of x)) data))"

function (sequential) optional_at :: "string \<Rightarrow> json \<Rightarrow> string list"
  and optional_fields :: "string \<Rightarrow> json dict \<Rightarrow> string list"
  and optional_rows :: "string \<Rightarrow> json list \<Rightarrow> string list"
  and optional_items :: "string \<Rightarrow> json list \<Rightarrow> string list" where
  "optional_at p (JObj kvs) = optional_fields p kvs"
| "optional_at p (JList xs) =
     (if list_all is_obj xs then optional_rows (array_path p) xs @ map (join_path (array_path p)) (partial_keys xs)
      else optional_items (array_path p) xs)"
| "optional_at p v = []"
| "optional_fields p [] = []"
| "optional_fields p ((k, v) # kvs) = optional_at (join_path p k) v @ optional_fields p kvs"
| "optional_rows p [] = []"
| "optional_rows p (JObj kvs # xs) = optional_fields p kvs @ optional_rows p xs"
| "optional_rows p (_ # xs) = optional_rows p xs"
| "optional_items p [] = []"
| "optional_items p (x # xs) = optional_at p x @ optional_items p xs"
  by pat_completeness auto
termination
  by (relation "measure (\<lambda>c. case c of
        Inl (Inl (p, j)) \<Rightarrow> 2 * size j
      | Inl (Inr (p, kvs)) \<Rightarrow> 2 * size (JObj kvs) - 1
      | Inr (Inl (p, xs)) \<Rightarrow> 2 * size (JList xs) - 1
      | Inr (Inr (p, xs)) \<Rightarrow> 2 * size (JList xs) - 1)") auto

definition values_at :: "string \<Rightarrow> (string \<times> json) list \<Rightarrow> json list" where
  "values_at q sg = map snd (filter (\<lambda>(p, v). p = q) sg)"

lemma values_at_simps [simp]:
  "values_at q [] = []" "values_at q (a @ b) = values_at q a @ values_at q b"
  "values_at q ((p, v) # sg) = (if p = q then v # values_at q sg else values_at q sg)"
  by (simp_all add: values_at_def)

definition is_scalar :: "json \<Rightarrow> bool" where
  "is_scalar v = (\<not> is_obj v \<and> \<not> is_list v)"

lemma is_scalar_simps [simp]:
  "is_scalar JNull" "is_scalar (JBool b)" "is_scalar (JInt i)" "is_scalar (JFloat f)" "is_scalar (JStr s)"
  "\<not> is_scalar (JList xs)" "\<not> is_scalar (JObj kvs)"
  by (simp_all add: is_scalar_def is_obj_def is_list_def)

text \<open>The one type of all, whatever their order.\<close>

definition common_type :: "string list \<Rightarrow> string" where
  "common_type ts =
     (if ts = [] then ''null'' else if list_all (\<lambda>t. t = hd ts) ts then hd ts else ''mixed'')"

definition scalar_types :: "json list \<Rightarrow> string list" where
  "scalar_types vs = map scalar_type (filter (\<lambda>v. is_scalar v \<and> v \<noteq> JNull) vs)"

text \<open>
  What the values seen at a path say of it. A path that has shown a container first keeps its type
  until a scalar comes, which makes it \<open>mixed\<close>; one that has shown a scalar or null first has the
  common type of its scalars, whatever containers come between.
\<close>

definition seen_type :: "json list \<Rightarrow> string" where
  "seen_type vs =
     (let ts = scalar_types vs in
      if is_scalar (hd vs) then common_type ts
      else if ts \<noteq> [] then ''mixed'' else if is_obj (hd vs) then ''object'' else ''array'')"

definition seen_example :: "json list \<Rightarrow> json" where
  "seen_example vs =
     (case filter (\<lambda>v. is_scalar v \<and> v \<noteq> JNull) vs of [] \<Rightarrow> JNull | v # _ \<Rightarrow> truncate_example v)"

definition texts_in :: "json list \<Rightarrow> string list" where
  "texts_in vs = concat (map (\<lambda>v. case v of JStr x \<Rightarrow> [x] | _ \<Rightarrow> []) vs)"

definition seen_enum :: "json list \<Rightarrow> string list option" where
  "seen_enum vs =
     (let es = sorted_set (texts_in vs) in if es = [] \<or> enum_threshold < length es then None else Some es)"

text \<open>
  The item types in the order in which they are written: the one of a list of dictionaries before
  its rows are walked, the one of any other list after its items.
\<close>

definition item_types_at :: "string \<Rightarrow> (string \<times> string) list \<Rightarrow> string option" where
  "item_types_at q its = (let ts = map snd (filter (\<lambda>(p, t). p = q) its) in if ts = [] then None else Some (last ts))"

function (sequential) item_types :: "string \<Rightarrow> json \<Rightarrow> (string \<times> string) list"
  and item_types_fields :: "string \<Rightarrow> json dict \<Rightarrow> (string \<times> string) list"
  and item_types_rows :: "string \<Rightarrow> json list \<Rightarrow> (string \<times> string) list"
  and item_types_items :: "string \<Rightarrow> json list \<Rightarrow> (string \<times> string) list" where
  "item_types p (JObj kvs) = item_types_fields p kvs"
| "item_types p (JList xs) =
     (let path = (if p \<noteq> [] then p else ''[*]'') in
      if xs = [] then [(path, ''unknown'')]
      else if list_all is_obj xs then (path, ''object'') # item_types_rows (array_path p) xs
      else item_types_items (array_path p) xs @ [(path, item_type_of xs)])"
| "item_types p v = []"
| "item_types_fields p [] = []"
| "item_types_fields p ((k, v) # kvs) = item_types (join_path p k) v @ item_types_fields p kvs"
| "item_types_rows p [] = []"
| "item_types_rows p (JObj kvs # xs) = item_types_fields p kvs @ item_types_rows p xs"
| "item_types_rows p (_ # xs) = item_types_rows p xs"
| "item_types_items p [] = []"
| "item_types_items p (x # xs) = item_types p x @ item_types_items p xs"
  by pat_completeness auto
termination
  by (relation "measure (\<lambda>c. case c of
        Inl (Inl (p, j)) \<Rightarrow> 2 * size j
      | Inl (Inr (p, kvs)) \<Rightarrow> 2 * size (JObj kvs) - 1
      | Inr (Inl (p, xs)) \<Rightarrow> 2 * size (JList xs) - 1
      | Inr (Inr (p, xs)) \<Rightarrow> 2 * size (JList xs) - 1)") auto

section \<open>The walk follows the sightings\<close>

lemma new_state_fields [simp]:
  "ns_type (new_state ty) = ty" "ns_required (new_state ty)" "\<not> ns_nullable (new_state ty)"
  "ns_array_item_type (new_state ty) = None" "ns_example_value (new_state ty) = JNull"
  "ns_enum_values (new_state ty) = []" "\<not> ns_enum_disabled (new_state ty)" "\<not> ns_is_string_leaf (new_state ty)"
  by (simp_all add: new_state_def)

lemma ensure_old: "path \<in> set (keys st) \<Longrightarrow> ensure path ty st = st"
  by (simp add: ensure_def)

lemma map_of_ensure:
  "map_of (ensure path ty st) = (case map_of st path of
     None \<Rightarrow> (map_of st)(path \<mapsto> new_state ty)
   | Some s \<Rightarrow> map_of st)"
proof (cases "path \<in> set (keys st)")
  case True
  then have "map_of st path \<noteq> None" by (simp add: map_of_eq_None_iff)
  with True show ?thesis by (auto simp: ensure_old)
next
  case False
  then have "map_of st path = None" by (simp add: map_of_eq_None_iff)
  with False show ?thesis by (simp add: ensure_def map_of_update)
qed

lemma map_of_modify: "map_of (modify path f st) = (map_of st)(path := map_option f (map_of st path))"
  by (auto simp: modify_def map_of_update fun_eq_iff split: option.splits)

lemma keys_ensure [simp]: "fst ` set (ensure path ty st) = insert path (fst ` set st)"
  by (auto simp: ensure_def keys_update)

lemma keys_modify [simp]: "fst ` set (modify path f st) = fst ` set st"
proof (cases "map_of st path")
  case (Some s)
  then have "path \<in> fst ` set st" by (metis domI dom_map_of_conv_image_fst)
  with Some show ?thesis by (auto simp: modify_def keys_update)
qed (simp add: modify_def)

lemma distinct_ensure: "distinct (keys st) \<Longrightarrow> distinct (keys (ensure path ty st))"
  by (auto simp: ensure_def intro: distinct_keys_update)

lemma distinct_modify: "distinct (keys st) \<Longrightarrow> distinct (keys (modify path f st))"
  by (auto simp: modify_def intro: distinct_keys_update split: option.split)

definition fits :: "json list \<Rightarrow> node_state option \<Rightarrow> bool" where
  "fits vs so \<longleftrightarrow>
     (case so of
        None \<Rightarrow> vs = []
      | Some s \<Rightarrow> vs \<noteq> [] \<and> (ns_nullable s \<longleftrightarrow> JNull \<in> set vs) \<and>
          ns_type s = seen_type vs \<and> ns_example_value s = seen_example vs \<and>
          (ns_is_string_leaf s \<longleftrightarrow> texts_in vs \<noteq> []) \<and>
          (ns_enum_disabled s \<longleftrightarrow> enum_threshold < card (set (texts_in vs))) \<and>
          (\<not> ns_enum_disabled s \<longrightarrow> distinct (ns_enum_values s) \<and> set (ns_enum_values s) = set (texts_in vs)))"

definition tracks :: "states \<Rightarrow> (string \<times> json) list \<Rightarrow> string set \<Rightarrow> bool" where
  "tracks st sg opt \<longleftrightarrow> distinct (keys st) \<and> (\<forall>q. fits (values_at q sg) (map_of st q)) \<and>
     opt \<subseteq> fst ` set st \<and> (\<forall>q s. map_of st q = Some s \<longrightarrow> (ns_required s \<longleftrightarrow> q \<notin> opt))"

lemma scalar_type_proper: "v \<noteq> JNull \<Longrightarrow> scalar_type v \<notin> {''null'', ''mixed''}"
  by (cases v) simp_all

lemma common_type_snoc:
  assumes "t \<notin> {''null'', ''mixed''}" "''null'' \<notin> set ts" "''mixed'' \<notin> set ts"
  shows "common_type (ts @ [t]) =
    (if common_type ts = ''null'' then t else if common_type ts \<noteq> t then ''mixed'' else t)"
  using assms by (cases ts) (auto simp: common_type_def)

lemma scalar_types_proper: "''null'' \<notin> set (scalar_types vs)" "''mixed'' \<notin> set (scalar_types vs)"
proof -
  have "t \<notin> {''null'', ''mixed''}" if "t \<in> set (scalar_types vs)" for t
    using that scalar_type_proper unfolding scalar_types_def by fastforce
  then show "''null'' \<notin> set (scalar_types vs)" "''mixed'' \<notin> set (scalar_types vs)" by blast+
qed

text \<open>How one more value changes what was seen.\<close>

lemma not_scalar: "is_obj v \<or> is_list v \<Longrightarrow> \<not> is_scalar v" "\<not> is_scalar v \<Longrightarrow> v \<noteq> JNull"
  by (auto simp: is_scalar_def is_obj_def is_list_def)

lemma seen_null: "vs \<noteq> [] \<Longrightarrow> seen_type vs = ''null'' \<Longrightarrow> JNull \<in> set vs"
proof -
  assume vs: "vs \<noteq> []" and null: "seen_type vs = ''null''"
  have "is_scalar (hd vs)" using null by (auto simp: seen_type_def Let_def split: if_splits)
  moreover have "scalar_types vs = []"
  proof (rule ccontr)
    assume ne: "scalar_types vs \<noteq> []"
    then have "hd (scalar_types vs) \<noteq> ''null''" using scalar_types_proper(1) [of vs] hd_in_set [OF ne] by metis
    with null calculation ne show False by (simp add: seen_type_def common_type_def Let_def split: if_splits)
  qed
  then have "\<forall>v \<in> set vs. is_scalar v \<longrightarrow> v = JNull" by (auto simp: scalar_types_def filter_empty_conv)
  ultimately show ?thesis using vs hd_in_set by metis
qed

lemma seen_snoc_other:
  assumes "vs \<noteq> []" "\<not> is_scalar v \<or> v = JNull"
  shows "seen_type (vs @ [v]) = seen_type vs" "seen_example (vs @ [v]) = seen_example vs" "texts_in (vs @ [v]) = texts_in vs"
proof -
  have "scalar_types (vs @ [v]) = scalar_types vs" using assms(2) by (auto simp: scalar_types_def)
  then show "seen_type (vs @ [v]) = seen_type vs" using assms(1) by (simp add: seen_type_def)
  show "seen_example (vs @ [v]) = seen_example vs" using assms(2) by (auto simp: seen_example_def)
  show "texts_in (vs @ [v]) = texts_in vs" using assms(2) by (cases v) (auto simp: texts_in_def)
qed

lemma seen_type_snoc:
  assumes "vs \<noteq> []" "is_scalar v" "v \<noteq> JNull"
  shows "seen_type (vs @ [v]) =
    (if seen_type vs = ''null'' then scalar_type v else if seen_type vs \<noteq> scalar_type v then ''mixed'' else scalar_type v)"
proof -
  have ts: "scalar_types (vs @ [v]) = scalar_types vs @ [scalar_type v]" using assms(2,3) by (simp add: scalar_types_def)
  have "scalar_type v \<notin> {''object'', ''array'', ''mixed''}" using assms(2) by (cases v) simp_all
  then show ?thesis
    using common_type_snoc [OF scalar_type_proper [OF assms(3)] scalar_types_proper [of vs]] assms(1) ts
    by (auto simp: seen_type_def Let_def)
qed

lemma truncate_example_JNull [simp]: "truncate_example v = JNull \<longleftrightarrow> v = JNull"
  by (cases v) (simp_all add: truncate_example_def)

lemma seen_example_snoc:
  assumes "is_scalar v" "v \<noteq> JNull"
  shows "seen_example (vs @ [v]) = (if seen_example vs = JNull then truncate_example v else seen_example vs)"
proof (cases "filter (\<lambda>v. is_scalar v \<and> v \<noteq> JNull) vs")
  case Nil
  then show ?thesis using assms by (simp add: seen_example_def)
next
  case (Cons w ws)
  then have "w \<noteq> JNull" using filter_eq_ConsD by fastforce
  with Cons show ?thesis by (simp add: seen_example_def)
qed

lemma texts_in_snoc: "texts_in (vs @ [v]) = texts_in vs @ (case v of JStr x \<Rightarrow> [x] | _ \<Rightarrow> [])"
  by (simp add: texts_in_def)

lemma seen_one:
  "is_scalar v \<Longrightarrow> v \<noteq> JNull \<Longrightarrow> seen_type [v] = scalar_type v" "seen_type [JNull] = ''null''"
  "\<not> is_scalar v \<Longrightarrow> seen_type [v] = (if is_obj v then ''object'' else ''array'')"
  "\<not> is_scalar v \<or> v = JNull \<Longrightarrow> seen_example [v] = JNull" "\<not> is_scalar v \<or> v = JNull \<Longrightarrow> texts_in [v] = []"
  by (simp_all add: seen_type_def scalar_types_def common_type_def)
     (auto simp: seen_example_def, cases v, auto simp: texts_in_def)

lemma fits_old: "fits vs so \<Longrightarrow> is_obj v \<or> is_list v \<Longrightarrow> so \<noteq> None \<Longrightarrow> fits (vs @ [v]) so"
  using not_scalar [of v] by (auto simp: fits_def seen_snoc_other split: option.splits)

lemma merge_fields [simp]:
  "ns_required (merge_type t s) = ns_required s" "ns_example_value (merge_type t s) = ns_example_value s"
  "ns_is_string_leaf (merge_type t s) = ns_is_string_leaf s" "ns_enum_disabled (merge_type t s) = ns_enum_disabled s"
  "ns_enum_values (merge_type t s) = ns_enum_values s"
  "ns_array_item_type (merge_type t s) = ns_array_item_type s"
  by (simp_all add: merge_type_def)

lemma observe_fields [simp]:
  "ns_type (observe_scalar v s) = ns_type (merge_type (scalar_type v) s)"
  "ns_nullable (observe_scalar v s) = ns_nullable (merge_type (scalar_type v) s)"
  "ns_required (observe_scalar v s) = ns_required s"
  "ns_array_item_type (observe_scalar v s) = ns_array_item_type s"
  "ns_example_value (observe_scalar v s) = (if ns_example_value s = JNull then truncate_example v else ns_example_value s)"
  by (simp_all add: observe_scalar_def collect_enum_def keep_example_def merge_type_def Let_def split: json.split)

text \<open>The texts collected are all texts seen, until they are too many.\<close>

definition enum_fits :: "string list \<Rightarrow> node_state \<Rightarrow> bool" where
  "enum_fits xs s \<longleftrightarrow> (ns_is_string_leaf s \<longleftrightarrow> xs \<noteq> []) \<and> (ns_enum_disabled s \<longleftrightarrow> enum_threshold < card (set xs)) \<and>
     (\<not> ns_enum_disabled s \<longrightarrow> distinct (ns_enum_values s) \<and> set (ns_enum_values s) = set xs)"

lemma enum_fits_collect:
  assumes "enum_fits xs s"
  shows "enum_fits (xs @ (case v of JStr x \<Rightarrow> [x] | _ \<Rightarrow> [])) (collect_enum v s)"
proof (cases "\<exists>x. v = JStr x")
  case True
  then obtain x where v: "v = JStr x" by blast
  have more: "card (set xs) \<le> card (insert x (set xs))" by (rule card_mono) auto
  show ?thesis
  proof (cases "ns_enum_disabled s")
    case True
    then show ?thesis using assms more v by (auto simp: enum_fits_def collect_enum_def)
  next
    case False
    then have vs: "distinct (ns_enum_values s)" "set (ns_enum_values s) = set xs" using assms by (auto simp: enum_fits_def)
    then have "length (List.insert x (ns_enum_values s)) = card (insert x (set xs))"
      by (metis distinct_card distinct_insert set_insert)
    then show ?thesis using vs False v by (auto simp: enum_fits_def collect_enum_def Let_def)
  qed
next
  case False
  then show ?thesis using assms by (cases v) (simp_all add: collect_enum_def)
qed

lemma enum_fits_observe:
  "enum_fits xs s \<Longrightarrow> enum_fits (xs @ (case v of JStr x \<Rightarrow> [x] | _ \<Rightarrow> [])) (observe_scalar v s)"
  unfolding observe_scalar_def
  by (rule enum_fits_collect) (simp add: enum_fits_def keep_example_def)

lemma fits_Some:
  "fits vs (Some s) \<longleftrightarrow> vs \<noteq> [] \<and> (ns_nullable s \<longleftrightarrow> JNull \<in> set vs) \<and> ns_type s = seen_type vs \<and>
     ns_example_value s = seen_example vs \<and> enum_fits (texts_in vs) s"
  by (simp add: fits_def enum_fits_def)

lemma fits_observe:
  assumes "fits vs (Some s)" "is_scalar v" "v \<noteq> JNull"
  shows "fits (vs @ [v]) (Some (observe_scalar v s))"
proof -
  have h: "vs \<noteq> []" "ns_nullable s \<longleftrightarrow> JNull \<in> set vs" "ns_type s = seen_type vs" "ns_example_value s = seen_example vs"
    "enum_fits (texts_in vs) s" using assms(1) by (simp_all add: fits_Some)
  have "ns_nullable (merge_type (scalar_type v) s) = ns_nullable s"
    using seen_null [OF h(1)] h(2,3) by (auto simp: merge_type_def)
  moreover have "ns_type (merge_type (scalar_type v) s) = seen_type (vs @ [v])"
    unfolding seen_type_snoc [OF h(1) assms(2,3)] using h(3) by (simp add: merge_type_def)
  ultimately show ?thesis
    using h(1,2) assms(3) enum_fits_observe [OF h(5), of v]
    by (simp add: fits_Some seen_example_snoc [OF assms(2,3)] texts_in_snoc h(4))
qed

lemma fits_observe_new:
  assumes "is_scalar v" "v \<noteq> JNull"
  shows "fits [v] (Some (observe_scalar v (new_state (scalar_type v))))"
proof -
  have "enum_fits [] (new_state (scalar_type v))" by (simp add: enum_fits_def)
  from enum_fits_observe [OF this, of v] show ?thesis
    using assms scalar_type_proper [OF assms(2)] seen_example_snoc [OF assms, of "[]"] texts_in_snoc [of "[]" v]
    by (simp add: fits_Some seen_one merge_type_def) (simp add: seen_example_def texts_in_def)
qed

lemma fits_null: "fits vs (Some s) \<Longrightarrow> fits (vs @ [JNull]) (Some (s\<lparr>ns_nullable := True\<rparr>))"
  by (simp add: fits_Some seen_snoc_other) (simp add: enum_fits_def)

lemma tracks_update:
  assumes "tracks st sg opt" "distinct (keys st')" "map_of st' = (map_of st)(p \<mapsto> s)"
    and "fits (values_at p sg @ [v]) (Some s)"
    and "case map_of st p of None \<Rightarrow> ns_required s | Some s0 \<Rightarrow> ns_required s = ns_required s0"
  shows "tracks st' (sg @ [(p, v)]) opt"
proof -
  have dom: "fst ` set st' = insert p (fst ` set st)"
    using arg_cong [OF assms(3), of dom] by (simp add: dom_map_of_conv_image_fst)
  have "p \<notin> opt" if "map_of st p = None"
    using that assms(1) by (auto simp: tracks_def map_of_eq_None_iff)
  then show ?thesis using assms dom by (auto simp: tracks_def split: option.splits)
qed

lemma tracks_container:
  assumes "tracks st sg opt" "is_obj v \<or> is_list v"
  shows "tracks (ensure p (if is_obj v then ''object'' else ''array'') st) (sg @ [(p, v)]) opt"
proof (cases "map_of st p")
  case None
  moreover have "fits (values_at p sg) (map_of st p)" using assms(1) by (simp add: tracks_def)
  ultimately have "values_at p sg = []" by (simp add: fits_def)
  with None assms show ?thesis
    by (intro tracks_update [OF assms(1)])
       (auto simp: distinct_ensure tracks_def map_of_ensure fits_Some enum_fits_def seen_one is_obj_def is_list_def dest: not_scalar split: json.splits)
next
  case (Some s)
  have "fits (values_at p sg) (Some s)" using assms(1) Some by (metis tracks_def)
  from fits_old [OF this assms(2)] Some assms(1) show ?thesis
    by (intro tracks_update [OF assms(1), where s = s]) (auto simp: distinct_ensure tracks_def map_of_ensure)
qed

lemma tracks_scalar:
  assumes "tracks st sg opt" "is_scalar v"
  shows "tracks (emit_scalar p v st) (sg @ [(p, v)]) opt"
proof -
  have d: "distinct (keys st)" using assms(1) by (simp add: tracks_def)
  have fit: "fits (values_at p sg) (map_of st p)" using assms(1) by (simp add: tracks_def)
  show ?thesis
  proof (cases "map_of st p")
    case None
    then have "values_at p sg = []" using fit by (simp add: fits_def)
    with None d show ?thesis
      by (intro tracks_update [OF assms(1), where s = "the (map_of (emit_scalar p v st) p)"])
         (auto simp: emit_scalar_def distinct_ensure distinct_modify map_of_modify map_of_ensure assms(2)
            fits_observe_new, simp add: fits_Some enum_fits_def seen_one)
  next
    case (Some s)
    with fit have "fits (values_at p sg) (Some s)" by simp
    with Some d show ?thesis
      by (intro tracks_update [OF assms(1), where s = "the (map_of (emit_scalar p v st) p)"])
         (auto simp: emit_scalar_def distinct_ensure distinct_modify map_of_modify map_of_ensure assms(2)
            fits_observe fits_null)
  qed
qed

lemma fits_map_option:
  "(\<And>s. f s = s\<lparr>ns_array_item_type := ns_array_item_type (f s), ns_required := ns_required (f s)\<rparr>) \<Longrightarrow>
     fits vs (map_option f so) = fits vs so"
proof (cases so)
  case (Some s)
  assume "\<And>s. f s = s\<lparr>ns_array_item_type := ns_array_item_type (f s), ns_required := ns_required (f s)\<rparr>"
  then obtain t r where "f s = s\<lparr>ns_array_item_type := t, ns_required := r\<rparr>" by metis
  with Some show ?thesis by (simp add: fits_def)
qed simp

lemma fits_modify:
  assumes "tracks st sg opt" "\<And>s. f s = s\<lparr>ns_array_item_type := ns_array_item_type (f s), ns_required := ns_required (f s)\<rparr>"
  shows "fits (values_at q sg) (map_of (modify p f st) q)"
  using assms(1) fits_map_option [of f, OF assms(2)] by (simp add: map_of_modify tracks_def)

lemma tracks_item_type:
  assumes "tracks st sg opt"
  shows "tracks (modify p (\<lambda>s. s\<lparr>ns_array_item_type := t\<rparr>) st) sg opt"
proof -
  note fit = fits_modify [OF assms, of "\<lambda>s. s\<lparr>ns_array_item_type := t\<rparr>"]
  show ?thesis
    using assms unfolding tracks_def
    by (intro conjI allI fit) (auto simp: distinct_modify map_of_modify split: if_splits)
qed

lemma tracks_optional:
  assumes "tracks st sg opt" "p \<in> fst ` set st"
  shows "tracks (modify p (\<lambda>s. s\<lparr>ns_required := False\<rparr>) st) sg (insert p opt)"
proof -
  note fit = fits_modify [OF assms(1), of "\<lambda>s. s\<lparr>ns_required := False\<rparr>"]
  show ?thesis
    using assms unfolding tracks_def
    by (intro conjI allI fit) (auto simp: distinct_modify map_of_modify split: if_splits)
qed

text \<open>Counting keys.\<close>

lemma map_of_count_key:
  "map_of (count_key k seen) = (map_of seen)(k \<mapsto> Suc (case map_of seen k of None \<Rightarrow> 0 | Some n \<Rightarrow> n))"
  by (simp add: count_key_def map_of_update)

lemma map_of_count_keys:
  "map_of (fold count_key ks seen) k =
     (if k \<in> set ks then Some (count_list ks k + (case map_of seen k of None \<Rightarrow> 0 | Some n \<Rightarrow> n)) else map_of seen k)"
  by (induction ks arbitrary: seen) (auto simp: map_of_count_key split: option.split)

lemma count_list_distinct: "distinct xs \<Longrightarrow> count_list xs k = (if k \<in> set xs then 1 else 0)"
  by (induction xs) auto

lemma keys_seen_concat: "keys_seen data = fold count_key (concat (map (\<lambda>x. keys (fields_of x)) data)) []"
proof -
  have "fold (\<lambda>item seen. fold count_key (keys (fields_of item)) seen) data seen =
      fold count_key (concat (map (\<lambda>x. keys (fields_of x)) data)) seen" for seen
    by (induction data arbitrary: seen) simp_all
  then show ?thesis by (simp add: keys_seen_def)
qed

lemma distinct_keys_seen: "distinct (keys (keys_seen data))"
proof -
  have "distinct (keys seen) \<Longrightarrow> distinct (keys (fold count_key ks seen))" for ks seen
    by (induction ks arbitrary: seen) (auto simp: count_key_def intro: distinct_keys_update)
  from this [of "[]"] show ?thesis by (simp add: keys_seen_concat)
qed

lemma count_keys_items:
  assumes "list_all wf_json data"
  shows "count_list (concat (map (\<lambda>x. keys (fields_of x)) data)) k = length (filter (\<lambda>x. k \<in> set (keys (fields_of x))) data)"
  using assms
proof (induction data)
  case (Cons x data)
  have "distinct (keys (fields_of x))" using Cons.prems by (cases x) simp_all
  then have "count_list (keys (fields_of x)) k = (if k \<in> set (keys (fields_of x)) then 1 else 0)"
    by (rule count_list_distinct)
  with Cons show ?case by (simp add: count_list_append)
qed simp

lemma keys_seen_partial:
  assumes "list_all wf_json data"
  shows "{k. \<exists>n. (k, n) \<in> set (keys_seen data) \<and> n < length data} = set (partial_keys data)"
proof -
  let ?all = "concat (map (\<lambda>x. keys (fields_of x)) data)"
  have "(k, n) \<in> set (keys_seen data) \<longleftrightarrow> map_of (keys_seen data) k = Some n" for k n
    using distinct_keys_seen by simp
  then have "(k, n) \<in> set (keys_seen data) \<longleftrightarrow> k \<in> set ?all \<and> n = length (filter (\<lambda>x. k \<in> set (keys (fields_of x))) data)" for k n
    by (auto simp: keys_seen_concat map_of_count_keys count_keys_items [OF assms])
  moreover have "length (filter P data) < length data \<longleftrightarrow> (\<exists>x \<in> set data. \<not> P x)" for P :: "json \<Rightarrow> bool"
    by (metis filter_True length_filter_less less_irrefl)
  ultimately show ?thesis by (auto simp: partial_keys_def)
qed

lemma tracks_marks:
  assumes "tracks st sg opt" "\<forall>kc \<in> set seen. join_path p (fst kc) \<in> fst ` set st"
  shows "tracks (fold (mark_optional p n) seen st) sg (opt \<union> join_path p ` {k. \<exists>c. (k, c) \<in> set seen \<and> c < n})"
  using assms
proof (induction seen arbitrary: st opt)
  case (Cons kc seen)
  obtain k c where kc: "kc = (k, c)" by (cases kc)
  show ?case
  proof (cases "c < n")
    case True
    have 1: "tracks (mark_optional p n kc st) sg (insert (join_path p k) opt)"
      using tracks_optional [OF Cons.prems(1)] Cons.prems(2) kc True by (simp add: mark_optional_def)
    have "fst ` set (mark_optional p n kc st) = fst ` set st" by (simp add: mark_optional_def)
    with Cons.IH [OF 1] Cons.prems(2)
    have "tracks (fold (mark_optional p n) (kc # seen) st) sg
        (insert (join_path p k) opt \<union> join_path p ` {k. \<exists>c. (k, c) \<in> set seen \<and> c < n})" by simp
    moreover have "insert (join_path p k) opt \<union> join_path p ` {k. \<exists>c. (k, c) \<in> set seen \<and> c < n} =
        opt \<union> join_path p ` {k. \<exists>c. (k, c) \<in> set (kc # seen) \<and> c < n}"
      using kc True by auto
    ultimately show ?thesis by simp
  next
    case False
    then have "{k. \<exists>c. (k, c) \<in> set (kc # seen) \<and> c < n} = {k. \<exists>c. (k, c) \<in> set seen \<and> c < n}"
      using kc by auto
    with Cons False kc show ?thesis by (simp add: mark_optional_def)
  qed
qed simp

text \<open>
  The main induction: a walk appends the sightings of what it walks, and marks what is optional in
  it; paths once created stay.
\<close>

fun walk_sightings :: "string \<Rightarrow> json \<Rightarrow> (string \<times> json) list" where
  "walk_sightings p (JObj kvs) = sight_fields p kvs"
| "walk_sightings p (JList xs) = sightings p (JList xs)"
| "walk_sightings p v = [(if p \<noteq> [] then p else ''[root]'', v)]"

lemma tracks_keys: "tracks st sg opt \<Longrightarrow> fst ` set st = fst ` set sg"
proof -
  assume t: "tracks st sg opt"
  have "q \<in> fst ` set st \<longleftrightarrow> values_at q sg \<noteq> []" for q
    using t by (auto simp: tracks_def fits_def map_of_eq_None_iff dest!: spec [of _ q] split: option.splits)
  moreover have "q \<in> fst ` set sg \<longleftrightarrow> values_at q sg \<noteq> []" for q
    unfolding values_at_def map_is_Nil_conv filter_empty_conv by force
  ultimately show ?thesis by blast
qed

lemma join_array_path [simp]: "array_path p \<noteq> []" "p \<noteq> [] \<Longrightarrow> join_path p k \<noteq> []"
  by (simp_all add: array_path_def join_path_def)

lemma sight_fields_keys: "p \<noteq> [] \<Longrightarrow> k \<in> set (keys kvs) \<Longrightarrow> join_path p k \<in> fst ` set (sight_fields p kvs)"
proof (induction kvs)
  case (Cons kv kvs)
  obtain k' v where kv: "kv = (k', v)" by (cases kv)
  have "join_path p k' \<in> fst ` set (sightings (join_path p k') v)"
    using Cons.prems(1) by (cases v) simp_all
  with Cons kv show ?case by auto
qed simp

lemma sight_rows_keys:
  "p \<noteq> [] \<Longrightarrow> x \<in> set xs \<Longrightarrow> k \<in> set (keys (fields_of x)) \<Longrightarrow> join_path p k \<in> fst ` set (sight_rows p xs)"
proof (induction xs)
  case (Cons y xs)
  then show ?case
    using sight_fields_keys [of p k "fields_of x"] by (cases y) (auto simp: image_Un)
qed simp

lemma keys_seen_keys: "set (keys (keys_seen data)) = set (concat (map (\<lambda>x. keys (fields_of x)) data))"
proof -
  have "fst ` set (fold count_key ks seen) = set ks \<union> fst ` set seen" for ks seen
    by (induction ks arbitrary: seen) (auto simp: count_key_def keys_update)
  from this [of _ "[]"] show ?thesis by (simp add: keys_seen_concat)
qed

lemma walk_tracks:
  "tracks st sg opt \<Longrightarrow> wf_json j \<Longrightarrow> is_obj j \<and> p \<noteq> [] \<longrightarrow> p \<in> fst ` set st \<Longrightarrow>
     tracks (walk j p st) (sg @ walk_sightings p j) (opt \<union> set (optional_at p j))"
  "tracks st sg opt \<Longrightarrow> wf_json j \<Longrightarrow>
     tracks (emit_value p j st) (sg @ sightings p j) (opt \<union> set (optional_at p j))"
  "tracks st sg opt \<Longrightarrow> wf_json (JObj kvs) \<Longrightarrow>
     tracks (emit_fields p kvs st) (sg @ sight_fields p kvs) (opt \<union> set (optional_fields p kvs))"
  "tracks st sg opt \<Longrightarrow> list_all wf_json xs \<Longrightarrow>
     tracks (emit_rows p xs st) (sg @ sight_rows p xs) (opt \<union> set (optional_rows p xs))"
  "tracks st sg opt \<Longrightarrow> list_all wf_json xs \<Longrightarrow>
     tracks (emit_items p xs st) (sg @ sight_items p xs) (opt \<union> set (optional_items p xs))"
proof (induction j p st and p j st and p kvs st and p xs st and p xs st
    arbitrary: sg opt and sg opt and sg opt and sg opt and sg opt
    rule: walk_emit_value_emit_fields_emit_rows_emit_items.induct)
  case (1 kvs p st)
  then have "ensure p ''object'' st = st" if "p \<noteq> []" using that by (simp add: ensure_old is_obj_def)
  with 1 show ?case by auto
next
  case (2 data p st)
  let ?path = "if p \<noteq> [] then p else ''[*]''"
  let ?st1 = "ensure ?path ''array'' st"
  have st1: "tracks ?st1 (sg @ [(?path, JList data)]) opt"
    using tracks_container [OF 2(3), of "JList data" ?path] by (simp add: is_obj_def is_list_def)
  consider "data = []" | "data \<noteq> []" "list_all is_obj data" | "data \<noteq> []" "\<not> list_all is_obj data" by blast
  then show ?case
  proof cases
    case 1
    with tracks_item_type [OF st1, of ?path] show ?thesis by (simp add: partial_keys_def Let_def)
  next
    case objs: 2
    let ?p = "array_path p" and ?st2 = "modify ?path (\<lambda>s. s\<lparr>ns_array_item_type := Some ''object''\<rparr>) ?st1"
    have rows: "tracks (emit_rows ?p data ?st2) (sg @ sightings p (JList data)) (opt \<union> set (optional_rows ?p data))"
      using 2(1) [OF refl refl refl objs, OF tracks_item_type [OF st1]] 2(4) objs by simp
    have wf: "list_all wf_json data" using 2(4) by simp
    note partial = keys_seen_partial [OF wf]
    have "\<forall>kc \<in> set (keys_seen data). join_path ?p (fst kc) \<in> fst ` set (emit_rows ?p data ?st2)"
    proof
      fix kc
      assume "kc \<in> set (keys_seen data)"
      then have "fst kc \<in> set (keys (keys_seen data))" by simp
      then obtain x where "x \<in> set data" "fst kc \<in> set (keys (fields_of x))" unfolding keys_seen_keys by auto
      then show "join_path ?p (fst kc) \<in> fst ` set (emit_rows ?p data ?st2)"
        using sight_rows_keys [OF join_array_path(1)] objs(2) unfolding tracks_keys [OF rows]
        by (simp add: image_Un)
    qed
    from tracks_marks [OF rows this, of "length data"] objs partial show ?thesis
      by (simp add: Un_assoc Let_def)
  next
    case mixed: 3
    from 2(2) [OF refl refl refl mixed st1] 2(4) have
      "tracks (emit_items (array_path p) data ?st1) (sg @ sightings p (JList data)) (opt \<union> set (optional_items (array_path p) data))"
      using mixed by simp
    from tracks_item_type [OF this] mixed show ?thesis by (simp add: Let_def)
  qed
next
  case (4 path kvs st)
  from tracks_container [OF 4(2), of "JObj kvs" path]
  have "tracks (ensure path ''object'' st) (sg @ [(path, JObj kvs)]) opt" by (simp add: is_obj_def)
  from 4(1) [OF this 4(3)] show ?case by simp
next
  case (5 path xs st)
  then show ?case by (simp add: is_obj_def del: walk.simps)
next
  case (8 parent k v kvs st)
  from 8(2) [OF 8(1) [OF 8(3)]] 8(4) show ?case by (simp add: Un_assoc)
next
  case (10 item_path kvs xs st)
  from 10(2) [OF 10(1) [OF 10(3)]] 10(4) show ?case by (simp add: Un_assoc)
next
  case (13 item_path x xs st)
  from 13(2) [OF 13(1) [OF 13(3)]] 13(4) show ?case by (simp add: Un_assoc)
qed (auto simp: Un_assoc intro: tracks_scalar)

section \<open>The item types of lists\<close>

definition items_track :: "string set \<Rightarrow> states \<Rightarrow> (string \<times> string) list \<Rightarrow> bool" where
  "items_track K st its \<longleftrightarrow> K \<union> fst ` set its \<subseteq> fst ` set st \<and>
     (\<forall>q s. map_of st q = Some s \<longrightarrow> ns_array_item_type s = item_types_at q its)"

lemma item_types_at_simps [simp]:
  "item_types_at q [] = None" "item_types_at q (its @ [(p, t)]) = (if p = q then Some t else item_types_at q its)"
  by (simp_all add: item_types_at_def Let_def)

lemma item_types_at_None: "q \<notin> fst ` set its \<Longrightarrow> item_types_at q its = None"
  unfolding item_types_at_def Let_def map_is_Nil_conv filter_empty_conv by force

lemma items_ensure: "items_track K st its \<Longrightarrow> items_track (insert p K) (ensure p ty st) its"
proof -
  assume st: "items_track K st its"
  have "item_types_at p its = None" if "map_of st p = None"
    using that st by (intro item_types_at_None) (auto simp: items_track_def map_of_eq_None_iff)
  with st show ?thesis by (auto simp: items_track_def map_of_ensure split: option.splits if_splits)
qed

lemma items_weaken: "items_track K st its \<Longrightarrow> L \<subseteq> K \<Longrightarrow> items_track L st its"
  by (auto simp: items_track_def)

lemma items_ensure': "items_track K st its \<Longrightarrow> items_track K (ensure p ty st) its"
  by (rule items_weaken [OF items_ensure]) auto

lemma items_modify:
  "items_track K st its \<Longrightarrow> (\<And>s. ns_array_item_type (f s) = ns_array_item_type s) \<Longrightarrow> items_track K (modify p f st) its"
  by (auto simp: items_track_def map_of_modify split: if_splits)

lemma items_set: "items_track K st its \<Longrightarrow> p \<in> K \<Longrightarrow>
    items_track K (modify p (\<lambda>s. s\<lparr>ns_array_item_type := Some t\<rparr>) st) (its @ [(p, t)])"
  by (auto simp: items_track_def map_of_modify split: if_splits)

lemma items_scalar: "items_track K st its \<Longrightarrow> items_track K (emit_scalar p v st) its"
  unfolding emit_scalar_def
  by (auto intro!: items_modify items_ensure')

lemma items_marks: "items_track K st its \<Longrightarrow> items_track K (fold (mark_optional p n) seen st) its"
proof (induction seen arbitrary: st)
  case (Cons kc seen)
  have "items_track K (mark_optional p n kc st) its"
    using items_modify [OF Cons.prems, of "\<lambda>s. s\<lparr>ns_required := False\<rparr>"] Cons.prems by (simp add: mark_optional_def)
  with Cons.IH show ?case by simp
qed simp

lemma walk_items:
  "items_track K st its \<Longrightarrow> items_track K (walk j p st) (its @ item_types p j)"
  "items_track K st its \<Longrightarrow> items_track K (emit_value p j st) (its @ item_types p j)"
  "items_track K st its \<Longrightarrow> items_track K (emit_fields p kvs st) (its @ item_types_fields p kvs)"
  "items_track K st its \<Longrightarrow> items_track K (emit_rows p xs st) (its @ item_types_rows p xs)"
  "items_track K st its \<Longrightarrow> items_track K (emit_items p xs st) (its @ item_types_items p xs)"
proof (induction j p st and p j st and p kvs st and p xs st and p xs st
    arbitrary: K its and K its and K its and K its and K its
    rule: walk_emit_value_emit_fields_emit_rows_emit_items.induct)
  case (1 kvs p st)
  then show ?case by (simp add: items_ensure')
next
  case (2 data p st)
  let ?path = "if p \<noteq> [] then p else ''[*]''"
  have st1: "items_track (insert ?path K) (ensure ?path ''array'' st) its" by (rule items_ensure [OF 2(3)])
  have drop: "items_track K st' its'" if "items_track (insert ?path K) st' its'" for st' its'
    using that by (rule items_weaken) blast
  consider "data = []" | "data \<noteq> []" "list_all is_obj data" | "data \<noteq> []" "\<not> list_all is_obj data" by blast
  then show ?case
  proof cases
    case 1
    with drop [OF items_set [OF st1, of ?path "''unknown''"]] show ?thesis by (simp add: Let_def)
  next
    case objs: 2
    from items_marks [OF 2(1) [OF refl refl refl objs items_set [OF st1, of ?path "''object''"]]] drop objs
    show ?thesis by (simp add: Let_def)
  next
    case mixed: 3
    from drop [OF items_set [OF 2(2) [OF refl refl refl mixed st1], of ?path]] mixed show ?thesis by (simp add: Let_def)
  qed
next
  case (4 path kvs st)
  then show ?case using items_ensure' by auto
next
  case (8 parent k v kvs st)
  from 8(2) [OF 8(1) [OF 8(3)]] show ?case by simp
next
  case (10 item_path kvs xs st)
  from 10(2) [OF 10(1) [OF 10(3)]] show ?case by simp
next
  case (13 item_path x xs st)
  from 13(2) [OF 13(1) [OF 13(3)]] show ?case by simp
qed (auto intro: items_scalar simp del: walk.simps(1,2))

section \<open>Properties of the inferred schema\<close>

lemma walk_document:
  assumes "wf_json j"
  shows "tracks (walk j [] []) (document_sightings j) (set (optional_at [] j))"
proof -
  have "tracks [] [] {}" by (simp add: tracks_def fits_def)
  from walk_tracks(1) [OF this assms, of "[]"] have "tracks (walk j [] []) (walk_sightings [] j) (set (optional_at [] j))"
    by simp
  moreover have "walk_sightings [] j = document_sightings j" by (cases j) simp_all
  ultimately show ?thesis by simp
qed

lemma infer_paths: "map nd_path (infer_schema j) = sort (keys (walk j [] []))"
proof -
  have "map nd_path (infer_schema j) = sort (map nd_path (map finalize (walk j [] [])))"
    unfolding infer_schema_def by (rule properties_for_sort [symmetric]) (simp_all add: multiset.map_comp)
  also have "map nd_path (map finalize (walk j [] [])) = keys (walk j [] [])"
    by (simp add: finalize_def Let_def comp_def)
  finally show ?thesis .
qed

lemma infer_node:
  assumes "n \<in> set (infer_schema j)" "distinct (keys (walk j [] []))"
  obtains s where "map_of (walk j [] []) (nd_path n) = Some s" "n = finalize (nd_path n, s)"
proof -
  obtain p s where "(p, s) \<in> set (walk j [] [])" "n = finalize (p, s)"
    using assms(1) by (auto simp: infer_schema_def)
  with assms(2) that show ?thesis by (auto simp: finalize_def Let_def)
qed

lemma finalize_enum:
  assumes "fits vs (Some s)"
  shows "nd_enum_values (finalize (p, s)) = seen_enum vs"
proof -
  have e: "enum_fits (texts_in vs) s" using assms by (simp add: fits_Some)
  have len: "length (sorted_set (texts_in vs)) = card (set (texts_in vs))" by (metis distinct_card distinct_sorted_set set_sorted_set)
  show ?thesis
  proof (cases "ns_enum_disabled s")
    case True
    then show ?thesis using e len by (simp add: finalize_def seen_enum_def enum_fits_def)
  next
    case False
    then have vs: "distinct (ns_enum_values s)" "set (ns_enum_values s) = set (texts_in vs)" using e by (simp_all add: enum_fits_def)
    then have "sort (ns_enum_values s) = sorted_set (texts_in vs)"
      by (intro sorted_distinct_set_unique) simp_all
    moreover have "ns_enum_values s = [] \<longleftrightarrow> texts_in vs = []" using vs(2) by (metis set_empty)
    ultimately show ?thesis using e False len by (auto simp: finalize_def seen_enum_def enum_fits_def Let_def)
  qed
qed

text \<open>
  C10. The inferred schema has one node for every path at which the document shows a value, sorted by
  path. A node is nullable exactly when null is shown at its path, and required unless some but not
  all dictionaries of a list have it. Its type is the one type of the scalars shown there that are
  not null, or \<open>mixed\<close>, when a scalar or null came first; after a container it is \<open>object\<close> or \<open>array\<close>
  until a scalar makes it \<open>mixed\<close>. Its example is the first scalar shown, cut to the limit, its
  enumeration the sorted texts shown, unless there are none or more than the threshold, and its item
  type the one of the list at the path that was finished last.
\<close>

theorem infer_schema_describes_document:
  assumes "wf_json j"
  shows "map nd_path (infer_schema j) = sorted_set (keys (document_sightings j)) \<and>
    (\<forall>n \<in> set (infer_schema j).
       let vs = values_at (nd_path n) (document_sightings j) in
       (nd_nullable n \<longleftrightarrow> JNull \<in> set vs) \<and> (nd_required n \<longleftrightarrow> nd_path n \<notin> set (optional_at [] j)) \<and>
       nd_type n = seen_type vs \<and> nd_example_value n = seen_example vs \<and> nd_enum_values n = seen_enum vs \<and>
       nd_array_item_type n = item_types_at (nd_path n) (item_types [] j))"
proof
  note t = walk_document [OF assms]
  have d: "distinct (keys (walk j [] []))" using t by (simp add: tracks_def)
  show "map nd_path (infer_schema j) = sorted_set (keys (document_sightings j))"
    unfolding infer_paths using d tracks_keys [OF t]
    by (intro sorted_distinct_set_unique) simp_all
  have items: "items_track {} (walk j [] []) ([] @ item_types [] j)" by (rule walk_items) (simp add: items_track_def)
  show "\<forall>n \<in> set (infer_schema j).
       let vs = values_at (nd_path n) (document_sightings j) in
       (nd_nullable n \<longleftrightarrow> JNull \<in> set vs) \<and> (nd_required n \<longleftrightarrow> nd_path n \<notin> set (optional_at [] j)) \<and>
       nd_type n = seen_type vs \<and> nd_example_value n = seen_example vs \<and> nd_enum_values n = seen_enum vs \<and>
       nd_array_item_type n = item_types_at (nd_path n) (item_types [] j)"
  proof
    fix n
    assume "n \<in> set (infer_schema j)"
    then obtain s where s: "map_of (walk j [] []) (nd_path n) = Some s" and n: "n = finalize (nd_path n, s)"
      by (rule infer_node [OF _ d])
    let ?vs = "values_at (nd_path n) (document_sightings j)"
    have fields: "nd_nullable n = ns_nullable s" "nd_required n = ns_required s" "nd_type n = ns_type s"
      "nd_example_value n = ns_example_value s" "nd_array_item_type n = ns_array_item_type s"
      by (subst n, simp add: finalize_def Let_def)+
    have fits: "fits ?vs (Some s)" and req: "ns_required s \<longleftrightarrow> nd_path n \<notin> set (optional_at [] j)"
      using t s by (auto simp: tracks_def dest: spec [of _ "nd_path n"])
    have "nd_enum_values n = seen_enum ?vs" by (subst n) (rule finalize_enum [OF fits])
    moreover have "ns_array_item_type s = item_types_at (nd_path n) (item_types [] j)"
      using items s by (simp add: items_track_def)
    ultimately show "let vs = ?vs in
       (nd_nullable n \<longleftrightarrow> JNull \<in> set vs) \<and> (nd_required n \<longleftrightarrow> nd_path n \<notin> set (optional_at [] j)) \<and>
       nd_type n = seen_type vs \<and> nd_example_value n = seen_example vs \<and> nd_enum_values n = seen_enum vs \<and>
       nd_array_item_type n = item_types_at (nd_path n) (item_types [] j)"
      unfolding Let_def fields using fits req by (simp add: fits_Some)
  qed
qed

definition example_document :: json where
  "example_document = JObj [(''users'', JList [JObj [(''id'', JInt 1), (''name'', JStr ''a'')], JObj [(''id'', JNull)]])]"

theorem infer_schema_describes_document_witness:
  "map nd_path (infer_schema example_document) = [''users'', ''users[*].id'', ''users[*].name''] \<and>
   map nd_required (infer_schema example_document) = [True, True, False]"
proof -
  have "wf_json example_document" by code_simp
  from conjunct1 [OF infer_schema_describes_document [OF this]]
  have "map nd_path (infer_schema example_document) = sorted_set (keys (document_sightings example_document))" .
  moreover have "sorted_set (keys (document_sightings example_document)) = [''users'', ''users[*].id'', ''users[*].name'']"
    by code_simp
  moreover have "map nd_required (infer_schema example_document) = [True, True, False]" by code_simp
  ultimately show ?thesis by simp
qed

subsection \<open>Nodes are well formed\<close>

definition json_types :: "string list" where
  "json_types = [''object'', ''array'', ''string'', ''integer'', ''number'', ''boolean'', ''null'', ''mixed'', ''unknown'']"

definition state_ok :: "node_state \<Rightarrow> bool" where
  "state_ok s \<longleftrightarrow> ns_type s \<in> set json_types \<and> set_option (ns_array_item_type s) \<subseteq> set json_types \<and>
     distinct (ns_enum_values s) \<and> length (ns_enum_values s) \<le> enum_threshold \<and>
     is_scalar (ns_example_value s) \<and> (\<forall>x. ns_example_value s = JStr x \<longrightarrow> length x \<le> example_max_len)"

definition states_ok :: "states \<Rightarrow> bool" where
  "states_ok st \<longleftrightarrow> distinct (keys st) \<and> (\<forall>p s. (p, s) \<in> set st \<longrightarrow> state_ok s)"

lemma set_update_subset: "(p, s) \<in> set (AList.update q t d) \<Longrightarrow> (p, s) = (q, t) \<or> (p, s) \<in> set d"
  by (induction d) (auto split: if_splits)

lemma state_ok_new: "ty \<in> set json_types \<Longrightarrow> state_ok (new_state ty)"
  by (simp add: state_ok_def)

lemma states_ok_ensure: "states_ok st \<Longrightarrow> ty \<in> set json_types \<Longrightarrow> states_ok (ensure p ty st)"
  unfolding states_ok_def
  by (intro conjI distinct_ensure) (auto simp: ensure_def state_ok_new dest!: set_update_subset split: if_splits)

lemma states_ok_modify: "states_ok st \<Longrightarrow> (\<And>s. state_ok s \<Longrightarrow> state_ok (f s)) \<Longrightarrow> states_ok (modify p f st)"
  unfolding states_ok_def
  by (intro conjI distinct_modify)
    (auto simp: modify_def dest!: set_update_subset dest: map_of_SomeD split: option.splits)

lemma scalar_type_json: "scalar_type v \<in> set json_types" "item_type_of data \<in> set json_types"
proof -
  show s: "scalar_type v \<in> set json_types" for v by (cases v) (simp_all add: json_types_def)
  have "hd (remdups (filter (\<lambda>t. t \<noteq> ''null'') (map scalar_type data))) \<in> set json_types"
    if "remdups (filter (\<lambda>t. t \<noteq> ''null'') (map scalar_type data)) \<noteq> []"
    using hd_in_set [OF that] s by auto
  then show "item_type_of data \<in> set json_types"
    unfolding item_type_of_def Let_def by (simp add: json_types_def)
qed

lemma state_ok_observe:
  assumes "state_ok s" "is_scalar v"
  shows "state_ok (observe_scalar v s)"
proof -
  have m: "state_ok (merge_type (scalar_type v) s)"
    using assms scalar_type_json(1) [of v] by (auto simp: state_ok_def merge_type_def json_types_def)
  have k: "state_ok (keep_example v s')" if "state_ok s'" for s'
    using that assms(2) by (cases v) (auto simp: state_ok_def keep_example_def truncate_example_def)
  have c: "state_ok (collect_enum v s')" if "state_ok s'" for s'
    using that by (cases v) (auto simp: state_ok_def collect_enum_def Let_def)
  show ?thesis unfolding observe_scalar_def by (intro c k m)
qed

lemma states_ok_scalar: "states_ok st \<Longrightarrow> is_scalar v \<Longrightarrow> states_ok (emit_scalar p v st)"
  unfolding emit_scalar_def
  by (auto intro!: states_ok_modify states_ok_ensure state_ok_observe scalar_type_json)
    (auto simp: state_ok_def json_types_def)

lemma states_ok_item: "states_ok st \<Longrightarrow> t \<in> set json_types \<Longrightarrow> states_ok (modify p (\<lambda>s. s\<lparr>ns_array_item_type := Some t\<rparr>) st)"
  by (rule states_ok_modify) (auto simp: state_ok_def)

lemma states_ok_marks: "states_ok st \<Longrightarrow> states_ok (fold (mark_optional p n) seen st)"
proof (induction seen arbitrary: st)
  case (Cons kc seen)
  have "states_ok (mark_optional p n kc st)"
    using Cons.prems by (auto simp: mark_optional_def state_ok_def intro: states_ok_modify)
  with Cons.IH show ?case by simp
qed simp

lemma states_ok_walk:
  "states_ok st \<Longrightarrow> states_ok (walk j p st)"
  "states_ok st \<Longrightarrow> states_ok (emit_value p j st)"
  "states_ok st \<Longrightarrow> states_ok (emit_fields p kvs st)"
  "states_ok st \<Longrightarrow> states_ok (emit_rows p xs st)"
  "states_ok st \<Longrightarrow> states_ok (emit_items p xs st)"
proof (induction j p st and p j st and p kvs st and p xs st and p xs st
    rule: walk_emit_value_emit_fields_emit_rows_emit_items.induct)
  case (1 kvs p st)
  then show ?case by (simp add: states_ok_ensure json_types_def)
next
  case (2 data p st)
  have st1: "states_ok (ensure q ''array'' st)" for q
    using 2(3) by (rule states_ok_ensure) (simp add: json_types_def)
  have ty: "''unknown'' \<in> set json_types" "''object'' \<in> set json_types" by (simp_all add: json_types_def)
  show ?case
    using 2(1) [OF refl refl refl _ _ states_ok_item [OF st1 ty(2)]] 2(2) [OF refl refl refl _ _ st1]
    by (auto simp: Let_def intro!: states_ok_item [OF st1 ty(1)] states_ok_marks states_ok_item scalar_type_json)
next
  case (4 p kvs st)
  then show ?case by (simp add: states_ok_ensure json_types_def)
qed (auto intro: states_ok_scalar)

definition node_ok :: "SchemaNode \<Rightarrow> bool" where
  "node_ok n \<longleftrightarrow>
     nd_type n \<in> set json_types \<and>
     (case nd_array_item_type n of None \<Rightarrow> True | Some t \<Rightarrow> t \<in> set json_types) \<and>
     (case nd_enum_values n of None \<Rightarrow> True
      | Some es \<Rightarrow> es \<noteq> [] \<and> sorted es \<and> distinct es \<and> length es \<le> enum_threshold) \<and>
     (case nd_example_value n of JStr x \<Rightarrow> length x \<le> example_max_len | v \<Rightarrow> is_scalar v)"

lemma node_ok_finalize: "state_ok s \<Longrightarrow> node_ok (finalize (p, s))"
proof -
  assume ok: "state_ok s"
  have "sort (ns_enum_values s) = [] \<longleftrightarrow> ns_enum_values s = []" by (metis set_empty set_sort)
  moreover have "case ns_array_item_type s of None \<Rightarrow> True | Some t \<Rightarrow> t \<in> set json_types"
    using ok by (auto simp: state_ok_def split: option.split)
  moreover have "case ns_example_value s of JStr x \<Rightarrow> length x \<le> example_max_len | v \<Rightarrow> is_scalar v"
    using ok by (cases "ns_example_value s") (simp_all add: state_ok_def)
  ultimately show ?thesis using ok by (simp add: node_ok_def state_ok_def finalize_def Let_def)
qed

text \<open>
  C40. Every inferred schema is well formed, whatever the document. The type and item type of a node are
  among the nine of \<open>JsonType\<close>; an enumeration is not empty, sorted, without repetitions and no
  longer than the threshold; an example is a scalar, and a text example no longer than the limit. The
  nodes are sorted by their paths, which are distinct.
\<close>

theorem infer_schema_well_formed:
  "list_all node_ok (infer_schema j) \<and> sorted (map nd_path (infer_schema j)) \<and> distinct (map nd_path (infer_schema j))"
proof -
  have ok: "states_ok (walk j [] [])" by (rule states_ok_walk) (simp add: states_ok_def)
  then have "list_all node_ok (infer_schema j)"
    by (auto simp: list_all_iff infer_schema_def states_ok_def intro: node_ok_finalize)
  moreover have "sorted (map nd_path (infer_schema j))" by (simp add: infer_paths)
  moreover have "distinct (map nd_path (infer_schema j))" using ok by (simp add: infer_paths states_ok_def)
  ultimately show ?thesis by blast
qed

subsection \<open>Order of list items\<close>

text \<open>
  Once a path has shown an object its type depends on the order of the items: a list of an item
  with a scalar at key \<open>k\<close> and one with an empty object there gives the path the scalar's type, the
  same two items in the other order give it \<open>mixed\<close>.
\<close>

theorem item_order_changes_type:
  assumes "is_scalar v" "v \<noteq> JNull"
  shows "map (\<lambda>n. (nd_path n, nd_type n)) (infer_schema (JList [JObj [(k, v)], JObj [(k, JObj [])]])) =
      [(''[*]'', ''array''), (''[*].'' @ k, scalar_type v)] \<and>
    map (\<lambda>n. (nd_path n, nd_type n)) (infer_schema (JList [JObj [(k, JObj [])], JObj [(k, v)]])) =
      [(''[*]'', ''array''), (''[*].'' @ k, ''mixed'')]"
proof -
  let ?q = "''[*].'' @ k"
  have em: "emit_value p v st = emit_scalar p v st" for p st
    using assms(1) by (cases v) simp_all
  have ty: "scalar_type v \<noteq> ''object''" "scalar_type v \<noteq> ''null''"
    using assms by (cases v; simp)+
  have path: "array_path [] = ''[*]''" "join_path ''[*]'' k = ?q" "?q \<noteq> ''[*]''" "''[*]'' \<noteq> ?q" "''[*]'' \<le> ?q"
    by (simp_all add: array_path_def join_path_def)
  let ?a = "(new_state ''array'')\<lparr>ns_array_item_type := Some ''object''\<rparr>"
  have start: "modify ''[*]'' (\<lambda>s. s\<lparr>ns_array_item_type := Some ''object''\<rparr>) (ensure ''[*]'' ''array'' []) = [(''[*]'', ?a)]"
    by (simp add: modify_def ensure_def)
  have seen: "keys_seen [JObj [(k, x)], JObj [(k, y)]] = [(k, 2)]" for x y
    by (simp add: keys_seen_def count_key_def)
  have walk: "walk (JList [JObj [(k, x)], JObj [(k, y)]]) [] [] =
      emit_value ?q y (emit_value ?q x [(''[*]'', ?a)])" for x y
    using start by (simp add: Let_def is_obj_def seen mark_optional_def path)
  have sort: "map (\<lambda>n. (nd_path n, nd_type n)) (sort_key nd_path (map finalize [(''[*]'', ?a), (?q, s)])) =
      [(''[*]'', ''array''), (?q, ns_type s)]" for s
    using path(5) by (simp add: finalize_def Let_def)
  have one: "emit_value ?q (JObj []) (emit_value ?q v [(''[*]'', ?a)]) = [(''[*]'', ?a), (?q, observe_scalar v (new_state (scalar_type v)))]"
    using path(3,4) assms(2) by (simp add: em emit_scalar_def ensure_def modify_def)
  have two: "emit_value ?q v (emit_value ?q (JObj []) [(''[*]'', ?a)]) = [(''[*]'', ?a), (?q, observe_scalar v (new_state ''object''))]"
    using path(3,4) assms(2) by (simp add: em emit_scalar_def ensure_def modify_def)
  show ?thesis
    unfolding infer_schema_def walk one two sort using ty by (auto simp: merge_type_def)
qed

theorem item_order_changes_type_witness:
  "map (\<lambda>n. (nd_path n, nd_type n)) (infer_schema (JList [JObj [(''a'', JInt 1)], JObj [(''a'', JObj [])]])) =
     [(''[*]'', ''array''), (''[*].a'', ''integer'')] \<and>
   map (\<lambda>n. (nd_path n, nd_type n)) (infer_schema (JList [JObj [(''a'', JObj [])], JObj [(''a'', JInt 1)]])) =
     [(''[*]'', ''array''), (''[*].a'', ''mixed'')]"
  using item_order_changes_type [of "JInt 1" "''a''"] by simp

end
