(* ===== verification/Schema_Diff.thy ===== *)
theory Schema_Diff
  imports Keyed_Diff Schema_Infer
begin

text \<open>
  \<open>backend/app/core/severity.py\<close> and \<open>backend/app/core/schema_diff.py\<close>: the comparison of two
  inferred schemas, one diff per path that was removed, added or changed, with a severity from a
  fixed table and a message. An instance of the diff contract.
\<close>

section \<open>Severities\<close>

definition severity_table :: "(string \<times> string) list" where
  "severity_table =
     [(''removed_field'', ''breaking''), (''added_field'', ''safe''), (''type_changed'', ''breaking''),
      (''int_to_number'', ''risky''), (''number_to_int'', ''breaking''), (''nullable_added'', ''risky''),
      (''nullable_removed'', ''safe''), (''enum_expanded'', ''risky''), (''enum_narrowed'', ''safe''),
      (''enum_changed'', ''risky''), (''nested_object_removed'', ''breaking''),
      (''array_item_type_changed'', ''breaking'')]"

definition classify :: "string \<Rightarrow> py_exc + string" where
  "classify change_type =
     (case map_of severity_table change_type of
        None \<Rightarrow> Inl (ValueError (''unknown change_type: '' @ change_type))
      | Some s \<Rightarrow> Inr s)"

section \<open>Messages\<close>

record msg_args =
  ma_old_type :: "string option"
  ma_new_type :: "string option"
  ma_added :: "string list"
  ma_removed :: "string list"

definition no_args :: msg_args where
  "no_args = \<lparr>ma_old_type = None, ma_new_type = None, ma_added = [], ma_removed = []\<rparr>"

definition show_type :: "string option \<Rightarrow> string" where
  "show_type t = (case t of None \<Rightarrow> ''None'' | Some s \<Rightarrow> s)"

definition show_texts :: "string list \<Rightarrow> string" where
  "show_texts xs = py_repr (JList (map JStr (sort xs)))"

definition templates :: "string \<Rightarrow> msg_args \<Rightarrow> (string \<times> string) list" where
  "templates path a =
     [(''removed_field'', ''Field '' @ path @ '' was removed from the response schema.''),
      (''added_field'', ''Field '' @ path @ '' was added to the response schema.''),
      (''type_changed'', ''Field '' @ path @ '' type changed from '' @ show_type (ma_old_type a) @ '' to '' @
         show_type (ma_new_type a) @ ''.''),
      (''int_to_number'', ''Field '' @ path @
         '' type widened from integer to number (consumers may receive floating-point values).''),
      (''number_to_int'', ''Field '' @ path @
         '' type narrowed from number to integer (decimal values no longer returned).''),
      (''nullable_added'', ''Field '' @ path @ '' is now nullable (consumers may receive null).''),
      (''nullable_removed'', ''Field '' @ path @ '' is no longer nullable (null values no longer returned).''),
      (''enum_expanded'', ''Field '' @ path @ '' enum expanded; new values: '' @ show_texts (ma_added a) @ ''.''),
      (''enum_narrowed'', ''Field '' @ path @ '' enum narrowed; removed values: '' @ show_texts (ma_removed a) @ ''.''),
      (''enum_changed'', ''Field '' @ path @ '' enum values changed; added: '' @ show_texts (ma_added a) @
         '', removed: '' @ show_texts (ma_removed a) @ ''.''),
      (''nested_object_removed'', ''Nested object '' @ path @ '' was removed.''),
      (''array_item_type_changed'', ''Array '' @ path @ '' item type changed from '' @ show_type (ma_old_type a) @
         '' to '' @ show_type (ma_new_type a) @ ''.'')]"

definition message :: "string \<Rightarrow> string \<Rightarrow> msg_args \<Rightarrow> py_exc + string" where
  "message change_type path a =
     (case map_of (templates path a) change_type of
        None \<Rightarrow> Inl (KeyError change_type)
      | Some m \<Rightarrow> Inr m)"

section \<open>Comparing two nodes\<close>

definition pick_change_type :: "SchemaNode \<Rightarrow> SchemaNode \<Rightarrow> string option" where
  "pick_change_type old new =
     (if nd_type old \<noteq> nd_type new then
        if nd_type old = ''integer'' \<and> nd_type new = ''number'' then Some ''int_to_number''
        else if nd_type old = ''number'' \<and> nd_type new = ''integer'' then Some ''number_to_int''
        else Some ''type_changed''
      else if nd_nullable old \<noteq> nd_nullable new then
        Some (if nd_nullable new then ''nullable_added'' else ''nullable_removed'')
      else
        case (case (nd_enum_values old, nd_enum_values new) of
                (Some os, Some ns) \<Rightarrow>
                  if set os \<noteq> set ns then
                    if set os \<subseteq> set ns then Some ''enum_expanded''
                    else if set ns \<subseteq> set os then Some ''enum_narrowed''
                    else Some ''enum_changed''
                  else None
              | _ \<Rightarrow> None) of
          Some change_type \<Rightarrow> Some change_type
        | None \<Rightarrow>
            if nd_type old = ''array'' \<and> nd_type new = ''array'' \<and> nd_array_item_type old \<noteq> nd_array_item_type new
            then Some ''array_item_type_changed'' else None)"

section \<open>Comparing two schemas\<close>

record Diff =
  df_severity :: string
  df_change_type :: string
  df_path :: string
  df_old_type :: "string option"
  df_new_type :: "string option"
  df_old_value :: json
  df_new_value :: json
  df_message :: string

definition make_diff ::
  "string \<Rightarrow> string \<Rightarrow> string option \<Rightarrow> string option \<Rightarrow> json \<Rightarrow> json \<Rightarrow> msg_args \<Rightarrow> py_exc + Diff" where
  "make_diff change_type path old_type new_type old_value new_value a =
     (case classify change_type of
        Inl e \<Rightarrow> Inl e
      | Inr sev \<Rightarrow>
          (case message change_type path a of
             Inl e \<Rightarrow> Inl e
           | Inr m \<Rightarrow> Inr \<lparr>df_severity = sev, df_change_type = change_type, df_path = path, df_old_type = old_type,
               df_new_type = new_type, df_old_value = old_value, df_new_value = new_value, df_message = m\<rparr>))"

definition by_path :: "SchemaNode list \<Rightarrow> SchemaNode dict" where
  "by_path nodes = dict_update [] (map (\<lambda>n. (nd_path n, n)) nodes)"

definition node_at :: "SchemaNode dict \<Rightarrow> string \<Rightarrow> SchemaNode" where
  "node_at d path = the (map_of d path)"

definition removed_diff :: "SchemaNode dict \<Rightarrow> string \<Rightarrow> py_exc + Diff" where
  "removed_diff old_by_path path =
     (let node = node_at old_by_path path in
      make_diff (if nd_type node = ''object'' then ''nested_object_removed'' else ''removed_field'') path
        (Some (nd_type node)) None JNull JNull no_args)"

definition added_diff :: "SchemaNode dict \<Rightarrow> string \<Rightarrow> py_exc + Diff" where
  "added_diff new_by_path path =
     make_diff ''added_field'' path None (Some (nd_type (node_at new_by_path path))) JNull JNull no_args"

definition enum_or_empty :: "SchemaNode \<Rightarrow> string list" where
  "enum_or_empty n = (case nd_enum_values n of None \<Rightarrow> [] | Some es \<Rightarrow> es)"

definition change_args :: "string \<Rightarrow> SchemaNode \<Rightarrow> SchemaNode \<Rightarrow> msg_args" where
  "change_args change_type old new =
     (let added = filter (\<lambda>e. e \<notin> set (enum_or_empty old)) (remdups (enum_or_empty new));
          removed = filter (\<lambda>e. e \<notin> set (enum_or_empty new)) (remdups (enum_or_empty old));
          items = (change_type = ''array_item_type_changed'') in
      \<lparr>ma_old_type = (if items then nd_array_item_type old else Some (nd_type old)),
       ma_new_type = (if items then nd_array_item_type new else Some (nd_type new)),
       ma_added = (if change_type = ''enum_expanded'' \<or> change_type = ''enum_changed'' then added else []),
       ma_removed = (if change_type = ''enum_narrowed'' \<or> change_type = ''enum_changed'' then removed else [])\<rparr>)"

definition changed_diff :: "SchemaNode dict \<Rightarrow> SchemaNode dict \<Rightarrow> string \<Rightarrow> py_exc + Diff list" where
  "changed_diff old_by_path new_by_path path =
     (let old = node_at old_by_path path; new = node_at new_by_path path in
      case pick_change_type old new of
        None \<Rightarrow> Inr []
      | Some change_type \<Rightarrow>
          map_sum id (\<lambda>d. [d])
            (make_diff change_type path (Some (nd_type old)) (Some (nd_type new)) (nd_example_value old)
              (nd_example_value new) (change_args change_type old new)))"

definition diff_schemas :: "SchemaNode list \<Rightarrow> SchemaNode list \<Rightarrow> py_exc + Diff list" where
  "diff_schemas old new =
     (let o1 = by_path old; n1 = by_path new in
      case map_exc (removed_diff o1) (sorted_set (filter (\<lambda>p. p \<notin> set (keys n1)) (keys o1))) of
        Inl e \<Rightarrow> Inl e
      | Inr removed \<Rightarrow>
          (case map_exc (added_diff n1) (sorted_set (filter (\<lambda>p. p \<notin> set (keys o1)) (keys n1))) of
             Inl e \<Rightarrow> Inl e
           | Inr added \<Rightarrow>
               (case map_exc (changed_diff o1 n1) (sorted_set (filter (\<lambda>p. p \<in> set (keys n1)) (keys o1))) of
                  Inl e \<Rightarrow> Inl e
                | Inr changed \<Rightarrow> Inr (removed @ added @ concat changed))))"

section \<open>The report, path by path\<close>

lemma make_diff_known:
  assumes "change_type \<in> set (keys severity_table)"
  shows "make_diff change_type path ot nt ov nv a =
    Inr \<lparr>df_severity = the (map_of severity_table change_type), df_change_type = change_type, df_path = path,
      df_old_type = ot, df_new_type = nt, df_old_value = ov, df_new_value = nv,
      df_message = the (map_of (templates path a) change_type)\<rparr>"
  using assms unfolding make_diff_def classify_def message_def
  by (auto simp: severity_table_def templates_def)

lemma pick_change_type_known: "pick_change_type old new = Some ct \<Longrightarrow> ct \<in> set (keys severity_table)"
  by (auto simp: pick_change_type_def severity_table_def split: if_splits option.splits)

text \<open>The kind of change between the two sides of a path, absent sides included.\<close>

definition change_at :: "SchemaNode option \<Rightarrow> SchemaNode option \<Rightarrow> string option" where
  "change_at old new =
     (case (old, new) of
        (None, None) \<Rightarrow> None
      | (Some o1, None) \<Rightarrow> Some (if nd_type o1 = ''object'' then ''nested_object_removed'' else ''removed_field'')
      | (None, Some n1) \<Rightarrow> Some ''added_field''
      | (Some o1, Some n1) \<Rightarrow> pick_change_type o1 n1)"

definition node_of :: "SchemaNode list \<Rightarrow> string \<Rightarrow> SchemaNode option" where
  "node_of nodes path = map_of (by_path nodes) path"

definition opt_example :: "SchemaNode option \<Rightarrow> SchemaNode option \<Rightarrow> json" where
  "opt_example n other = (case (n, other) of (Some x, Some y) \<Rightarrow> nd_example_value x | _ \<Rightarrow> JNull)"

definition describe :: "SchemaNode list \<Rightarrow> SchemaNode list \<Rightarrow> string \<Rightarrow> Diff" where
  "describe old new path =
     (let x = node_of old path; y = node_of new path; ct = the (change_at x y);
          a = (case (x, y) of (Some o1, Some n1) \<Rightarrow> change_args ct o1 n1 | _ \<Rightarrow> no_args) in
      \<lparr>df_severity = the (map_of severity_table ct), df_change_type = ct, df_path = path,
       df_old_type = map_option nd_type x, df_new_type = map_option nd_type y,
       df_old_value = opt_example x y, df_new_value = opt_example y x,
       df_message = the (map_of (templates path a) ct)\<rparr>)"

definition changed_paths :: "SchemaNode list \<Rightarrow> SchemaNode list \<Rightarrow> string list" where
  "changed_paths old new =
     (let o1 = by_path old; n1 = by_path new in
      sorted_set (filter (\<lambda>p. p \<notin> set (keys n1)) (keys o1)) @
      sorted_set (filter (\<lambda>p. p \<notin> set (keys o1)) (keys n1)) @
      filter (\<lambda>p. change_at (node_of old p) (node_of new p) \<noteq> None)
        (sorted_set (filter (\<lambda>p. p \<in> set (keys n1)) (keys o1))))"

lemma node_of_cases:
  "p \<in> fst ` set (by_path nodes) \<Longrightarrow> node_of nodes p = Some (node_at (by_path nodes) p)"
  "p \<notin> fst ` set (by_path nodes) \<Longrightarrow> node_of nodes p = None"
  by (auto simp: node_of_def node_at_def map_of_eq_None_iff dest: weak_map_of_SomeI)

lemma concat_singletons: "concat (map (\<lambda>p. if P p then [f p] else []) xs) = map f (filter P xs)"
  by (induction xs) auto

lemma diff_schemas_report: "diff_schemas old new = Inr (map (describe old new) (changed_paths old new))"
proof -
  let ?o = "by_path old" and ?n = "by_path new"
  have rem: "map_exc (removed_diff ?o) (sorted_set (filter (\<lambda>p. p \<notin> set (keys ?n)) (keys ?o))) =
      Inr (map (describe old new) (sorted_set (filter (\<lambda>p. p \<notin> set (keys ?n)) (keys ?o))))"
    by (rule map_exc_total)
       (auto simp: removed_diff_def Let_def describe_def node_of_cases change_at_def opt_example_def
         make_diff_known severity_table_def)
  have add: "map_exc (added_diff ?n) (sorted_set (filter (\<lambda>p. p \<notin> set (keys ?o)) (keys ?n))) =
      Inr (map (describe old new) (sorted_set (filter (\<lambda>p. p \<notin> set (keys ?o)) (keys ?n))))"
    by (rule map_exc_total)
       (auto simp: added_diff_def Let_def describe_def node_of_cases change_at_def opt_example_def
         make_diff_known severity_table_def)
  have chg: "map_exc (changed_diff ?o ?n) (sorted_set (filter (\<lambda>p. p \<in> set (keys ?n)) (keys ?o))) =
      Inr (map (\<lambda>p. if change_at (node_of old p) (node_of new p) \<noteq> None then [describe old new p] else [])
        (sorted_set (filter (\<lambda>p. p \<in> set (keys ?n)) (keys ?o))))"
  proof (rule map_exc_total)
    fix p
    assume "p \<in> set (sorted_set (filter (\<lambda>p. p \<in> set (keys ?n)) (keys ?o)))"
    then have p: "node_of old p = Some (node_at ?o p)" "node_of new p = Some (node_at ?n p)"
      by (auto simp: node_of_cases)
    show "changed_diff ?o ?n p = Inr (if change_at (node_of old p) (node_of new p) \<noteq> None then [describe old new p] else [])"
    proof (cases "pick_change_type (node_at ?o p) (node_at ?n p)")
      case None
      with p show ?thesis by (simp add: changed_diff_def change_at_def)
    next
      case (Some ct)
      with make_diff_known [OF pick_change_type_known [OF Some]] p show ?thesis
        by (simp add: changed_diff_def change_at_def describe_def opt_example_def Let_def)
    qed
  qed
  show ?thesis
    unfolding diff_schemas_def Let_def rem add chg changed_paths_def
    by (simp add: concat_singletons)
qed

lemma set_changed_paths:
  "set (changed_paths old new) = {p. change_at (node_of old p) (node_of new p) \<noteq> None}"
proof -
  have "p \<in> set (changed_paths old new) \<longleftrightarrow> change_at (node_of old p) (node_of new p) \<noteq> None" for p
    by (cases "p \<in> fst ` set (by_path old)"; cases "p \<in> fst ` set (by_path new)")
       (auto simp: changed_paths_def Let_def node_of_cases change_at_def)
  then show ?thesis by blast
qed

lemma distinct_changed_paths: "distinct (changed_paths old new)"
  by (auto simp: changed_paths_def Let_def)

lemma pick_change_type_refl: "pick_change_type n n = None"
  by (simp add: pick_change_type_def split: option.split)

interpretation monitor: keyed_diff diff_schemas df_path node_of "\<lambda>x y. change_at x y \<noteq> None" "\<lambda>_. True"
proof unfold_locales
  show "diff_schemas a b = Inr ds \<Longrightarrow> df_path ` set ds = {p. change_at (node_of a p) (node_of b p) \<noteq> None}" for a b ds
    using set_changed_paths [of a b] by (auto simp: diff_schemas_report describe_def Let_def image_comp comp_def)
  show "diff_schemas a b = Inr ds \<Longrightarrow> distinct (map df_path ds)" for a b ds
    by (auto simp: diff_schemas_report describe_def Let_def comp_def distinct_changed_paths)
  show "\<not> change_at (node_of a p) (node_of a p) \<noteq> None" for a p
    by (auto simp: change_at_def pick_change_type_refl split: option.split)
qed

section \<open>The messages\<close>

text \<open>The sentence for a change, read off the two nodes.\<close>

definition fresh_values :: "SchemaNode \<Rightarrow> SchemaNode \<Rightarrow> string list" where
  "fresh_values a b = filter (\<lambda>e. e \<notin> set (enum_or_empty a)) (remdups (enum_or_empty b))"

definition node_sentence :: "string \<Rightarrow> SchemaNode \<Rightarrow> SchemaNode \<Rightarrow> string" where
  "node_sentence path a b =
     (let new_values = fresh_values a b; lost_values = fresh_values b a in
      if nd_type a = ''integer'' \<and> nd_type b = ''number'' then
        ''Field '' @ path @ '' type widened from integer to number (consumers may receive floating-point values).''
      else if nd_type a = ''number'' \<and> nd_type b = ''integer'' then
        ''Field '' @ path @ '' type narrowed from number to integer (decimal values no longer returned).''
      else if nd_type a \<noteq> nd_type b then
        ''Field '' @ path @ '' type changed from '' @ nd_type a @ '' to '' @ nd_type b @ ''.''
      else if \<not> nd_nullable a \<and> nd_nullable b then
        ''Field '' @ path @ '' is now nullable (consumers may receive null).''
      else if nd_nullable a \<and> \<not> nd_nullable b then
        ''Field '' @ path @ '' is no longer nullable (null values no longer returned).''
      else if nd_enum_values a = None \<or> nd_enum_values b = None \<or> new_values = [] \<and> lost_values = [] then
        ''Array '' @ path @ '' item type changed from '' @ show_type (nd_array_item_type a) @
        '' to '' @ show_type (nd_array_item_type b) @ ''.''
      else if lost_values = [] then
        ''Field '' @ path @ '' enum expanded; new values: '' @ show_texts new_values @ ''.''
      else if new_values = [] then
        ''Field '' @ path @ '' enum narrowed; removed values: '' @ show_texts lost_values @ ''.''
      else ''Field '' @ path @ '' enum values changed; added: '' @ show_texts new_values @
        '', removed: '' @ show_texts lost_values @ ''.'')"

definition sentence :: "string \<Rightarrow> SchemaNode option \<Rightarrow> SchemaNode option \<Rightarrow> string" where
  "sentence path x y =
     (case (x, y) of
        (Some a, None) \<Rightarrow>
          if nd_type a = ''object'' then ''Nested object '' @ path @ '' was removed.''
          else ''Field '' @ path @ '' was removed from the response schema.''
      | (None, Some b) \<Rightarrow> ''Field '' @ path @ '' was added to the response schema.''
      | (Some a, Some b) \<Rightarrow> node_sentence path a b
      | (None, None) \<Rightarrow> [])"

lemma fresh_values_Nil: "fresh_values a b = [] \<longleftrightarrow> set (enum_or_empty b) \<subseteq> set (enum_or_empty a)"
  by (auto simp: fresh_values_def filter_empty_conv)

lemma enum_or_empty_Some: "nd_enum_values n = Some es \<Longrightarrow> enum_or_empty n = es"
  by (simp add: enum_or_empty_def)

lemma pick_enum:
  assumes "pick_change_type a b = Some ct" "nd_type a = nd_type b" "nd_nullable a = nd_nullable b"
  shows "ct = (if nd_enum_values a = None \<or> nd_enum_values b = None \<or> fresh_values a b = [] \<and> fresh_values b a = []
    then ''array_item_type_changed'' else if fresh_values b a = [] then ''enum_expanded''
    else if fresh_values a b = [] then ''enum_narrowed'' else ''enum_changed'')"
  using assms
  by (cases "nd_enum_values a"; cases "nd_enum_values b")
     (auto simp: pick_change_type_def fresh_values_Nil enum_or_empty_Some split: if_splits)

lemma pick_type:
  "pick_change_type a b = Some ct \<Longrightarrow> nd_type a \<noteq> nd_type b \<Longrightarrow>
     ct = (if nd_type a = ''integer'' \<and> nd_type b = ''number'' then ''int_to_number''
           else if nd_type a = ''number'' \<and> nd_type b = ''integer'' then ''number_to_int'' else ''type_changed'')"
  by (auto simp: pick_change_type_def split: if_splits)

lemma pick_nullable:
  "pick_change_type a b = Some ct \<Longrightarrow> nd_type a = nd_type b \<Longrightarrow> nd_nullable a \<noteq> nd_nullable b \<Longrightarrow>
     ct = (if nd_nullable b then ''nullable_added'' else ''nullable_removed'')"
  by (simp add: pick_change_type_def)

lemma template:
  "map_of (templates path a) ''removed_field'' = Some (''Field '' @ path @ '' was removed from the response schema.'')"
  "map_of (templates path a) ''added_field'' = Some (''Field '' @ path @ '' was added to the response schema.'')"
  "map_of (templates path a) ''type_changed'' = Some (''Field '' @ path @ '' type changed from '' @ show_type (ma_old_type a) @
     '' to '' @ show_type (ma_new_type a) @ ''.'')"
  "map_of (templates path a) ''int_to_number'' = Some (''Field '' @ path @
     '' type widened from integer to number (consumers may receive floating-point values).'')"
  "map_of (templates path a) ''number_to_int'' = Some (''Field '' @ path @
     '' type narrowed from number to integer (decimal values no longer returned).'')"
  "map_of (templates path a) ''nullable_added'' = Some (''Field '' @ path @ '' is now nullable (consumers may receive null).'')"
  "map_of (templates path a) ''nullable_removed'' = Some (''Field '' @ path @
     '' is no longer nullable (null values no longer returned).'')"
  "map_of (templates path a) ''enum_expanded'' = Some (''Field '' @ path @ '' enum expanded; new values: '' @
     show_texts (ma_added a) @ ''.'')"
  "map_of (templates path a) ''enum_narrowed'' = Some (''Field '' @ path @ '' enum narrowed; removed values: '' @
     show_texts (ma_removed a) @ ''.'')"
  "map_of (templates path a) ''enum_changed'' = Some (''Field '' @ path @ '' enum values changed; added: '' @
     show_texts (ma_added a) @ '', removed: '' @ show_texts (ma_removed a) @ ''.'')"
  "map_of (templates path a) ''nested_object_removed'' = Some (''Nested object '' @ path @ '' was removed.'')"
  "map_of (templates path a) ''array_item_type_changed'' = Some (''Array '' @ path @ '' item type changed from '' @
     show_type (ma_old_type a) @ '' to '' @ show_type (ma_new_type a) @ ''.'')"
  by (simp_all add: templates_def)

lemma message_node:
  assumes "pick_change_type a b = Some ct"
  shows "map_of (templates path (change_args ct a b)) ct = Some (node_sentence path a b)"
proof -
  have args: "ma_added (change_args ''enum_expanded'' a b) = fresh_values a b"
    "ma_removed (change_args ''enum_narrowed'' a b) = fresh_values b a"
    "ma_added (change_args ''enum_changed'' a b) = fresh_values a b"
    "ma_removed (change_args ''enum_changed'' a b) = fresh_values b a"
    "ma_old_type (change_args ''array_item_type_changed'' a b) = nd_array_item_type a"
    "ma_new_type (change_args ''array_item_type_changed'' a b) = nd_array_item_type b"
    "ma_old_type (change_args ''type_changed'' a b) = Some (nd_type a)"
    "ma_new_type (change_args ''type_changed'' a b) = Some (nd_type b)"
    by (simp_all add: change_args_def fresh_values_def Let_def)
  consider (ty) "nd_type a \<noteq> nd_type b" | (nu) "nd_type a = nd_type b" "nd_nullable a \<noteq> nd_nullable b"
    | (enum) "nd_type a = nd_type b" "nd_nullable a = nd_nullable b" by blast
  then show ?thesis
  proof cases
    case ty
    then show ?thesis unfolding pick_type [OF assms ty]
      by (cases "nd_type a = ''integer'' \<and> nd_type b = ''number''"; cases "nd_type a = ''number'' \<and> nd_type b = ''integer''")
         (simp_all add: template args node_sentence_def Let_def show_type_def)
  next
    case nu
    then show ?thesis unfolding pick_nullable [OF assms nu]
      by (cases "nd_nullable b") (simp_all add: template node_sentence_def Let_def)
  next
    case enum
    let ?same = "nd_enum_values a = None \<or> nd_enum_values b = None \<or> fresh_values a b = [] \<and> fresh_values b a = []"
    from enum show ?thesis unfolding pick_enum [OF assms enum]
      by (cases ?same; cases "fresh_values b a = []"; cases "fresh_values a b = []")
         (simp_all add: template args node_sentence_def Let_def del: not_None_eq)
  qed
qed

lemma describe_message:
  assumes "change_at (node_of old p) (node_of new p) \<noteq> None"
  shows "df_message (describe old new p) = sentence p (node_of old p) (node_of new p)"
proof -
  obtain ct where "change_at (node_of old p) (node_of new p) = Some ct" using assms by blast
  then show ?thesis
    by (cases "node_of old p"; cases "node_of new p")
       (auto simp: describe_def Let_def change_at_def sentence_def template message_node)
qed

text \<open>What an entry of the report says of its path.\<close>

lemma described:
  assumes "d \<in> describe old new ` set (changed_paths old new)"
  shows "let x = node_of old (df_path d); y = node_of new (df_path d) in
       Some (df_change_type d) = change_at x y \<and>
       Some (df_severity d) = map_of severity_table (df_change_type d) \<and>
       df_severity d \<in> {''breaking'', ''risky'', ''safe''} \<and>
       df_old_type d = map_option nd_type x \<and> df_new_type d = map_option nd_type y \<and>
       df_old_value d = opt_example x y \<and> df_new_value d = opt_example y x \<and>
       df_message d = sentence (df_path d) x y"
proof -
  obtain p where p: "d = describe old new p" "p \<in> set (changed_paths old new)" using assms by auto
  then obtain ct where ct: "change_at (node_of old p) (node_of new p) = Some ct" by (auto simp: set_changed_paths)
  have "ct \<in> set (keys severity_table)"
    using ct by (auto simp: change_at_def severity_table_def dest: pick_change_type_known split: option.splits if_splits)
  then have "map_of severity_table ct \<in> Some ` {''breaking'', ''risky'', ''safe''}"
    by (auto simp: severity_table_def)
  moreover have "df_path d = p" "df_message d = sentence p (node_of old p) (node_of new p)"
    using describe_message [of old p new] ct by (simp_all add: p(1)) (simp add: describe_def Let_def)
  ultimately show ?thesis using ct by (auto simp: p(1) describe_def Let_def)
qed

section \<open>Properties\<close>

text \<open>
  C23. Comparing two schemas never raises and reports exactly the paths that changed, once each: the
  removed ones, then the added ones, then those whose two nodes differ in type, nullability,
  enumeration or item type, the first of these deciding the kind of change, and each of the three
  parts sorted by path. Every severity is the table's for that kind, and one of the three the
  database admits; the types and example values are those of the two nodes, and the message is the
  sentence for what differs between them.
\<close>

theorem monitor_diff_reports_changes:
  "\<exists>rs as cs. diff_schemas old new = Inr (rs @ as @ cs) \<and> distinct (map df_path (rs @ as @ cs)) \<and>
     sorted (map df_path rs) \<and> df_path ` set rs = {p. node_of old p \<noteq> None \<and> node_of new p = None} \<and>
     sorted (map df_path as) \<and> df_path ` set as = {p. node_of old p = None \<and> node_of new p \<noteq> None} \<and>
     sorted (map df_path cs) \<and> df_path ` set cs = {p. node_of old p \<noteq> None \<and> node_of new p \<noteq> None \<and>
       change_at (node_of old p) (node_of new p) \<noteq> None} \<and>
     list_all (\<lambda>d. let x = node_of old (df_path d); y = node_of new (df_path d) in
       Some (df_change_type d) = change_at x y \<and>
       Some (df_severity d) = map_of severity_table (df_change_type d) \<and>
       df_severity d \<in> {''breaking'', ''risky'', ''safe''} \<and>
       df_old_type d = map_option nd_type x \<and> df_new_type d = map_option nd_type y \<and>
       df_old_value d = opt_example x y \<and> df_new_value d = opt_example y x \<and>
       df_message d = sentence (df_path d) x y) (rs @ as @ cs)"
proof -
  let ?o = "by_path old" and ?n = "by_path new"
  let ?rs = "sorted_set (filter (\<lambda>p. p \<notin> set (keys ?n)) (keys ?o))"
  let ?as = "sorted_set (filter (\<lambda>p. p \<notin> set (keys ?o)) (keys ?n))"
  let ?cs = "filter (\<lambda>p. change_at (node_of old p) (node_of new p) \<noteq> None)
        (sorted_set (filter (\<lambda>p. p \<in> set (keys ?n)) (keys ?o)))"
  let ?D = "describe old new"
  have ds: "diff_schemas old new = Inr (map ?D ?rs @ map ?D ?as @ map ?D ?cs)"
    by (simp add: diff_schemas_report changed_paths_def Let_def)
  have path: "map df_path (map ?D ps) = ps" for ps by (simp add: describe_def Let_def comp_def)
  have node: "p \<in> fst ` set ?o \<longleftrightarrow> node_of old p \<noteq> None" "p \<in> fst ` set ?n \<longleftrightarrow> node_of new p \<noteq> None" for p
    using node_of_cases [of p old] node_of_cases [of p new] by fastforce+
  have all: "list_all Q (map ?D ?rs @ map ?D ?as @ map ?D ?cs)" if "\<And>d. d \<in> ?D ` set (changed_paths old new) \<Longrightarrow> Q d" for Q
    using that by (simp add: list_all_iff changed_paths_def Let_def ball_Un)
  have img: "df_path ` set (map ?D ps) = set ps" for ps by (metis list.set_map path)
  have sets: "set ?rs = {p. node_of old p \<noteq> None \<and> node_of new p = None}"
    "set ?as = {p. node_of old p = None \<and> node_of new p \<noteq> None}"
    "set ?cs = {p. node_of old p \<noteq> None \<and> node_of new p \<noteq> None \<and> change_at (node_of old p) (node_of new p) \<noteq> None}"
    using node by auto
  have sorted: "sorted ?rs" "sorted ?as" "sorted ?cs" by (simp_all add: sorted_wrt_filter)
  show ?thesis
    by (rule exI [of _ "map ?D ?rs"], rule exI [of _ "map ?D ?as"], rule exI [of _ "map ?D ?cs"],
        intro conjI ds monitor.diff_distinct [OF ds] all described)
       (simp_all only: path img sets sorted)
qed

end
