(* ===== verification/Schema_Hash.thy ===== *)
theory Schema_Hash
  imports Schema_Diff
begin

text \<open>
  \<open>backend/app/core/canonical.py\<close>: the hash by which the monitor tells whether a schema changed, and
  how it relates to the diff the monitor then takes. The digest is a parameter, as is the JSON
  decoder of \<open>backend/app/core/normalizer.py\<close>, which is applied to a cut-off text only.
\<close>

section \<open>Definitions\<close>

definition opt_text :: "string option \<Rightarrow> json" where
  "opt_text t = (case t of None \<Rightarrow> JNull | Some s \<Rightarrow> JStr s)"

definition opt_texts :: "string list option \<Rightarrow> json" where
  "opt_texts t = (case t of None \<Rightarrow> JNull | Some xs \<Rightarrow> JList (map JStr xs))"

definition structural_projection :: "SchemaNode \<Rightarrow> json" where
  "structural_projection n =
     JObj [(''path'', JStr (nd_path n)), (''type'', JStr (nd_type n)), (''required'', JBool (nd_required n)),
           (''nullable'', JBool (nd_nullable n)), (''array_item_type'', opt_text (nd_array_item_type n)),
           (''enum_values'', opt_texts (nd_enum_values n))]"

definition path_entry :: "json \<Rightarrow> string" where
  "path_entry d = (case jget d ''path'' of Some (JStr p) \<Rightarrow> p | _ \<Rightarrow> [])"

definition hash_text :: "SchemaNode list \<Rightarrow> string" where
  "hash_text nodes = dumps True (JList (sort_key path_entry (map structural_projection nodes)))"

definition stable_schema_hash :: "(string \<Rightarrow> string) \<Rightarrow> SchemaNode list \<Rightarrow> string" where
  "stable_schema_hash sha nodes = sha (hash_text nodes)"

text \<open>
  \<open>normalize\<close>: \<open>json.dumps\<close> writes ASCII, so the size in bytes is the length of the text. A body over
  the limit is cut off and decoded again; when that fails a marker takes its place.
\<close>

definition normalize :: "(string \<Rightarrow> json option) \<Rightarrow> nat \<Rightarrow> json \<Rightarrow> json" where
  "normalize loads max_bytes body =
     (let sorted_body = sort_keys body; serialized = dumps False sorted_body in
      if max_bytes < length serialized then
        (case loads (take max_bytes serialized) of
           Some v \<Rightarrow> v
         | None \<Rightarrow> JObj [(''_truncated'', JBool True), (''_size_bytes'', JInt (int (length serialized)))])
      else sorted_body)"

section \<open>What the hash tells apart\<close>

lemma path_entry_projection [simp]: "path_entry (structural_projection n) = nd_path n"
  by (simp add: path_entry_def structural_projection_def)

lemma map_insort_key_comp: "map f (insort_key (g \<circ> f) x xs) = insort_key g (f x) (map f xs)"
  by (induction xs) auto

lemma sort_projections:
  "sort_key path_entry (map structural_projection nodes) = map structural_projection (sort_key nd_path nodes)"
proof (induction nodes)
  case (Cons n nodes)
  have "insort_key path_entry (structural_projection n) (map structural_projection ms) =
      map structural_projection (insort_key nd_path n ms)" for ms
    by (induction ms) auto
  with Cons show ?case by simp
qed simp

lemma delimited_projection [simp]: "delimited (structural_projection n)"
  by (auto simp: structural_projection_def opt_text_def opt_texts_def list_all_iff split: option.split)

lemma delimited_sort_keys [simp]: "delimited j \<Longrightarrow> delimited (sort_keys j)"
  by (induction j) (auto simp: list_all_iff)

lemma sort_keys_projection_inject:
  "sort_keys (structural_projection a) = sort_keys (structural_projection b) \<Longrightarrow>
     structural_projection a = structural_projection b"
proof -
  have "opt_text t = opt_text u \<Longrightarrow> t = u" for t u by (auto simp: opt_text_def split: option.splits)
  moreover have "sort_keys (opt_text t) = opt_text t" "sort_keys (opt_texts ts) = opt_texts ts" for t ts
    by (auto simp: opt_text_def opt_texts_def split: option.splits)
  ultimately show "sort_keys (structural_projection a) = sort_keys (structural_projection b) \<Longrightarrow> ?thesis"
    by (simp add: structural_projection_def sort_items_def)
qed

lemma map_eq_weaken: "map f xs = map f ys \<Longrightarrow> (\<And>x y. f x = f y \<Longrightarrow> g x = g y) \<Longrightarrow> map g xs = map g ys"
proof (induction xs arbitrary: ys)
  case (Cons x xs)
  from Cons.prems(1) obtain y zs where ys: "ys = y # zs" "f x = f y" "map f xs = map f zs" by (cases ys) auto
  from Cons.IH [OF ys(3) Cons.prems(2)] Cons.prems(2) [OF ys(2)] ys(1) show ?case by simp
qed simp

lemma hash_text_inject:
  assumes "hash_text a = hash_text b"
  shows "map structural_projection (sort_key nd_path a) = map structural_projection (sort_key nd_path b)"
proof -
  let ?j = "\<lambda>ns. JList (map structural_projection (sort_key nd_path ns))"
  have "delimited (sort_keys (?j ns))" for ns by (intro delimited_sort_keys) (simp add: list_all_iff)
  then have "sort_keys (?j a) = sort_keys (?j b)"
    using assms by (intro dumps_inject) (simp_all only: hash_text_def sort_projections dumps_sorted)
  then have "map (sort_keys \<circ> structural_projection) (sort_key nd_path a) =
      map (sort_keys \<circ> structural_projection) (sort_key nd_path b)" by simp
  then show ?thesis by (rule map_eq_weaken) (rule sort_keys_projection_inject, simp)
qed

lemma map_JStr_inject: "map JStr xs = map JStr ys \<longleftrightarrow> xs = ys"
  by (rule inj_map_eq_map) (simp add: inj_on_def)

lemma structural_projection_inject:
  "structural_projection a = structural_projection b \<longleftrightarrow>
     nd_path a = nd_path b \<and> nd_type a = nd_type b \<and> nd_required a = nd_required b \<and>
     nd_nullable a = nd_nullable b \<and> nd_array_item_type a = nd_array_item_type b \<and>
     nd_enum_values a = nd_enum_values b"
  by (auto simp: structural_projection_def opt_text_def opt_texts_def map_JStr_inject split: option.splits)

section \<open>The hash and the diff\<close>

lemma by_path_distinct:
  assumes "distinct (map nd_path nodes)"
  shows "by_path nodes = map (\<lambda>n. (nd_path n, n)) nodes"
proof -
  have "distinct (keys (map (\<lambda>n. (nd_path n, n)) nodes))" using assms by (simp add: comp_def)
  from dict_update_fresh [OF this, of "[]"] show ?thesis by (simp add: by_path_def)
qed

lemma node_of_distinct:
  assumes "distinct (map nd_path nodes)"
  shows "node_of nodes p = Some n \<longleftrightarrow> n \<in> set nodes \<and> nd_path n = p"
proof -
  have "distinct (keys (map (\<lambda>n. (nd_path n, n)) nodes))" using assms by (simp add: comp_def)
  then show ?thesis by (auto simp: node_of_def by_path_distinct [OF assms])
qed

lemma node_of_None:
  assumes "distinct (map nd_path nodes)"
  shows "node_of nodes p = None \<longleftrightarrow> p \<notin> set (map nd_path nodes)"
  by (simp add: node_of_def by_path_distinct [OF assms] map_of_eq_None_iff image_comp comp_def)

lemma no_change_no_diff:
  assumes "\<And>p. change_at (node_of a p) (node_of b p) = None"
  shows "diff_schemas a b = Inr []"
proof -
  have "changed_paths a b = []" using set_changed_paths [of a b] assms by simp
  then show ?thesis by (simp add: diff_schemas_report)
qed

text \<open>
  C29. The hash misses nothing the diff would report: of two schemas with distinct paths and equal
  hashes, unless the digest collides on their two texts, the diff is empty. It does not depend on
  the order of the nodes or on their example values.
\<close>

theorem equal_hash_no_diff:
  assumes "distinct (map nd_path a)" "distinct (map nd_path b)"
    and "stable_schema_hash sha a = stable_schema_hash sha b"
    and "sha (hash_text a) = sha (hash_text b) \<Longrightarrow> hash_text a = hash_text b"
  shows "diff_schemas a b = Inr []"
proof (rule no_change_no_diff)
  fix p
  have "hash_text a = hash_text b" using assms(3,4) by (simp add: stable_schema_hash_def)
  from arg_cong [OF hash_text_inject [OF this], of set]
  have same: "structural_projection ` set a = structural_projection ` set b" by simp
  have agree: "\<exists>m. node_of b p = Some m \<and> structural_projection n = structural_projection m"
    if node: "node_of a p = Some n" and proj: "structural_projection ` set a = structural_projection ` set b"
       and dist: "distinct (map nd_path a)" "distinct (map nd_path b)" for a b n
  proof -
    have n: "n \<in> set a" "nd_path n = p" using node node_of_distinct [OF dist(1)] by auto
    then obtain m where "m \<in> set b" "structural_projection n = structural_projection m" using proj by blast
    with n(2) node_of_distinct [OF dist(2)] show ?thesis by (auto simp: structural_projection_inject)
  qed
  show "change_at (node_of a p) (node_of b p) = None"
  proof (cases "node_of a p")
    case None
    with agree [of b _ a] same assms(1,2) show ?thesis by (cases "node_of b p") (auto simp: change_at_def)
  next
    case (Some n)
    from agree [OF Some same assms(1,2)] obtain m where "node_of b p = Some m" "structural_projection n = structural_projection m"
      by auto
    with Some show ?thesis
      by (auto simp: change_at_def pick_change_type_def structural_projection_inject split: option.split)
  qed
qed

theorem equal_hash_no_diff_witness:
  "diff_schemas (infer_schema (JObj [(''a'', JInt 1), (''b'', JStr ''x'')])) (rev (infer_schema (JObj [(''b'', JStr ''x''), (''a'', JInt 2)]))) = Inr []"
proof -
  let ?a = "infer_schema (JObj [(''a'', JInt 1), (''b'', JStr ''x'')])"
  let ?b = "rev (infer_schema (JObj [(''b'', JStr ''x''), (''a'', JInt 2)]))"
  have "distinct (map nd_path ?a)" "distinct (map nd_path ?b)" "hash_text ?a = hash_text ?b" by code_simp+
  from equal_hash_no_diff [OF this(1,2), of id] this(3) show ?thesis by (simp add: stable_schema_hash_def)
qed

lemma pick_change_required: "pick_change_type n (n\<lparr>nd_required := r\<rparr>) = None"
  by (simp add: pick_change_type_def split: option.split)

text \<open>
  A field that becomes optional, or required, is drift the monitor detects and then drops: the
  texts under the hash differ, so the monitor takes a diff, and the diff is empty.
\<close>

theorem required_drift_unreported:
  assumes "distinct (map nd_path ns)" "p \<in> set (map nd_path ns)"
  defines "ms \<equiv> map (\<lambda>n. if nd_path n = p then n\<lparr>nd_required := \<not> nd_required n\<rparr> else n) ns"
  shows "hash_text ns \<noteq> hash_text ms \<and> diff_schemas ns ms = Inr []"
proof
  have paths: "map nd_path ms = map nd_path ns" unfolding ms_def by (simp add: comp_def)
  have d: "distinct (map nd_path ms)" unfolding paths by (rule assms(1))
  show "hash_text ns \<noteq> hash_text ms"
  proof
    assume "hash_text ns = hash_text ms"
    from arg_cong [OF hash_text_inject [OF this], of set]
    have same: "structural_projection ` set ns = structural_projection ` set ms" by simp
    obtain n where n: "n \<in> set ns" "nd_path n = p" using assms(2) by auto
    then obtain m where m: "m \<in> set ms" "structural_projection n = structural_projection m" using same by blast
    then obtain n' where n': "n' \<in> set ns" "m = (if nd_path n' = p then n'\<lparr>nd_required := \<not> nd_required n'\<rparr> else n')"
      by (auto simp: ms_def)
    with m n have "nd_path n' = p" by (auto simp: structural_projection_inject split: if_splits)
    then have "n' = n" using n n'(1) assms(1) by (auto simp: distinct_map dest: inj_onD)
    with m(2) n' n(2) show False by (simp add: structural_projection_inject)
  qed
  show "diff_schemas ns ms = Inr []"
  proof (rule no_change_no_diff)
    fix q
    show "change_at (node_of ns q) (node_of ms q) = None"
    proof (cases "node_of ns q")
      case None
      then have "node_of ms q = None" unfolding node_of_None [OF d] node_of_None [OF assms(1)] paths .
      with None show ?thesis by (simp add: change_at_def)
    next
      case (Some n)
      then have n: "n \<in> set ns" "nd_path n = q" using node_of_distinct [OF assms(1)] by auto
      let ?m = "if nd_path n = p then n\<lparr>nd_required := \<not> nd_required n\<rparr> else n"
      have "?m \<in> set ms" "nd_path ?m = q" using n unfolding ms_def by auto
      then have "node_of ms q = Some ?m" using node_of_distinct [OF d] by blast
      moreover have "pick_change_type n ?m = None" by (simp add: pick_change_type_refl pick_change_required)
      ultimately show ?thesis using Some by (simp add: change_at_def)
    qed
  qed
qed

theorem required_drift_unreported_witness:
  "let ns = infer_schema (JList [JObj [(''a'', JInt 1)], JObj [(''a'', JInt 2)]]);
       ms = map (\<lambda>n. if nd_path n = ''[*].a'' then n\<lparr>nd_required := \<not> nd_required n\<rparr> else n) ns
   in hash_text ns \<noteq> hash_text ms \<and> diff_schemas ns ms = Inr []"
proof -
  let ?ns = "infer_schema (JList [JObj [(''a'', JInt 1)], JObj [(''a'', JInt 2)]])"
  have "distinct (map nd_path ?ns)" "''[*].a'' \<in> set (map nd_path ?ns)" by code_simp+
  from required_drift_unreported [OF this] show ?thesis unfolding Let_def .
qed

section \<open>Root lists\<close>

definition plain :: "json \<Rightarrow> bool" where
  "plain v = (is_scalar v \<and> v \<noteq> JNull)"

definition root_state :: "json list \<Rightarrow> node_state" where
  "root_state xs = fold observe_scalar xs (new_state ''array'')"

lemma emit_plain_items:
  "list_all plain xs \<Longrightarrow> emit_items p xs [(p, s)] = [(p, fold observe_scalar xs s)]"
proof (induction xs arbitrary: s)
  case (Cons x xs)
  then have x: "is_scalar x" "x \<noteq> JNull" by (simp_all add: plain_def)
  then have "emit_value p x [(p, s)] = [(p, observe_scalar x s)]"
    by (cases x) (simp_all add: emit_scalar_def ensure_def modify_def)
  with Cons show ?case by simp
qed simp

lemma infer_root_list:
  assumes "xs \<noteq> []" "list_all plain xs"
  shows "infer_schema (JList xs) = [finalize (''[*]'', (root_state xs)\<lparr>ns_array_item_type := Some (item_type_of xs)\<rparr>)]"
proof -
  have "\<not> list_all is_obj xs" using assms by (cases xs) (auto simp: plain_def is_scalar_def)
  with assms(1) show ?thesis
    by (simp add: infer_schema_def Let_def array_path_def ensure_def emit_plain_items [OF assms(2)] modify_def root_state_def)
qed

lemma fold_observe:
  assumes "list_all plain xs" "ns_type s = ''array'' \<or> ns_type s = ''mixed''" "\<not> ns_nullable s"
  shows "ns_type (fold observe_scalar xs s) = (if xs = [] then ns_type s else ''mixed'') \<and>
    \<not> ns_nullable (fold observe_scalar xs s)"
  using assms
proof (induction xs arbitrary: s)
  case (Cons x xs)
  then have "scalar_type x \<notin> {''null'', ''mixed'', ''array''}" by (cases x) (simp_all add: plain_def)
  then have "ns_type (observe_scalar x s) = ''mixed''" "\<not> ns_nullable (observe_scalar x s)"
    using Cons.prems by (auto simp: merge_type_def)
  with Cons.IH [of "observe_scalar x s"] Cons.prems(1) show ?case by simp
qed simp

lemma fold_observe_no_text:
  "list_all (\<lambda>x. \<forall>t. x \<noteq> JStr t) xs \<Longrightarrow> ns_is_string_leaf (fold observe_scalar xs s) = ns_is_string_leaf s"
proof (induction xs arbitrary: s)
  case (Cons x xs)
  then have "ns_is_string_leaf (observe_scalar x s) = ns_is_string_leaf s"
    by (cases x) (simp_all add: observe_scalar_def collect_enum_def keep_example_def merge_type_def)
  with Cons show ?case by simp
qed simp

text \<open>
  The type of the items of a list at the root of a document is not compared: list and items
  share the path \<open>[*]\<close>, so its type is \<open>mixed\<close> and the comparison of item types, made for arrays only,
  is skipped. Between a list of numbers or booleans and a list of any scalars no diff is reported,
  though the hashed texts differ when the item types do.
\<close>

theorem root_list_drift_unreported:
  assumes "xs \<noteq> []" "list_all plain xs" "list_all (\<lambda>x. \<forall>t. x \<noteq> JStr t) xs"
    and "ys \<noteq> []" "list_all plain ys" "item_type_of xs \<noteq> item_type_of ys"
  shows "hash_text (infer_schema (JList xs)) \<noteq> hash_text (infer_schema (JList ys)) \<and>
    diff_schemas (infer_schema (JList xs)) (infer_schema (JList ys)) = Inr []"
proof
  let ?n = "\<lambda>xs. finalize (''[*]'', (root_state xs)\<lparr>ns_array_item_type := Some (item_type_of xs)\<rparr>)"
  have fields: "nd_path (?n zs) = ''[*]''" "nd_array_item_type (?n zs) = Some (item_type_of zs)" for zs
    by (simp_all add: finalize_def Let_def)
  have mixed: "nd_type (?n zs) = ''mixed'' \<and> \<not> nd_nullable (?n zs)" if "zs \<noteq> []" "list_all plain zs" for zs
    using fold_observe [OF that(2), of "root_state []"] that(1) by (simp add: finalize_def Let_def root_state_def)
  have enum: "nd_enum_values (?n xs) = None"
    using fold_observe_no_text [OF assms(3), of "root_state []"] by (simp add: finalize_def Let_def root_state_def)
  show "hash_text (infer_schema (JList xs)) \<noteq> hash_text (infer_schema (JList ys))"
  proof
    assume "hash_text (infer_schema (JList xs)) = hash_text (infer_schema (JList ys))"
    from hash_text_inject [OF this] have "structural_projection (?n xs) = structural_projection (?n ys)"
      by (simp add: infer_root_list assms)
    with fields assms(6) show False by (simp add: structural_projection_inject)
  qed
  have "pick_change_type (?n xs) (?n ys) = None"
    using mixed [OF assms(1,2)] mixed [OF assms(4,5)] enum by (simp add: pick_change_type_def)
  then have "change_at (node_of [?n xs] p) (node_of [?n ys] p) = None" for p
    using fields by (simp add: node_of_def by_path_def change_at_def)
  then show "diff_schemas (infer_schema (JList xs)) (infer_schema (JList ys)) = Inr []"
    unfolding infer_root_list [OF assms(1,2)] infer_root_list [OF assms(4,5)] by (rule no_change_no_diff)
qed

theorem root_list_drift_unreported_witness:
  "hash_text (infer_schema (JList [JInt 1])) \<noteq> hash_text (infer_schema (JList [JStr ''a''])) \<and>
   diff_schemas (infer_schema (JList [JInt 1])) (infer_schema (JList [JStr ''a''])) = Inr []"
  by (rule root_list_drift_unreported) (simp_all add: plain_def item_type_of_def)

section \<open>Oversized bodies\<close>

text \<open>
  Drift between oversized bodies is lost: two bodies over the size limit whose cut-off texts are
  not JSON have the same schema hash, whatever they contain, and an empty diff.
\<close>

theorem oversized_bodies_look_alike:
  assumes "cap < length (dumps False (sort_keys a))" "loads (take cap (dumps False (sort_keys a))) = None"
    and "cap < length (dumps False (sort_keys b))" "loads (take cap (dumps False (sort_keys b))) = None"
  shows "stable_schema_hash sha (infer_schema (normalize loads cap a)) =
      stable_schema_hash sha (infer_schema (normalize loads cap b)) \<and>
    diff_schemas (infer_schema (normalize loads cap a)) (infer_schema (normalize loads cap b)) = Inr []"
proof -
  let ?m = "\<lambda>n. JObj [(''_truncated'', JBool True), (''_size_bytes'', JInt n)]"
  let ?node = "\<lambda>p t v. \<lparr>nd_path = p, nd_type = t, nd_required = True, nd_nullable = False,
      nd_array_item_type = None, nd_enum_values = None, nd_example_value = v\<rparr>"
  have infer: "infer_schema (?m n) = [?node ''_size_bytes'' ''integer'' (JInt n), ?node ''_truncated'' ''boolean'' (JBool True)]" for n
    by (simp add: infer_schema_def emit_scalar_def ensure_def modify_def join_path_def observe_scalar_def
        merge_type_def keep_example_def truncate_example_def collect_enum_def finalize_def Let_def)
  have same: "hash_text (infer_schema (?m n)) = hash_text (infer_schema (?m k))" for n k
    unfolding infer by (simp add: hash_text_def structural_projection_def)
  have norm: "normalize loads cap a = ?m (int (length (dumps False (sort_keys a))))"
    "normalize loads cap b = ?m (int (length (dumps False (sort_keys b))))"
    using assms by (simp_all add: normalize_def Let_def)
  have d: "distinct (map nd_path (infer_schema (?m n)))" for n unfolding infer by simp
  have "stable_schema_hash sha (infer_schema (?m n)) = stable_schema_hash sha (infer_schema (?m k))" for n k sha
    unfolding stable_schema_hash_def same [of n k] ..
  then show ?thesis unfolding norm using equal_hash_no_diff [OF d d, of id] same by blast
qed

theorem oversized_bodies_look_alike_witness:
  "diff_schemas (infer_schema (normalize (\<lambda>_. None) 5 (JObj [(''a'', JInt 1)])))
     (infer_schema (normalize (\<lambda>_. None) 5 (JObj [(''b'', JStr ''x'')]))) = Inr []"
proof -
  have "5 < length (dumps False (sort_keys (JObj [(''a'', JInt 1)])))"
    "5 < length (dumps False (sort_keys (JObj [(''b'', JStr ''x'')])))" by code_simp+
  from oversized_bodies_look_alike [OF this(1) _ this(2), of "\<lambda>_. None"] show ?thesis by simp
qed

end
