(* ===== verification/Document_Store.thy ===== *)
theory Document_Store
  imports Json
begin

text \<open>
  \<open>app/runtime/document_store.py\<close>: the store for payload snapshots, diffs, validation errors and
  replay artifacts. The in-memory store is modelled in full; the Mongo store is modelled over the
  calls it makes of its client, which is third-party code and a parameter: inserting a document,
  finding one, and running the query that a chain of cursor calls describes. Copies are values,
  so \<open>copy.deepcopy\<close> is the identity. The id and the time of a document come from \<open>uuid4\<close> and the
  clock and are arguments.
\<close>

section \<open>Text functions\<close>

text \<open>\<open>str.lower\<close> and \<open>str.strip\<close> on code points below 256.\<close>

definition lower_char :: "char \<Rightarrow> char" where
  "lower_char c = (let n = code_of c in
     if (65 \<le> n \<and> n \<le> 90) \<or> (192 \<le> n \<and> n \<le> 222 \<and> n \<noteq> 215) then char_of (n + 32) else c)"

definition py_lower :: "string \<Rightarrow> string" where
  "py_lower s = map lower_char s"

text \<open>\<open>str.upper\<close> on code points whose upper case lies below 256, as all of ASCII does.\<close>

definition upper_char :: "char \<Rightarrow> string" where
  "upper_char c = (let n = code_of c in
     if n = 223 then ''SS''
     else if (97 \<le> n \<and> n \<le> 122) \<or> (224 \<le> n \<and> n \<le> 254 \<and> n \<noteq> 247) then [char_of (n - 32)] else [c])"

definition py_upper :: "string \<Rightarrow> string" where
  "py_upper s = concat (map upper_char s)"

definition is_space :: "char \<Rightarrow> bool" where
  "is_space c = (let n = code_of c in
     (9 \<le> n \<and> n \<le> 13) \<or> (28 \<le> n \<and> n \<le> 32) \<or> n = 133 \<or> n = 160)"

definition py_strip :: "string \<Rightarrow> string" where
  "py_strip s = rev (dropWhile is_space (rev (dropWhile is_space s)))"

section \<open>Documents\<close>

definition opt_int :: "int option \<Rightarrow> json" where
  "opt_int v = (case v of None \<Rightarrow> JNull | Some i \<Rightarrow> JInt i)"

text \<open>\<open>metadata or {}\<close>.\<close>

definition metadata_or_empty :: "json option \<Rightarrow> json" where
  "metadata_or_empty m = (case m of None \<Rightarrow> JObj [] | Some j \<Rightarrow> if truthy j then j else JObj [])"

definition document :: "string \<Rightarrow> string \<Rightarrow> string \<Rightarrow> json dict \<Rightarrow> json dict" where
  "document document_id now kind fields =
     dict_update
       [(''_id'', JStr document_id), (''document_id'', JStr document_id), (''kind'', JStr kind),
        (''created_at'', JStr now)] fields"

record payload_snapshot_args =
  ps_namespace :: string
  ps_service_name :: string
  ps_http_method :: string
  ps_route_path :: string
  ps_payload :: json
  ps_fingerprint :: string
  ps_classification :: string
  ps_source :: string
  ps_schema_version :: "int option"
  ps_metadata :: "json option"

definition payload_snapshot_document :: "string \<Rightarrow> string \<Rightarrow> payload_snapshot_args \<Rightarrow> json dict" where
  "payload_snapshot_document document_id now a =
     document document_id now ''payload_snapshot''
       [(''namespace'', JStr (ps_namespace a)), (''service_name'', JStr (ps_service_name a)),
        (''http_method'', JStr (ps_http_method a)), (''route_path'', JStr (ps_route_path a)),
        (''payload'', ps_payload a), (''fingerprint'', JStr (ps_fingerprint a)),
        (''classification'', JStr (ps_classification a)), (''source'', JStr (ps_source a)),
        (''schema_version'', opt_int (ps_schema_version a)), (''metadata'', metadata_or_empty (ps_metadata a))]"

record schema_diff_args =
  sd_endpoint_id :: string
  sd_endpoint_name :: string
  sd_namespace :: string
  sd_service_name :: string
  sd_http_method :: string
  sd_route_path :: string
  sd_old_fingerprint :: string
  sd_new_fingerprint :: string
  sd_old_version :: int
  sd_new_version :: int
  sd_classification :: string
  sd_diffs :: "json list"
  sd_source :: string

definition schema_diff_document :: "string \<Rightarrow> string \<Rightarrow> schema_diff_args \<Rightarrow> json dict" where
  "schema_diff_document document_id now a =
     document document_id now ''schema_diff''
       [(''endpoint_id'', JStr (sd_endpoint_id a)), (''endpoint_name'', JStr (sd_endpoint_name a)),
        (''namespace'', JStr (sd_namespace a)), (''service_name'', JStr (sd_service_name a)),
        (''http_method'', JStr (sd_http_method a)), (''route_path'', JStr (sd_route_path a)),
        (''old_fingerprint'', JStr (sd_old_fingerprint a)), (''new_fingerprint'', JStr (sd_new_fingerprint a)),
        (''old_version'', JInt (sd_old_version a)), (''new_version'', JInt (sd_new_version a)),
        (''classification'', JStr (sd_classification a)), (''diffs'', JList (sd_diffs a)),
        (''source'', JStr (sd_source a))]"

record validation_error_args =
  ve_source :: string
  ve_path :: string
  ve_errors :: "json list"
  ve_raw_body :: string
  ve_metadata :: "json option"

definition validation_error_document :: "string \<Rightarrow> string \<Rightarrow> validation_error_args \<Rightarrow> json dict" where
  "validation_error_document document_id now a =
     document document_id now ''validation_error''
       [(''source'', JStr (ve_source a)), (''path'', JStr (ve_path a)), (''errors'', JList (ve_errors a)),
        (''raw_body'', JStr (ve_raw_body a)), (''metadata'', metadata_or_empty (ve_metadata a))]"

record replay_artifact_args =
  rp_source :: string
  rp_artifact_type :: string
  rp_payload :: json
  rp_metadata :: "json option"

definition replay_artifact_document :: "string \<Rightarrow> string \<Rightarrow> replay_artifact_args \<Rightarrow> json dict" where
  "replay_artifact_document document_id now a =
     document document_id now ''replay_artifact''
       [(''source'', JStr (rp_source a)), (''artifact_type'', JStr (rp_artifact_type a)),
        (''payload'', rp_payload a), (''metadata'', metadata_or_empty (rp_metadata a))]"

section \<open>The in-memory store\<close>

type_synonym doc_store = "json dict dict dict"

definition empty_store :: doc_store where
  "empty_store = [(''payload_snapshots'', []), (''schema_diffs'', []), (''validation_errors'', []),
     (''replay_artifacts'', [])]"

definition str_field :: "string \<Rightarrow> json dict \<Rightarrow> string" where
  "str_field k d = (case map_of d k of Some (JStr s) \<Rightarrow> s | _ \<Rightarrow> [])"

text \<open>The collection is one of the four the store is created with.\<close>

definition collection_of :: "doc_store \<Rightarrow> string \<Rightarrow> json dict dict" where
  "collection_of st collection = (case map_of st collection of None \<Rightarrow> [] | Some c \<Rightarrow> c)"

definition mem_insert :: "string \<Rightarrow> json dict \<Rightarrow> doc_store \<Rightarrow> json dict \<times> doc_store" where
  "mem_insert collection doc st =
     (doc, AList.update collection (AList.update (str_field ''_id'' doc) doc (collection_of st collection)) st)"

text \<open>\<open>list.sort(key=..., reverse=True)\<close> keeps the order of equal elements.\<close>

definition sort_reverse :: "('a \<Rightarrow> 'k::linorder) \<Rightarrow> 'a list \<Rightarrow> 'a list" where
  "sort_reverse key xs = rev (sort_key key (rev xs))"

text \<open>\<open>docs[:limit]\<close>; a negative limit counts from the end.\<close>

definition slice_to :: "int \<Rightarrow> 'a list \<Rightarrow> 'a list" where
  "slice_to limit xs = (if 0 \<le> limit then take (nat limit) xs else take (length xs - nat (- limit)) xs)"

definition mem_list :: "string \<Rightarrow> int \<Rightarrow> doc_store \<Rightarrow> json dict list" where
  "mem_list collection limit st =
     slice_to limit (sort_reverse (str_field ''created_at'') (map snd (collection_of st collection)))"

definition mem_store_payload_snapshot ::
  "string \<Rightarrow> string \<Rightarrow> payload_snapshot_args \<Rightarrow> doc_store \<Rightarrow> json dict \<times> doc_store" where
  "mem_store_payload_snapshot i now a = mem_insert ''payload_snapshots'' (payload_snapshot_document i now a)"

definition mem_store_schema_diff ::
  "string \<Rightarrow> string \<Rightarrow> schema_diff_args \<Rightarrow> doc_store \<Rightarrow> json dict \<times> doc_store" where
  "mem_store_schema_diff i now a = mem_insert ''schema_diffs'' (schema_diff_document i now a)"

definition mem_store_validation_error ::
  "string \<Rightarrow> string \<Rightarrow> validation_error_args \<Rightarrow> doc_store \<Rightarrow> json dict \<times> doc_store" where
  "mem_store_validation_error i now a = mem_insert ''validation_errors'' (validation_error_document i now a)"

definition mem_store_replay_artifact ::
  "string \<Rightarrow> string \<Rightarrow> replay_artifact_args \<Rightarrow> doc_store \<Rightarrow> json dict \<times> doc_store" where
  "mem_store_replay_artifact i now a = mem_insert ''replay_artifacts'' (replay_artifact_document i now a)"

definition mem_get_payload_snapshot :: "string \<Rightarrow> doc_store \<Rightarrow> json dict option" where
  "mem_get_payload_snapshot document_id st = map_of (collection_of st ''payload_snapshots'') document_id"

section \<open>The Mongo store\<close>

text \<open>
  The calls made of the client: \<open>insert_one\<close> may raise, \<open>find_one\<close> takes a filter, and \<open>to_list\<close>
  runs the query that a cursor describes. A cursor is what the chain of calls has asked for: the
  collection of \<open>find()\<close>, the field and direction of \<open>sort\<close> if it was called, and the number of
  \<open>limit\<close>, 0 for none.
\<close>

record mongo_cursor =
  cu_collection :: string
  cu_sort :: "(string \<times> int) option"
  cu_limit :: int

record 's mongo_client =
  mc_insert_one :: "string \<Rightarrow> json dict \<Rightarrow> 's \<Rightarrow> py_exc + 's"
  mc_find_one :: "string \<Rightarrow> json dict \<Rightarrow> 's \<Rightarrow> json dict option"
  mc_to_list :: "mongo_cursor \<Rightarrow> int \<Rightarrow> 's \<Rightarrow> json dict list"

definition cursor_find :: "string \<Rightarrow> mongo_cursor" where
  "cursor_find collection = \<lparr>cu_collection = collection, cu_sort = None, cu_limit = 0\<rparr>"

definition cursor_sort :: "string \<Rightarrow> int \<Rightarrow> mongo_cursor \<Rightarrow> mongo_cursor" where
  "cursor_sort field direction cursor = cursor\<lparr>cu_sort := Some (field, direction)\<rparr>"

definition cursor_limit :: "int \<Rightarrow> mongo_cursor \<Rightarrow> mongo_cursor" where
  "cursor_limit n cursor = cursor\<lparr>cu_limit := n\<rparr>"

definition mongo_insert :: "'s mongo_client \<Rightarrow> string \<Rightarrow> json dict \<Rightarrow> 's \<Rightarrow> py_exc + json dict \<times> 's" where
  "mongo_insert cl collection doc s =
     (case mc_insert_one cl collection doc s of Inl e \<Rightarrow> Inl e | Inr s' \<Rightarrow> Inr (doc, s'))"

definition mongo_find :: "'s mongo_client \<Rightarrow> string \<Rightarrow> string \<Rightarrow> 's \<Rightarrow> json dict option" where
  "mongo_find cl collection document_id s = mc_find_one cl collection [(''_id'', JStr document_id)] s"

definition mongo_list :: "'s mongo_client \<Rightarrow> string \<Rightarrow> int \<Rightarrow> 's \<Rightarrow> json dict list" where
  "mongo_list cl collection limit s =
     (let cursor = cursor_limit limit (cursor_sort ''created_at'' (-1) (cursor_find collection)) in
      mc_to_list cl cursor limit s)"

definition mongo_store_payload_snapshot ::
  "'s mongo_client \<Rightarrow> string \<Rightarrow> string \<Rightarrow> payload_snapshot_args \<Rightarrow> 's \<Rightarrow> py_exc + json dict \<times> 's" where
  "mongo_store_payload_snapshot cl i now a =
     mongo_insert cl ''payload_snapshots'' (payload_snapshot_document i now a)"

definition mongo_store_schema_diff ::
  "'s mongo_client \<Rightarrow> string \<Rightarrow> string \<Rightarrow> schema_diff_args \<Rightarrow> 's \<Rightarrow> py_exc + json dict \<times> 's" where
  "mongo_store_schema_diff cl i now a = mongo_insert cl ''schema_diffs'' (schema_diff_document i now a)"

definition mongo_store_validation_error ::
  "'s mongo_client \<Rightarrow> string \<Rightarrow> string \<Rightarrow> validation_error_args \<Rightarrow> 's \<Rightarrow> py_exc + json dict \<times> 's" where
  "mongo_store_validation_error cl i now a =
     mongo_insert cl ''validation_errors'' (validation_error_document i now a)"

definition mongo_store_replay_artifact ::
  "'s mongo_client \<Rightarrow> string \<Rightarrow> string \<Rightarrow> replay_artifact_args \<Rightarrow> 's \<Rightarrow> py_exc + json dict \<times> 's" where
  "mongo_store_replay_artifact cl i now a =
     mongo_insert cl ''replay_artifacts'' (replay_artifact_document i now a)"

section \<open>Choosing the store\<close>

datatype store_choice = InMemory | Mongo string string

definition build_document_store :: "(string \<Rightarrow> string option) \<Rightarrow> py_exc + store_choice" where
  "build_document_store getenv =
     (let backend = py_lower (py_strip (case getenv ''DOCUMENT_STORE_BACKEND'' of None \<Rightarrow> ''memory'' | Some v \<Rightarrow> v)) in
      if backend \<in> {''memory'', ''noop'', ''none''} then Inr InMemory
      else if backend \<in> {''mongo'', ''cosmos'', ''cosmos_mongo''} then
        (case getenv ''DOCUMENT_STORE_URI'' of
           None \<Rightarrow> Inl (RuntimeError ''DOCUMENT_STORE_URI is required when DOCUMENT_STORE_BACKEND uses Mongo'')
         | Some uri \<Rightarrow>
             if uri = [] then
               Inl (RuntimeError ''DOCUMENT_STORE_URI is required when DOCUMENT_STORE_BACKEND uses Mongo'')
             else Inr (Mongo uri (case getenv ''DOCUMENT_STORE_DATABASE'' of
                                    None \<Rightarrow> ''driftgate_documents'' | Some d \<Rightarrow> d)))
      else Inl (ValueError (''Unsupported DOCUMENT_STORE_BACKEND: '' @ backend)))"

section \<open>The contract of a store\<close>

locale documents =
  fixes put :: "string \<Rightarrow> 'd \<Rightarrow> 'st \<Rightarrow> 'st"
    and get :: "'st \<Rightarrow> string \<Rightarrow> string \<Rightarrow> 'd option"
    and ident :: "'d \<Rightarrow> string"
  assumes get_put: "get (put c d st) c' i = (if c' = c \<and> i = ident d then Some d else get st c' i)"
begin

lemma get_put_same: "get (put c d st) c (ident d) = Some d"
  by (simp add: get_put)

lemma get_put_other: "i \<noteq> ident d \<Longrightarrow> get (put c d st) c' i = get st c' i"
  by (simp add: get_put)

fun put_all :: "(string \<times> 'd) list \<Rightarrow> 'st \<Rightarrow> 'st" where
  "put_all [] st = st"
| "put_all ((c, d) # ds) st = put_all ds (put c d st)"

lemma put_all_other: "i \<notin> (\<lambda>(c, d). ident d) ` set ds \<Longrightarrow> get (put_all ds st) c i = get st c i"
  by (induction ds st rule: put_all.induct) (auto simp: get_put)

lemma survives:
  "ident d \<notin> (\<lambda>(c, d). ident d) ` set ds \<Longrightarrow> get (put_all ds (put c d st)) c (ident d) = Some d"
  by (simp add: put_all_other get_put_same)

end

definition mem_get :: "doc_store \<Rightarrow> string \<Rightarrow> string \<Rightarrow> json dict option" where
  "mem_get st collection i = map_of (collection_of st collection) i"

lemma collection_insert:
  "collection_of (snd (mem_insert c doc st)) c' =
     (if c' = c then AList.update (str_field ''_id'' doc) doc (collection_of st c) else collection_of st c')"
  by (simp add: mem_insert_def collection_of_def map_of_update)

interpretation memory: documents "\<lambda>c d st. snd (mem_insert c d st)" mem_get "str_field ''_id''"
  by unfold_locales (simp add: mem_get_def collection_insert map_of_update)

lemma document_fields:
  assumes "distinct (keys fs)" "''_id'' \<notin> set (keys fs)"
  shows "map_of (document i now kind fs) = map_of
      [(''_id'', JStr i), (''document_id'', JStr i), (''kind'', JStr kind), (''created_at'', JStr now)] ++ map_of fs"
    and "str_field ''_id'' (document i now kind fs) = i"
proof -
  show eq: "map_of (document i now kind fs) = map_of
      [(''_id'', JStr i), (''document_id'', JStr i), (''kind'', JStr kind), (''created_at'', JStr now)] ++ map_of fs"
    using assms(1) by (simp add: document_def map_of_dict_update)
  have "map_of fs ''_id'' = None" using assms(2) by (simp add: map_of_eq_None_iff)
  then show "str_field ''_id'' (document i now kind fs) = i"
    unfolding str_field_def eq by (simp add: map_add_def)
qed

lemma payload_snapshot_id: "str_field ''_id'' (payload_snapshot_document i now a) = i"
  unfolding payload_snapshot_document_def by (rule document_fields(2)) simp_all

lemma sort_reverse_set [simp]: "set (sort_reverse key xs) = set xs" "length (sort_reverse key xs) = length xs"
  by (simp_all add: sort_reverse_def)

lemma sort_reverse_sorted: "sorted_wrt (\<lambda>x y. key y \<le> key x) (sort_reverse key xs)"
proof -
  have "sorted_wrt (\<lambda>x y. key x \<le> key y) (sort_key key (rev xs))"
    using sorted_sort_key [of key "rev xs"] by (simp add: sorted_map)
  then show ?thesis by (simp add: sort_reverse_def sorted_wrt_rev)
qed

lemma take_drop_sorted:
  "sorted_wrt P xs \<Longrightarrow> x \<in> set (take n xs) \<Longrightarrow> y \<in> set (drop n xs) \<Longrightarrow> P x y"
  by (metis append_take_drop_id sorted_wrt_append)

section \<open>Properties\<close>

text \<open>
  A stored payload snapshot is kept as it was stored: whatever else is stored later under other
  ids, in any collection, reading its id gives the same document, and the document holds every
  argument of the call under its name, with an empty dictionary for missing metadata.
\<close>

theorem stored_snapshot_survives:
  assumes "i \<notin> (\<lambda>(c, d). str_field ''_id'' d) ` set later"
  shows "mem_get_payload_snapshot i (memory.put_all later (snd (mem_store_payload_snapshot i now a st)))
      = Some (fst (mem_store_payload_snapshot i now a st))
    \<and> map_of (fst (mem_store_payload_snapshot i now a st)) =
      [''_id'' \<mapsto> JStr i, ''document_id'' \<mapsto> JStr i, ''kind'' \<mapsto> JStr ''payload_snapshot'', ''created_at'' \<mapsto> JStr now,
       ''namespace'' \<mapsto> JStr (ps_namespace a), ''service_name'' \<mapsto> JStr (ps_service_name a),
       ''http_method'' \<mapsto> JStr (ps_http_method a), ''route_path'' \<mapsto> JStr (ps_route_path a),
       ''payload'' \<mapsto> ps_payload a, ''fingerprint'' \<mapsto> JStr (ps_fingerprint a),
       ''classification'' \<mapsto> JStr (ps_classification a), ''source'' \<mapsto> JStr (ps_source a),
       ''schema_version'' \<mapsto> opt_int (ps_schema_version a), ''metadata'' \<mapsto> metadata_or_empty (ps_metadata a)]"
proof
  let ?d = "payload_snapshot_document i now a"
  show "mem_get_payload_snapshot i (memory.put_all later (snd (mem_store_payload_snapshot i now a st)))
      = Some (fst (mem_store_payload_snapshot i now a st))"
    using memory.survives [of ?d later "''payload_snapshots''" st] assms
    by (simp add: mem_store_payload_snapshot_def mem_get_payload_snapshot_def mem_get_def payload_snapshot_id mem_insert_def)
  have "fst (mem_store_payload_snapshot i now a st) = ?d"
    by (simp add: mem_store_payload_snapshot_def mem_insert_def)
  moreover have "map_of ?d = map_of
      [(''_id'', JStr i), (''document_id'', JStr i), (''kind'', JStr ''payload_snapshot''), (''created_at'', JStr now)] ++ map_of
       [(''namespace'', JStr (ps_namespace a)), (''service_name'', JStr (ps_service_name a)),
        (''http_method'', JStr (ps_http_method a)), (''route_path'', JStr (ps_route_path a)),
        (''payload'', ps_payload a), (''fingerprint'', JStr (ps_fingerprint a)),
        (''classification'', JStr (ps_classification a)), (''source'', JStr (ps_source a)),
        (''schema_version'', opt_int (ps_schema_version a)), (''metadata'', metadata_or_empty (ps_metadata a))]"
    unfolding payload_snapshot_document_def by (rule document_fields(1)) simp_all
  ultimately show "map_of (fst (mem_store_payload_snapshot i now a st)) =
      [''_id'' \<mapsto> JStr i, ''document_id'' \<mapsto> JStr i, ''kind'' \<mapsto> JStr ''payload_snapshot'', ''created_at'' \<mapsto> JStr now,
       ''namespace'' \<mapsto> JStr (ps_namespace a), ''service_name'' \<mapsto> JStr (ps_service_name a),
       ''http_method'' \<mapsto> JStr (ps_http_method a), ''route_path'' \<mapsto> JStr (ps_route_path a),
       ''payload'' \<mapsto> ps_payload a, ''fingerprint'' \<mapsto> JStr (ps_fingerprint a),
       ''classification'' \<mapsto> JStr (ps_classification a), ''source'' \<mapsto> JStr (ps_source a),
       ''schema_version'' \<mapsto> opt_int (ps_schema_version a), ''metadata'' \<mapsto> metadata_or_empty (ps_metadata a)]"
    by (simp add: fun_eq_iff map_add_def)
qed

text \<open>
  A listing gives the most recent documents of a collection: no more than the limit, all of them
  when they fit, newest first, and nothing left out is newer than anything listed.
\<close>

theorem listing_is_most_recent:
  assumes "0 \<le> limit"
  shows "length (mem_list c limit st) = min (nat limit) (length (collection_of st c)) \<and>
    set (mem_list c limit st) \<subseteq> snd ` set (collection_of st c) \<and>
    sorted_wrt (\<lambda>x y. str_field ''created_at'' y \<le> str_field ''created_at'' x) (mem_list c limit st) \<and>
    (\<forall>x \<in> set (mem_list c limit st). \<forall>y \<in> snd ` set (collection_of st c) - set (mem_list c limit st).
       str_field ''created_at'' y \<le> str_field ''created_at'' x)"
proof -
  let ?xs = "sort_reverse (str_field ''created_at'') (map snd (collection_of st c))"
  have eq: "mem_list c limit st = take (nat limit) ?xs" using assms by (simp add: mem_list_def slice_to_def)
  have s: "sorted_wrt (\<lambda>x y. str_field ''created_at'' y \<le> str_field ''created_at'' x) ?xs"
    by (rule sort_reverse_sorted)
  have "str_field ''created_at'' y \<le> str_field ''created_at'' x"
    if "x \<in> set (take (nat limit) ?xs)" "y \<in> snd ` set (collection_of st c) - set (take (nat limit) ?xs)" for x y
  proof -
    have "set ?xs = set (take (nat limit) ?xs) \<union> set (drop (nat limit) ?xs)"
      by (metis append_take_drop_id set_append)
    with that(2) have "y \<in> set (drop (nat limit) ?xs)" by auto
    then show ?thesis by (rule take_drop_sorted [OF s that(1)])
  qed
  moreover have "set (take (nat limit) ?xs) \<subseteq> set ?xs" by (rule set_take_subset)
  ultimately show ?thesis using s by (simp add: eq sorted_wrt_take)
qed

definition example_snapshot :: payload_snapshot_args where
  "example_snapshot = \<lparr>ps_namespace = ''default'', ps_service_name = ''users'', ps_http_method = ''GET'',
     ps_route_path = ''/v1'', ps_payload = JObj [(''a'', JInt 1)], ps_fingerprint = ''f'',
     ps_classification = ''SAFE'', ps_source = ''runtime-track'', ps_schema_version = None, ps_metadata = None\<rparr>"

theorem stored_snapshot_survives_witness:
  "mem_get_payload_snapshot ''d1''
     (snd (mem_store_payload_snapshot ''d2'' ''t2'' example_snapshot
       (snd (mem_store_payload_snapshot ''d1'' ''t1'' example_snapshot empty_store))))
   = Some (fst (mem_store_payload_snapshot ''d1'' ''t1'' example_snapshot empty_store))"
  using stored_snapshot_survives [of "''d1''" "[(''payload_snapshots'', payload_snapshot_document ''d2'' ''t2'' example_snapshot)]"
      "''t1''" example_snapshot empty_store]
  by (simp add: payload_snapshot_id) (simp add: mem_store_payload_snapshot_def)

theorem listing_is_most_recent_witness:
  "length (mem_list ''payload_snapshots'' 1 (snd (mem_store_payload_snapshot ''d1'' ''t1'' example_snapshot empty_store))) = 1"
  using listing_is_most_recent [of 1 "''payload_snapshots''" "snd (mem_store_payload_snapshot ''d1'' ''t1'' example_snapshot empty_store)"]
  by (simp add: mem_store_payload_snapshot_def collection_insert) (simp add: collection_of_def empty_store_def)

end
