(* ===== verification/Fetch.thy ===== *)
theory Fetch
  imports Document_Store
begin

text \<open>
  The monitor's inputs: one request of an endpoint (\<open>backend/app/core/fetcher.py\<close>), the registry file
  of endpoints (\<open>backend/app/core/registry_loader.py\<close>) and the key of its lock
  (\<open>backend/app/core/locking.py\<close>). What the HTTP client did is a value.
\<close>

section \<open>Fetching\<close>

text \<open>
  \<open>rs_json\<close> is what \<open>response.json()\<close> returns, \<open>None\<close> when it raises a \<open>ValueError\<close>; Python's \<open>None\<close> as
  a body is \<open>JNull\<close>, also when the response was the JSON text \<open>null\<close>. Every exception that the two
  handlers do not name, raised by the request (an \<open>httpx.InvalidURL\<close>, the \<open>TypeError\<close> of a header
  whose value is no string) or by reading the response, is \<open>Other_exception\<close>: it leaves the function.
\<close>

record response =
  rs_status :: int
  rs_content_type :: string
  rs_size :: nat
  rs_json :: "json option"

datatype http_outcome =
    Answered response
  | Timeout_exception
  | Request_error string string   \<comment> \<open>the exception's type name and text\<close>
  | Other_exception py_exc

record FetchResult =
  fr_status_code :: int
  fr_response_time_ms :: int
  fr_response_size_bytes :: nat
  fr_body :: json
  fr_error :: "string option"

definition fetch_ok :: "FetchResult \<Rightarrow> bool" where
  "fetch_ok f = (fr_error f = None \<and> fr_body f \<noteq> JNull)"

definition fetch_endpoint :: "int \<Rightarrow> int \<Rightarrow> http_outcome \<Rightarrow> py_exc + FetchResult" where
  "fetch_endpoint timeout_sec elapsed_ms outcome =
     (case outcome of
        Answered r \<Rightarrow>
          let is_json_ct = occurs_in ''json'' (rs_content_type r) \<or> occurs_in ''javascript'' (rs_content_type r);
              failed = (\<lambda>e. \<lparr>fr_status_code = rs_status r, fr_response_time_ms = elapsed_ms,
                 fr_response_size_bytes = rs_size r, fr_body = JNull, fr_error = Some e\<rparr>) in
          (case rs_json r of
             None \<Rightarrow>
               if \<not> is_json_ct \<and> rs_status r < 300 then
                 Inr (failed (''response is not valid JSON (content-type: '' @ rs_content_type r @ '')''))
               else Inr (failed (''JSON decode error (status '' @ show_int (rs_status r) @ '')''))
           | Some body \<Rightarrow>
               if 400 \<le> rs_status r then Inr (failed (''HTTP '' @ show_int (rs_status r)))
               else Inr \<lparr>fr_status_code = rs_status r, fr_response_time_ms = elapsed_ms,
                      fr_response_size_bytes = rs_size r, fr_body = body, fr_error = None\<rparr>)
      | Timeout_exception \<Rightarrow>
          Inr \<lparr>fr_status_code = 0, fr_response_time_ms = elapsed_ms, fr_response_size_bytes = 0, fr_body = JNull,
           fr_error = Some (''timeout after '' @ show_int timeout_sec @ ''s'')\<rparr>
      | Request_error name txt \<Rightarrow>
          Inr \<lparr>fr_status_code = 0, fr_response_time_ms = elapsed_ms, fr_response_size_bytes = 0, fr_body = JNull,
           fr_error = Some (''request error: '' @ name @ '': '' @ txt)\<rparr>
      | Other_exception e \<Rightarrow> Inl e)"

section \<open>The registry file\<close>

text \<open>
  An entry of \<open>apis\<close>, its values of the documented types; an absent key is \<open>None\<close>.
  \<open>os.path.expandvars\<close> reads the environment and is a parameter.
\<close>

record registry_entry =
  re_name :: "string option"
  re_provider :: "string option"
  re_url :: "string option"
  re_method :: "string option"
  re_headers :: "json option"
  re_is_active :: "bool option"

record ApiEndpoint =
  ep_id :: string
  ep_name :: string
  ep_provider :: string
  ep_url :: string
  ep_method :: string
  ep_headers :: json
  ep_is_active :: bool

fun expand_env :: "(string \<Rightarrow> string) \<Rightarrow> json \<Rightarrow> json" where
  "expand_env expandvars (JStr s) = JStr (expandvars s)"
| "expand_env expandvars (JObj kvs) = JObj (map (\<lambda>(k, v). (k, expand_env expandvars v)) kvs)"
| "expand_env expandvars v = v"

definition entry_headers :: "(string \<Rightarrow> string) \<Rightarrow> registry_entry \<Rightarrow> json" where
  "entry_headers expandvars entry =
     expand_env expandvars
       (case re_headers entry of None \<Rightarrow> JObj [] | Some h \<Rightarrow> if truthy h then h else JObj [])"

definition entry_method :: "registry_entry \<Rightarrow> string" where
  "entry_method entry =
     py_upper (case re_method entry of None \<Rightarrow> ''GET'' | Some m \<Rightarrow> if m = [] then ''GET'' else m)"

definition entry_active :: "registry_entry \<Rightarrow> bool" where
  "entry_active entry = (case re_is_active entry of None \<Rightarrow> True | Some b \<Rightarrow> b)"

text \<open>
  The rows as the session holds them: the objects read at the start are changed in place, new ones
  are appended. \<open>existing\<close> is the dictionary by name made before the loop. The result is the ids of
  the entries' objects, in order. A missing key raises before anything is flushed.
\<close>

definition set_endpoint :: "string \<Rightarrow> string \<Rightarrow> string \<Rightarrow> json \<Rightarrow> bool \<Rightarrow> ApiEndpoint \<Rightarrow> ApiEndpoint" where
  "set_endpoint provider url http_method headers active ep =
     ep\<lparr>ep_provider := provider, ep_url := url, ep_method := http_method, ep_headers := headers,
        ep_is_active := active\<rparr>"

fun upsert_entries ::
  "(string \<Rightarrow> string) \<Rightarrow> (nat \<Rightarrow> string) \<Rightarrow> string dict \<Rightarrow> registry_entry list \<Rightarrow> nat \<Rightarrow> ApiEndpoint list
     \<Rightarrow> py_exc + string list \<times> nat \<times> ApiEndpoint list" where
  "upsert_entries expandvars uuids existing [] next_id rows = Inr ([], next_id, rows)"
| "upsert_entries expandvars uuids existing (entry # entries) next_id rows =
     (case (re_name entry, re_provider entry, re_url entry) of
        (None, _, _) \<Rightarrow> Inl (KeyError ''name'')
      | (Some name, None, _) \<Rightarrow> Inl (KeyError ''provider'')
      | (Some name, Some provider, None) \<Rightarrow> Inl (KeyError ''url'')
      | (Some name, Some provider, Some url) \<Rightarrow>
          let headers = entry_headers expandvars entry; m = entry_method entry; active = entry_active entry in
          (case map_of existing name of
             Some i \<Rightarrow>
               (case upsert_entries expandvars uuids existing entries next_id
                   (map (\<lambda>r. if ep_id r = i then set_endpoint provider url m headers active r else r) rows) of
                  Inl e \<Rightarrow> Inl e
                | Inr (ids, rest) \<Rightarrow> Inr (i # ids, rest))
           | None \<Rightarrow>
               (case upsert_entries expandvars uuids existing entries (Suc next_id)
                   (rows @ [\<lparr>ep_id = uuids next_id, ep_name = name, ep_provider = provider, ep_url = url,
                             ep_method = m, ep_headers = headers, ep_is_active = active\<rparr>]) of
                  Inl e \<Rightarrow> Inl e
                | Inr (ids, rest) \<Rightarrow> Inr (uuids next_id # ids, rest))))"

text \<open>The flush inserts the new rows, which the unique constraint on the name may reject.\<close>

definition upsert_endpoints ::
  "(string \<Rightarrow> string) \<Rightarrow> (nat \<Rightarrow> string) \<Rightarrow> registry_entry list \<Rightarrow> nat \<Rightarrow> ApiEndpoint list
     \<Rightarrow> py_exc + ApiEndpoint list \<times> nat \<times> ApiEndpoint list" where
  "upsert_endpoints expandvars uuids entries next_id rows =
     (case upsert_entries expandvars uuids (map (\<lambda>r. (ep_name r, ep_id r)) rows) entries next_id rows of
        Inl e \<Rightarrow> Inl e
      | Inr (ids, next_id', rows') \<Rightarrow>
          if distinct (map ep_name rows') then
            Inr (filter ep_is_active (concat (map (\<lambda>i. filter (\<lambda>r. ep_id r = i) rows') ids)), next_id', rows')
          else Inl (IntegrityError ''api_endpoints.name''))"

section \<open>The lock key\<close>

text \<open>
  \<open>int.from_bytes(digest[:8], "big", signed=True)\<close>; the digest is a list of bytes.
\<close>

definition from_bytes :: "nat list \<Rightarrow> nat" where
  "from_bytes bs = fold (\<lambda>b acc. 256 * acc + b) bs 0"

definition advisory_key :: "(string \<Rightarrow> nat list) \<Rightarrow> string \<Rightarrow> int" where
  "advisory_key digest name =
     (let n = int (from_bytes (take 8 (digest name))); bits = 8 * length (take 8 (digest name)) in
      if 2 * n < 2 ^ bits then n else n - 2 ^ bits)"

end
