(* ===== verification/Monitor.thy ===== *)
theory Monitor
  imports Database Schema_Hash Fetch
begin

text \<open>
  \<open>backend/app/workers/monitor_runner.py\<close>: one run of the scheduled monitor over the endpoints of the
  registry file, in one transaction: fetch, infer, hash, compare with the endpoint's previous
  snapshot, sweep old samples, and record the run. The endpoints are processed one after the other,
  in the order \<open>asyncio.gather\<close> starts them; that the tasks share a database session, which the
  library does not allow, is not modelled.
\<close>

section \<open>Tables\<close>

text \<open>
  A JSONB column is \<open>None\<close> for SQL NULL and \<open>Some v\<close> for a JSON value. What SQLAlchemy stores when
  \<open>None\<close> is assigned to such an attribute is \<open>me_none\<close>: by its documentation the JSON value \<open>null\<close>,
  unless the column type was declared with \<open>none_as_null\<close>, which these are not.
\<close>

record SchemaSnapshot =
  ss_id :: uuid
  ss_endpoint_id :: uuid
  ss_run_id :: uuid
  ss_schema_hash :: string
  ss_status_code :: int
  ss_response_time_ms :: int
  ss_response_size_bytes :: nat
  ss_schema_json :: "json option"
  ss_raw_sample :: "json option"
  ss_fetch_error :: "string option"
  ss_created_at :: int

record SchemaDiff =
  sf_id :: uuid
  sf_endpoint_id :: uuid
  sf_old_snapshot_id :: "uuid option"
  sf_new_snapshot_id :: uuid
  sf_severity :: string
  sf_change_type :: string
  sf_path :: string
  sf_old_type :: "string option"
  sf_new_type :: "string option"
  sf_old_value :: "json option"
  sf_new_value :: "json option"
  sf_message :: string
  sf_created_at :: int

record MonitorRun =
  mr_id :: uuid
  mr_started_at :: int
  mr_finished_at :: "int option"
  mr_status :: string
  mr_endpoints_checked :: nat
  mr_snapshots_created :: nat
  mr_diffs_detected :: nat
  mr_error_message :: "string option"

record monitor_db =
  md_endpoints :: "ApiEndpoint list"
  md_runs :: "MonitorRun list"
  md_snapshots :: "SchemaSnapshot list"
  md_diffs :: "SchemaDiff list"
  md_uuid :: "nat \<Rightarrow> uuid"
  md_next :: nat
  md_now :: int
  md_jsonb :: "json \<Rightarrow> json"

record monitor_env =
  me_sha :: "string \<Rightarrow> string"
  me_loads :: "string \<Rightarrow> json option"
  me_max_bytes :: nat
  me_retention :: nat
  me_none :: "json option"
  me_expandvars :: "string \<Rightarrow> string"
  me_timeout :: int
  me_request :: "string \<Rightarrow> string \<Rightarrow> json \<Rightarrow> int \<times> http_outcome"   \<comment> \<open>url, method, headers\<close>
  me_clock :: int

text \<open>
  \<open>me_request\<close> is what the HTTP client did with a request and how long it took, \<open>me_timeout\<close> the
  configured timeout; \<open>fetch_endpoint\<close> makes a result of it, or raises.
\<close>

definition endpoint_fetch :: "monitor_env \<Rightarrow> ApiEndpoint \<Rightarrow> py_exc + FetchResult" where
  "endpoint_fetch env ep =
     (let (elapsed_ms, outcome) =
        me_request env (ep_url ep) (ep_method ep) (if truthy (ep_headers ep) then ep_headers ep else JObj []) in
      fetch_endpoint (me_timeout env) elapsed_ms outcome)"

definition next_uuid :: "monitor_db \<Rightarrow> uuid" where
  "next_uuid db = md_uuid db (md_next db)"

text \<open>An attribute of a JSONB column: a value, or \<open>None\<close>.\<close>

definition bind_json :: "monitor_env \<Rightarrow> monitor_db \<Rightarrow> json \<Rightarrow> json option" where
  "bind_json env db v = (if v = JNull then me_none env else Some (md_jsonb db v))"

section \<open>Schemas as JSON\<close>

text \<open>\<open>n.model_dump()\<close>, and \<open>SchemaNode(**n)\<close> on what it returns; anything else raises.\<close>

definition model_dump :: "SchemaNode \<Rightarrow> json" where
  "model_dump n =
     JObj [(''path'', JStr (nd_path n)), (''type'', JStr (nd_type n)), (''required'', JBool (nd_required n)),
           (''nullable'', JBool (nd_nullable n)), (''array_item_type'', opt_text (nd_array_item_type n)),
           (''enum_values'', opt_texts (nd_enum_values n)), (''example_value'', nd_example_value n)]"

definition schema_json :: "SchemaNode list \<Rightarrow> json" where
  "schema_json nodes = JList (map model_dump nodes)"

fun text_of :: "json \<Rightarrow> string option" where
  "text_of (JStr s) = Some s"
| "text_of _ = None"

fun texts_of :: "json list \<Rightarrow> string list option" where
  "texts_of [] = Some []"
| "texts_of (v # vs) = (case (text_of v, texts_of vs) of (Some s, Some ss) \<Rightarrow> Some (s # ss) | _ \<Rightarrow> None)"

definition get_text :: "json \<Rightarrow> string \<Rightarrow> string option" where
  "get_text d k = (case jget d k of Some v \<Rightarrow> text_of v | None \<Rightarrow> None)"

definition get_bool :: "json \<Rightarrow> string \<Rightarrow> bool \<Rightarrow> bool option" where
  "get_bool d k dflt = (case jget d k of Some (JBool b) \<Rightarrow> Some b | None \<Rightarrow> Some dflt | _ \<Rightarrow> None)"

definition get_opt_text :: "json \<Rightarrow> string \<Rightarrow> string option option" where
  "get_opt_text d k = (case jget d k of Some JNull \<Rightarrow> Some None | None \<Rightarrow> Some None | Some v \<Rightarrow> map_option Some (text_of v))"

definition get_opt_texts :: "json \<Rightarrow> string \<Rightarrow> string list option option" where
  "get_opt_texts d k =
     (case jget d k of Some JNull \<Rightarrow> Some None | None \<Rightarrow> Some None
      | Some (JList vs) \<Rightarrow> map_option Some (texts_of vs) | _ \<Rightarrow> None)"

definition schema_node :: "json \<Rightarrow> py_exc + SchemaNode" where
  "schema_node d =
     (case (get_text d ''path'', get_text d ''type'', get_bool d ''required'' True, get_bool d ''nullable'' False,
            get_opt_text d ''array_item_type'', get_opt_texts d ''enum_values'') of
        (Some path, Some ty, Some required, Some nullable, Some item_type, Some enum_values) \<Rightarrow>
          if ty \<in> set json_types then
            Inr \<lparr>nd_path = path, nd_type = ty, nd_required = required, nd_nullable = nullable,
                 nd_array_item_type = item_type, nd_enum_values = enum_values,
                 nd_example_value = (case jget d ''example_value'' of None \<Rightarrow> JNull | Some v \<Rightarrow> v)\<rparr>
          else Inl (ValueError ''SchemaNode'')
      | _ \<Rightarrow> Inl (ValueError ''SchemaNode''))"

text \<open>\<open>[SchemaNode(**n) for n in (stored or [])]\<close>.\<close>

definition stored_nodes :: "json option \<Rightarrow> py_exc + SchemaNode list" where
  "stored_nodes stored =
     (case stored of
        None \<Rightarrow> Inr []
      | Some v \<Rightarrow>
          if \<not> truthy v then Inr []
          else (case v of JList ds \<Rightarrow> map_exc schema_node ds | _ \<Rightarrow> Inl (TypeError ''SchemaNode'')))"

section \<open>One endpoint\<close>

record endpoint_result =
  rt_endpoint_id :: uuid
  rt_name :: string
  rt_snapshot_created :: bool
  rt_diffs_detected :: nat
  rt_error :: "string option"

definition add_snapshot :: "SchemaSnapshot \<Rightarrow> monitor_db \<Rightarrow> monitor_db" where
  "add_snapshot s db = db\<lparr>md_snapshots := md_snapshots db @ [s], md_next := Suc (md_next db)\<rparr>"

definition get_prior_snapshot :: "monitor_db \<Rightarrow> uuid \<Rightarrow> uuid \<Rightarrow> SchemaSnapshot option" where
  "get_prior_snapshot db endpoint_id current_id =
     first_row (order_desc ss_created_at
       (filter (\<lambda>s. ss_endpoint_id s = endpoint_id \<and> ss_id s \<noteq> current_id \<and> ss_schema_json s \<noteq> None)
         (md_snapshots db)))"

definition fetch_error_prefix :: string where
  "fetch_error_prefix = ''FETCH_ERROR:''"

definition starts_with :: "string \<Rightarrow> string \<Rightarrow> bool" where
  "starts_with p s = (take (length p) s = p)"

definition add_diff :: "monitor_env \<Rightarrow> uuid \<Rightarrow> uuid \<Rightarrow> uuid \<Rightarrow> Diff \<Rightarrow> monitor_db \<Rightarrow> monitor_db" where
  "add_diff env endpoint_id prior_id snap_id d db =
     db\<lparr>md_diffs := md_diffs db @
         [\<lparr>sf_id = next_uuid db, sf_endpoint_id = endpoint_id, sf_old_snapshot_id = Some prior_id,
           sf_new_snapshot_id = snap_id, sf_severity = df_severity d, sf_change_type = df_change_type d,
           sf_path = df_path d, sf_old_type = df_old_type d, sf_new_type = df_new_type d,
           sf_old_value = bind_json env db (df_old_value d), sf_new_value = bind_json env db (df_new_value d),
           sf_message = df_message d, sf_created_at = md_now db\<rparr>],
       md_next := Suc (md_next db)\<rparr>"

definition process_endpoint ::
  "monitor_env \<Rightarrow> uuid \<Rightarrow> ApiEndpoint \<Rightarrow> monitor_db \<Rightarrow> (py_exc + endpoint_result) \<times> monitor_db" where
  "process_endpoint env run_id ep db =
     (let result = \<lparr>rt_endpoint_id = ep_id ep, rt_name = ep_name ep, rt_snapshot_created = False,
                    rt_diffs_detected = 0, rt_error = None\<rparr> in
      case endpoint_fetch env ep of Inl e \<Rightarrow> (Inl e, db) | Inr fetch \<Rightarrow>
      if \<not> fetch_ok fetch then
        (Inr (result\<lparr>rt_snapshot_created := True, rt_error := fr_error fetch\<rparr>),
         add_snapshot
           \<lparr>ss_id = next_uuid db, ss_endpoint_id = ep_id ep, ss_run_id = run_id,
            ss_schema_hash = fetch_error_prefix @ show_type (fr_error fetch),
            ss_status_code = fr_status_code fetch, ss_response_time_ms = fr_response_time_ms fetch,
            ss_response_size_bytes = fr_response_size_bytes fetch, ss_schema_json = me_none env,
            ss_raw_sample = me_none env, ss_fetch_error = fr_error fetch, ss_created_at = md_now db\<rparr> db)
      else
        let normalized_body = normalize (me_loads env) (me_max_bytes env) (fr_body fetch);
            nodes = infer_schema normalized_body;
            schema_hash = stable_schema_hash (me_sha env) nodes;
            snap = \<lparr>ss_id = next_uuid db, ss_endpoint_id = ep_id ep, ss_run_id = run_id,
              ss_schema_hash = schema_hash, ss_status_code = fr_status_code fetch,
              ss_response_time_ms = fr_response_time_ms fetch,
              ss_response_size_bytes = fr_response_size_bytes fetch,
              ss_schema_json = bind_json env db (schema_json nodes),
              ss_raw_sample = bind_json env db normalized_body, ss_fetch_error = None,
              ss_created_at = md_now db\<rparr>;
            db1 = add_snapshot snap db;
            result1 = result\<lparr>rt_snapshot_created := True\<rparr> in
        (case get_prior_snapshot db1 (ep_id ep) (ss_id snap) of
           None \<Rightarrow> (Inr result1, db1)
         | Some prior \<Rightarrow>
             if ss_schema_hash prior \<noteq> schema_hash \<and> \<not> starts_with fetch_error_prefix (ss_schema_hash prior) then
               (case stored_nodes (ss_schema_json prior) of
                  Inl e \<Rightarrow> (Inl e, db1)
                | Inr old_nodes \<Rightarrow>
                    (case diff_schemas old_nodes nodes of
                       Inl e \<Rightarrow> (Inl e, db1)
                     | Inr diffs \<Rightarrow>
                         (Inr (result1\<lparr>rt_diffs_detected := length diffs\<rparr>),
                          fold (add_diff env (ep_id ep) (ss_id prior) (ss_id snap)) diffs db1)))
             else (Inr result1, db1)))"

text \<open>\<open>asyncio.gather(..., return_exceptions=True)\<close>: every endpoint is processed, whatever the others did.\<close>

fun process_all ::
  "monitor_env \<Rightarrow> uuid \<Rightarrow> ApiEndpoint list \<Rightarrow> monitor_db \<Rightarrow> (py_exc + endpoint_result) list \<times> monitor_db" where
  "process_all env run_id [] db = ([], db)"
| "process_all env run_id (ep # eps) db =
     (let (r, db1) = process_endpoint env run_id ep db; (rs, db2) = process_all env run_id eps db1 in (r # rs, db2))"

section \<open>Retention\<close>

definition recent_ids :: "nat \<Rightarrow> uuid \<Rightarrow> SchemaSnapshot list \<Rightarrow> uuid list" where
  "recent_ids keep endpoint_id snaps =
     map ss_id (take keep (order_desc ss_created_at (filter (\<lambda>s. ss_endpoint_id s = endpoint_id) snaps)))"

definition sweep_endpoint :: "monitor_env \<Rightarrow> uuid \<Rightarrow> SchemaSnapshot list \<Rightarrow> SchemaSnapshot list" where
  "sweep_endpoint env endpoint_id snaps =
     (let keep_ids = recent_ids (me_retention env) endpoint_id snaps in
      if keep_ids = [] then snaps
      else update_rows (\<lambda>s. ss_endpoint_id s = endpoint_id \<and> ss_id s \<notin> set keep_ids \<and> ss_raw_sample s \<noteq> None)
        (\<lambda>s. s\<lparr>ss_raw_sample := me_none env\<rparr>) snaps)"

definition retention_sweep :: "monitor_env \<Rightarrow> monitor_db \<Rightarrow> monitor_db" where
  "retention_sweep env db =
     db\<lparr>md_snapshots := fold (sweep_endpoint env) (map ep_id (md_endpoints db)) (md_snapshots db)\<rparr>"

section \<open>A run\<close>

datatype run_outcome =
    Busy "uuid option"   \<comment> \<open>409, with the id of the run in flight\<close>
  | Finished uuid
  | Crashed py_exc

text \<open>\<open>str(exc)\<close>.\<close>

fun exc_text :: "py_exc \<Rightarrow> string" where
  "exc_text (TypeError m) = m" | "exc_text (ValueError m) = m" | "exc_text (KeyError m) = repr_str m"
| "exc_text (AttributeError m) = m" | "exc_text (RuntimeError m) = m" | "exc_text (HTTPException c m) = m"
| "exc_text (DBAPIError m) = m" | "exc_text (OtherError c m) = m"
| "exc_text JSONDecodeError = []" | "exc_text (SystemExit c) = show_int c" | "exc_text (IntegrityError m) = m"

definition running_run :: "monitor_db \<Rightarrow> MonitorRun option" where
  "running_run db = first_row (order_desc mr_started_at (filter (\<lambda>r. mr_status r = ''running'') (md_runs db)))"

definition finish_run :: "uuid \<Rightarrow> (MonitorRun \<Rightarrow> MonitorRun) \<Rightarrow> monitor_db \<Rightarrow> monitor_db" where
  "finish_run run_id f db = db\<lparr>md_runs := update_rows (\<lambda>r. mr_id r = run_id) f (md_runs db)\<rparr>"

definition ok_results :: "(py_exc + endpoint_result) list \<Rightarrow> endpoint_result list" where
  "ok_results rs = concat (map (\<lambda>r. case r of Inl _ \<Rightarrow> [] | Inr x \<Rightarrow> [x]) rs)"

definition run_status :: "(py_exc + endpoint_result) list \<Rightarrow> string" where
  "run_status rs =
     (if list_ex (\<lambda>r. case r of Inl _ \<Rightarrow> True | Inr x \<Rightarrow> (case rt_error x of None \<Rightarrow> False | Some e \<Rightarrow> e \<noteq> [])) rs
      then ''partial_failure'' else ''success'')"

text \<open>
  The database is the committed one, as every other session sees it. \<open>got_lock\<close> is the answer of
  \<open>pg_try_advisory_lock\<close>. The row of the run is inserted in the run's own transaction, so a rollback
  removes it before the failure is recorded; its id is not handed out again.
\<close>

definition run_monitor :: "monitor_env \<Rightarrow> bool \<Rightarrow> registry_entry list \<Rightarrow> monitor_db \<Rightarrow> run_outcome \<times> monitor_db" where
  "run_monitor env got_lock entries db =
     (if \<not> got_lock then (Busy (map_option mr_id (running_run db)), db)
      else
        let run_id = next_uuid db;
            db1 = db\<lparr>md_runs := md_runs db @
                [\<lparr>mr_id = run_id, mr_started_at = md_now db, mr_finished_at = None, mr_status = ''running'',
                  mr_endpoints_checked = 0, mr_snapshots_created = 0, mr_diffs_detected = 0,
                  mr_error_message = None\<rparr>], md_next := Suc (md_next db)\<rparr> in
        (case upsert_endpoints (me_expandvars env) (md_uuid db1) entries (md_next db1) (md_endpoints db1) of
           Inl e \<Rightarrow>
             (Crashed e, finish_run run_id
                (\<lambda>r. r\<lparr>mr_finished_at := Some (me_clock env), mr_status := ''failed'', mr_error_message := Some (exc_text e)\<rparr>)
                (db\<lparr>md_next := Suc (md_next db)\<rparr>))
         | Inr (endpoints, next_id, rows) \<Rightarrow>
             let db2 = db1\<lparr>md_endpoints := rows, md_next := next_id\<rparr>;
                 (results, db3) = process_all env run_id endpoints db2;
                 oks = ok_results results;
                 db4 = retention_sweep env db3 in
             (Finished run_id, finish_run run_id
                (\<lambda>r. r\<lparr>mr_finished_at := Some (me_clock env), mr_status := run_status results,
                       mr_endpoints_checked := length endpoints,
                       mr_snapshots_created := length (filter rt_snapshot_created oks),
                       mr_diffs_detected := sum_list (map rt_diffs_detected oks)\<rparr>) db4)))"

end
