(* ===== verification/Monitor_Runs.thy ===== *)
theory Monitor_Runs
  imports Monitor
begin

text \<open>
  What the monitor's runs guarantee: the round trip of stored schemas, what is recorded for one
  endpoint, the outcome of a whole run and of a failed one, the retention of samples, and the
  database as other sessions see it, over any sequence of runs.
\<close>

section \<open>Schemas read back\<close>

text \<open>
  JSONB keeps a value up to the order of keys. That is so of numbers as the model has them; a float
  whose text has an exponent, which PostgreSQL writes out and Python then reads as an integer, is
  beyond it.
\<close>

definition keeps_value :: "(json \<Rightarrow> json) \<Rightarrow> bool" where
  "keeps_value f \<longleftrightarrow> (\<forall>j. wf_json j \<longrightarrow> wf_json (f j) \<and> sort_keys (f j) = sort_keys j)"

lemma sort_keys_simple:
  "is_scalar v \<Longrightarrow> sort_keys v = v" "is_scalar v \<Longrightarrow> sort_keys w = v \<Longrightarrow> w = v"
  by (cases v; simp) (cases w; auto)

lemma sort_keys_texts: "sort_keys w = JList (map JStr xs) \<Longrightarrow> w = JList (map JStr xs)"
proof -
  assume w: "sort_keys w = JList (map JStr xs)"
  then obtain vs where vs: "w = JList vs" "map sort_keys vs = map JStr xs" by (cases w) auto
  from vs(2) have "vs = map JStr xs"
  proof (induction vs arbitrary: xs)
    case (Cons v vs)
    then show ?case by (cases xs) (auto dest: sort_keys_simple(2) [rotated])
  qed simp
  with vs show ?thesis by simp
qed

lemma jget_sort_keys: "wf_json d \<Longrightarrow> jget (sort_keys d) k = map_option sort_keys (jget d k)"
proof (cases d)
  case (JObj kvs)
  assume "wf_json d"
  then have "distinct (keys kvs)" using JObj by simp
  then show ?thesis using JObj
    by (simp add: sort_items_map [symmetric] map_of_map)
qed simp_all

lemma opt_text_simple: "is_scalar (opt_text t)"
  by (cases t) (simp_all add: opt_text_def)

lemma jget_model_dump:
  assumes "wf_json d" "sort_keys d = sort_keys (model_dump n)" "is_scalar (nd_example_value n)"
  shows "jget d ''path'' = Some (JStr (nd_path n))" "jget d ''type'' = Some (JStr (nd_type n))"
    "jget d ''required'' = Some (JBool (nd_required n))" "jget d ''nullable'' = Some (JBool (nd_nullable n))"
    "jget d ''array_item_type'' = Some (opt_text (nd_array_item_type n))"
    "jget d ''enum_values'' = Some (opt_texts (nd_enum_values n))"
    "jget d ''example_value'' = Some (nd_example_value n)"
proof -
  have wf: "wf_json (model_dump n)"
    using assms(3) by (cases "nd_example_value n")
      (auto simp: model_dump_def opt_text_def opt_texts_def list_all_iff split: option.split)
  have same: "map_option sort_keys (jget d k) = map_option sort_keys (jget (model_dump n) k)" for k
    using jget_sort_keys [OF assms(1)] jget_sort_keys [OF wf] assms(2) by metis
  have simple: "jget d k = Some v" if "jget (model_dump n) k = Some v" "is_scalar v" for k v
  proof -
    have "map_option sort_keys (jget d k) = Some v" using same [of k] that(1) sort_keys_simple(1) [OF that(2)] by simp
    then obtain w where "jget d k = Some w" "sort_keys w = v" by auto
    with sort_keys_simple(2) [OF that(2)] show ?thesis by simp
  qed
  show "jget d ''path'' = Some (JStr (nd_path n))" "jget d ''type'' = Some (JStr (nd_type n))"
    "jget d ''required'' = Some (JBool (nd_required n))" "jget d ''nullable'' = Some (JBool (nd_nullable n))"
    "jget d ''array_item_type'' = Some (opt_text (nd_array_item_type n))"
    "jget d ''example_value'' = Some (nd_example_value n)"
    by (rule simple; simp add: model_dump_def assms(3) opt_text_simple)+
  show "jget d ''enum_values'' = Some (opt_texts (nd_enum_values n))"
  proof (cases "nd_enum_values n")
    case None
    then show ?thesis using simple [of "''enum_values''" JNull] by (simp add: model_dump_def opt_texts_def)
  next
    case (Some xs)
    then have "map_option sort_keys (jget d ''enum_values'') = Some (JList (map JStr xs))"
      using same [of "''enum_values''"] by (simp add: model_dump_def opt_texts_def comp_def)
    then show ?thesis using Some sort_keys_texts by (auto simp: opt_texts_def)
  qed
qed

lemma texts_of_map: "texts_of (map JStr xs) = Some xs"
  by (induction xs) auto

lemma schema_node_dump:
  assumes "wf_json d" "sort_keys d = sort_keys (model_dump n)" "node_ok n"
  shows "schema_node d = Inr n"
proof -
  have ex: "is_scalar (nd_example_value n)" using assms(3) by (cases "nd_example_value n") (simp_all add: node_ok_def)
  note g = jget_model_dump [OF assms(1,2) ex]
  have "get_opt_text d ''array_item_type'' = Some (nd_array_item_type n)"
    unfolding get_opt_text_def g by (simp add: opt_text_def split: option.split)
  moreover have "get_opt_texts d ''enum_values'' = Some (nd_enum_values n)"
    unfolding get_opt_texts_def g by (simp add: opt_texts_def texts_of_map split: option.split)
  ultimately show ?thesis
    using assms(3) by (simp add: schema_node_def get_text_def get_bool_def g node_ok_def)
qed

lemma wf_model_dump: "node_ok n \<Longrightarrow> wf_json (model_dump n)"
  by (cases "nd_example_value n")
    (auto simp: node_ok_def model_dump_def opt_text_def opt_texts_def list_all_iff split: option.split)

lemma map_exc_nodes:
  "map sort_keys ds = map (sort_keys \<circ> model_dump) ns \<Longrightarrow> list_all wf_json ds \<Longrightarrow> list_all node_ok ns \<Longrightarrow>
     map_exc schema_node ds = Inr ns"
proof (induction ns arbitrary: ds)
  case (Cons n ns)
  then obtain d ds' where "ds = d # ds'" by (cases ds) auto
  with Cons schema_node_dump [of d n] show ?case by simp
qed simp

lemma nodes_round_trip:
  assumes "keeps_value jsonb" "list_all node_ok ns"
  shows "stored_nodes (Some (jsonb (schema_json ns))) = Inr ns"
proof -
  have "wf_json (schema_json ns)" using assms(2) by (auto simp: schema_json_def list_all_iff intro: wf_model_dump)
  then have keep: "wf_json (jsonb (schema_json ns))" "sort_keys (jsonb (schema_json ns)) = sort_keys (schema_json ns)"
    using assms(1) by (auto simp: keeps_value_def)
  then obtain ds where ds: "jsonb (schema_json ns) = JList ds" "map sort_keys ds = map (sort_keys \<circ> model_dump) ns"
    by (cases "jsonb (schema_json ns)") (auto simp: schema_json_def)
  have "list_all wf_json ds" using keep(1) ds(1) by simp
  from map_exc_nodes [OF ds(2) this assms(2)] have "map_exc schema_node ds = Inr ns" .
  then show ?thesis using ds(1) by (cases ds) (auto simp: stored_nodes_def)
qed

lemma infer_schema_ok: "list_all node_ok (infer_schema j)"
  using states_ok_walk(1) [of "[]"] by (auto simp: list_all_iff infer_schema_def states_ok_def intro: node_ok_finalize)

text \<open>
  C35. A stored schema is read back as it was inferred, example values included, in whatever order
  the database returns the keys.
\<close>

theorem stored_schema_round_trip:
  assumes "keeps_value jsonb"
  shows "stored_nodes (Some (jsonb (schema_json (infer_schema j)))) = Inr (infer_schema j)"
  by (rule nodes_round_trip [OF assms infer_schema_ok])

lemma keeps_value_id: "keeps_value id"
  by (simp add: keeps_value_def)

theorem stored_schema_round_trip_witness:
  "stored_nodes (Some (id (schema_json (infer_schema example_document)))) = Inr (infer_schema example_document)"
  by (rule stored_schema_round_trip [OF keeps_value_id])

section \<open>One endpoint\<close>

definition diff_row :: "SchemaDiff \<Rightarrow> uuid \<times> uuid option \<times> uuid \<times> string \<times> string \<times> string" where
  "diff_row r = (sf_endpoint_id r, sf_old_snapshot_id r, sf_new_snapshot_id r, sf_severity r, sf_change_type r, sf_path r)"

lemma add_diffs [simp]:
  "md_snapshots (fold (add_diff env e p n) ds db) = md_snapshots db"
  "md_endpoints (fold (add_diff env e p n) ds db) = md_endpoints db"
  "md_runs (fold (add_diff env e p n) ds db) = md_runs db"
  "md_uuid (fold (add_diff env e p n) ds db) = md_uuid db"
  "md_now (fold (add_diff env e p n) ds db) = md_now db"
  "md_jsonb (fold (add_diff env e p n) ds db) = md_jsonb db"
  "md_next (fold (add_diff env e p n) ds db) = md_next db + length ds"
  by (induction ds arbitrary: db; simp add: add_diff_def)+

lemma add_diffs_rows:
  "map diff_row (md_diffs (fold (add_diff env e p n) ds db)) = map diff_row (md_diffs db) @
     map (\<lambda>d. (e, Some p, n, df_severity d, df_change_type d, df_path d)) ds"
  by (induction ds arbitrary: db) (simp_all add: add_diff_def diff_row_def)

text \<open>Whether the fetch returned, whatever it says, and the schema of a fetched body.\<close>

definition fetch_returned :: "monitor_env \<Rightarrow> ApiEndpoint \<Rightarrow> bool" where
  "fetch_returned env ep = (\<not> isl (endpoint_fetch env ep))"

lemma fetch_returned_cases [simp]:
  "endpoint_fetch env ep = Inl e \<Longrightarrow> \<not> fetch_returned env ep"
  "endpoint_fetch env ep = Inr f \<Longrightarrow> fetch_returned env ep"
  by (simp_all add: fetch_returned_def)

definition body_nodes :: "monitor_env \<Rightarrow> FetchResult \<Rightarrow> SchemaNode list" where
  "body_nodes env f = infer_schema (normalize (me_loads env) (me_max_bytes env) (fr_body f))"

lemma prior_add_snapshot:
  "get_prior_snapshot (add_snapshot s db) e (ss_id s) = get_prior_snapshot db e (ss_id s)"
  by (simp add: get_prior_snapshot_def add_snapshot_def)

text \<open>The snapshot a fetch that returned leaves, whatever else happens; one that raised leaves nothing.\<close>

lemma process_endpoint_raised:
  "endpoint_fetch env ep = Inl e \<Longrightarrow> process_endpoint env run_id ep db = (Inl e, db)"
  by (simp add: process_endpoint_def)

lemma process_endpoint_snapshot:
  assumes "process_endpoint env run_id ep db = (r, db')" "endpoint_fetch env ep = Inr f"
  shows "\<exists>s. md_snapshots db' = md_snapshots db @ [s] \<and> ss_id s = next_uuid db \<and> ss_endpoint_id s = ep_id ep \<and>
    ss_run_id s = run_id \<and> ss_created_at s = md_now db \<and> ss_fetch_error s = fr_error f \<and>
    (if fetch_ok f
     then ss_schema_hash s = stable_schema_hash (me_sha env) (body_nodes env f) \<and>
       ss_schema_json s = Some (md_jsonb db (schema_json (body_nodes env f)))
     else ss_schema_hash s = fetch_error_prefix @ show_type (fr_error f) \<and>
       ss_schema_json s = me_none env)"
  using assms unfolding process_endpoint_def Let_def body_nodes_def [symmetric]
  by (auto simp: add_snapshot_def fetch_ok_def bind_json_def schema_json_def
      split: if_splits option.splits sum.splits)

text \<open>What processing an endpoint leaves alone, and the ids it takes.\<close>

lemma process_endpoint_frame:
  assumes "process_endpoint env run_id ep db = (r, db')"
  shows "md_endpoints db' = md_endpoints db" "md_runs db' = md_runs db" "md_uuid db' = md_uuid db"
    "md_now db' = md_now db" "md_jsonb db' = md_jsonb db" "md_next db \<le> md_next db'"
    "endpoint_fetch env ep = Inr f \<Longrightarrow> md_next db < md_next db'"
  using assms unfolding process_endpoint_def Let_def
  by (auto simp: add_snapshot_def split: if_splits option.splits sum.splits)

text \<open>
  C11. After a successful fetch of an endpoint whose previous snapshot holds a schema, the monitor
  records exactly the diff of the two schemas, one row per change, pointing at both snapshots; it
  takes the shortcut over the hashes only when there is nothing to record.
\<close>

theorem monitor_records_drift:
  assumes "endpoint_fetch env ep = Inr f" "fetch_ok f"
    and "get_prior_snapshot db (ep_id ep) (next_uuid db) = Some p"
    and "ss_schema_json p = Some (md_jsonb db (schema_json old))" "ss_schema_hash p = stable_schema_hash (me_sha env) old"
    and "keeps_value (md_jsonb db)" "list_all node_ok old" "distinct (map nd_path old)"
    and "\<not> starts_with fetch_error_prefix (ss_schema_hash p)"
    and "me_sha env (hash_text old) = me_sha env (hash_text (body_nodes env f)) \<Longrightarrow>
      hash_text old = hash_text (body_nodes env f)"
  shows "\<exists>r db' ds. process_endpoint env run_id ep db = (Inr r, db') \<and>
    diff_schemas old (body_nodes env f) = Inr ds \<and> rt_diffs_detected r = length ds \<and> rt_error r = None \<and>
    map diff_row (md_diffs db') = map diff_row (md_diffs db) @
      map (\<lambda>d. (ep_id ep, Some (ss_id p), next_uuid db, df_severity d, df_change_type d, df_path d)) ds"
proof -
  let ?new = "body_nodes env f"
  obtain ds where ds: "diff_schemas old ?new = Inr ds" using diff_schemas_report by auto
  have old: "stored_nodes (ss_schema_json p) = Inr old"
    unfolding assms(4) by (rule nodes_round_trip [OF assms(6,7)])
  have new: "distinct (map nd_path ?new)"
    using states_ok_walk(1) [of "[]"] unfolding body_nodes_def infer_paths by (simp add: states_ok_def)
  have same: "ds = []" if "ss_schema_hash p = stable_schema_hash (me_sha env) ?new"
    using equal_hash_no_diff [OF assms(8) new, of "me_sha env"] that assms(5,10) ds by auto
  let ?snap = "\<lambda>db. \<lparr>ss_id = next_uuid db, ss_endpoint_id = ep_id ep, ss_run_id = run_id,
              ss_schema_hash = stable_schema_hash (me_sha env) ?new, ss_status_code = fr_status_code f,
              ss_response_time_ms = fr_response_time_ms f,
              ss_response_size_bytes = fr_response_size_bytes f,
              ss_schema_json = bind_json env db (schema_json ?new),
              ss_raw_sample = bind_json env db (normalize (me_loads env) (me_max_bytes env) (fr_body f)),
              ss_fetch_error = None, ss_created_at = md_now db\<rparr>"
  have prior: "get_prior_snapshot (add_snapshot (?snap db) db) (ep_id ep) (next_uuid db) = Some p"
    using prior_add_snapshot [of "?snap db" db "ep_id ep"] assms(3) by simp
  have add_diffs_db: "md_diffs (add_snapshot s db) = md_diffs db" for s by (simp add: add_snapshot_def)
  show ?thesis
    using assms(1,2,9) ds old prior same
    unfolding process_endpoint_def Let_def body_nodes_def [symmetric]
    by (auto simp: add_diffs_rows add_diffs_db)
qed

definition example_endpoint :: ApiEndpoint where
  "example_endpoint = \<lparr>ep_id = ''e'', ep_name = ''users'', ep_provider = ''demo'', ep_url = ''http://u'', ep_method = ''GET'',
     ep_headers = JObj [], ep_is_active = True\<rparr>"

definition example_monitor :: "http_outcome \<Rightarrow> monitor_env" where
  "example_monitor outcome = \<lparr>me_sha = id, me_loads = \<lambda>_. None, me_max_bytes = 1000, me_retention = 10,
     me_none = Some JNull, me_expandvars = id, me_timeout = 10, me_request = \<lambda>_ _ _. (5, outcome), me_clock = 99\<rparr>"

definition fetched :: "json \<Rightarrow> http_outcome" where
  "fetched body = Answered \<lparr>rs_status = 200, rs_content_type = ''application/json'', rs_size = 10, rs_json = Some body\<rparr>"

abbreviation timed_out :: http_outcome where
  "timed_out \<equiv> Timeout_exception"

definition fetched_result :: "json \<Rightarrow> FetchResult" where
  "fetched_result body = \<lparr>fr_status_code = 200, fr_response_time_ms = 5, fr_response_size_bytes = 10,
     fr_body = body, fr_error = None\<rparr>"

lemma example_fetches:
  "endpoint_fetch (example_monitor (fetched body)) ep = Inr (fetched_result body)"
  "endpoint_fetch (example_monitor (Other_exception e)) ep = Inl e"
  "\<exists>f. endpoint_fetch (example_monitor timed_out) ep = Inr f \<and> \<not> fetch_ok f"
  by (simp_all add: endpoint_fetch_def example_monitor_def fetched_def fetch_endpoint_def Let_def fetched_result_def fetch_ok_def)

lemma fetched_result_ok: "body \<noteq> JNull \<Longrightarrow> fetch_ok (fetched_result body)"
  by (simp add: fetched_result_def fetch_ok_def)

definition example_snapshot_row :: "SchemaNode list \<Rightarrow> SchemaSnapshot" where
  "example_snapshot_row nodes = \<lparr>ss_id = ''0'', ss_endpoint_id = ''e'', ss_run_id = ''9'',
     ss_schema_hash = stable_schema_hash id nodes, ss_status_code = 200, ss_response_time_ms = 5,
     ss_response_size_bytes = 10, ss_schema_json = Some (schema_json nodes), ss_raw_sample = Some (JInt 1),
     ss_fetch_error = None, ss_created_at = 1\<rparr>"

definition example_monitor_db :: "SchemaSnapshot list \<Rightarrow> monitor_db" where
  "example_monitor_db snaps = \<lparr>md_endpoints = [example_endpoint], md_runs = [], md_snapshots = snaps, md_diffs = [],
     md_uuid = show_nat, md_next = 2, md_now = 5, md_jsonb = id\<rparr>"

lemma show_nat_2: "show_nat 2 = ''2''" and show_nat_3: "show_nat 3 = ''3''"
  by (code_simp, code_simp)

theorem monitor_records_drift_witness:
  "\<exists>r db'. process_endpoint (example_monitor (fetched (JObj [(''a'', JStr ''x'')]))) ''7'' example_endpoint
       (example_monitor_db [example_snapshot_row (infer_schema (JObj [(''a'', JInt 1)]))]) = (Inr r, db') \<and>
     rt_diffs_detected r = 1 \<and>
     map diff_row (md_diffs db') = [(''e'', Some ''0'', ''2'', ''breaking'', ''type_changed'', ''a'')]"
proof -
  let ?env = "example_monitor (fetched (JObj [(''a'', JStr ''x'')]))"
  let ?old = "infer_schema (JObj [(''a'', JInt 1)])"
  let ?db = "example_monitor_db [example_snapshot_row ?old]"
  let ?body = "JObj [(''a'', JStr ''x'')]"
  have ok: "fetch_ok (fetched_result ?body)" by (simp add: fetched_result_ok)
  have id: "next_uuid ?db = ''2''" by (simp add: next_uuid_def example_monitor_db_def show_nat_2)
  have prior: "get_prior_snapshot ?db (ep_id example_endpoint) (next_uuid ?db) = Some (example_snapshot_row ?old)"
    unfolding id by (simp add: get_prior_snapshot_def example_monitor_db_def example_snapshot_row_def
        example_endpoint_def order_desc_def)
  have nodes: "body_nodes ?env (fetched_result ?body) = infer_schema (JObj [(''a'', JStr ''x'')])"
  proof -
    have "normalize (\<lambda>_. None) 1000 (JObj [(''a'', JStr ''x'')]) = JObj [(''a'', JStr ''x'')]" by code_simp
    then show ?thesis by (simp add: body_nodes_def fetched_result_def example_monitor_def)
  qed
  have ds: "map_sum id (map (\<lambda>d. (df_severity d, df_change_type d, df_path d)))
      (diff_schemas ?old (infer_schema (JObj [(''a'', JStr ''x'')]))) = Inr [(''breaking'', ''type_changed'', ''a'')]"
    by code_simp
  have distinct: "distinct (map nd_path ?old)" by code_simp
  have hash: "\<not> starts_with fetch_error_prefix (hash_text ?old)" by code_simp
  have fields: "ss_schema_json (example_snapshot_row ?old) = Some (md_jsonb ?db (schema_json ?old))"
    "ss_schema_hash (example_snapshot_row ?old) = stable_schema_hash (me_sha ?env) ?old"
    "keeps_value (md_jsonb ?db)" "ss_id (example_snapshot_row ?old) = ''0''" "ep_id example_endpoint = ''e''"
    "md_diffs ?db = []"
    by (simp_all add: example_snapshot_row_def example_monitor_db_def example_monitor_def example_endpoint_def keeps_value_id)
  have "\<exists>r db' ds. process_endpoint ?env ''7'' example_endpoint ?db = (Inr r, db') \<and>
    diff_schemas ?old (body_nodes ?env (fetched_result ?body)) = Inr ds \<and> rt_diffs_detected r = length ds \<and> rt_error r = None \<and>
    map diff_row (md_diffs db') = map diff_row (md_diffs ?db) @
      map (\<lambda>d. (ep_id example_endpoint, Some (ss_id (example_snapshot_row ?old)), next_uuid ?db, df_severity d, df_change_type d, df_path d)) ds"
    by (rule monitor_records_drift [OF example_fetches(1) ok prior fields(1,2,3) infer_schema_ok distinct])
       (use hash in \<open>simp_all add: example_monitor_def fields(2) stable_schema_hash_def\<close>)
  then obtain r db' es where r: "process_endpoint ?env ''7'' example_endpoint ?db = (Inr r, db')"
    "diff_schemas ?old (infer_schema (JObj [(''a'', JStr ''x'')])) = Inr es" "rt_diffs_detected r = length es"
    "map diff_row (md_diffs db') = map (\<lambda>d. (''e'', Some ''0'', ''2'', df_severity d, df_change_type d, df_path d)) es"
    unfolding nodes fields(4,5,6) id by auto
  from ds r(2) have "map (\<lambda>d. (df_severity d, df_change_type d, df_path d)) es = [(''breaking'', ''type_changed'', ''a'')]" by simp
  then have "length es = 1 \<and> map (\<lambda>d. (''e'', Some ''0'', ''2'', df_severity d, df_change_type d, df_path d)) es =
      [(''e'', Some ''0'', ''2'', ''breaking'', ''type_changed'', ''a'')]" by auto
  with r(1,3,4) show ?thesis by auto
qed

section \<open>Drift across a failed fetch\<close>

lemma newest_last:
  assumes "\<forall>x \<in> set xs. key x < key y"
  shows "first_row (order_desc key (xs @ [y])) = Some y"
proof -
  let ?zs = "order_desc key (xs @ [y])"
  have set: "set ?zs = insert y (set xs)" by (simp add: order_desc_def)
  then obtain z zs where zs: "?zs = z # zs" by (cases ?zs) auto
  have "sorted (map (\<lambda>r. - key r) ?zs)" by (simp add: order_desc_def)
  then have "- key z \<le> - key y" using set unfolding zs by auto
  moreover have "z = y \<or> z \<in> set xs" using set unfolding zs by auto
  ultimately have "z = y" using assms by fastforce
  with zs show ?thesis by simp
qed

lemma process_endpoint_sentinel:
  assumes "endpoint_fetch env ep = Inr f" "fetch_ok f" "get_prior_snapshot db (ep_id ep) (next_uuid db) = Some p"
    and "starts_with fetch_error_prefix (ss_schema_hash p)"
  shows "\<exists>s x. process_endpoint env run_id ep db = (Inr x, add_snapshot s db) \<and> rt_diffs_detected x = 0 \<and> rt_error x = None"
proof -
  have prior: "get_prior_snapshot (add_snapshot s db) (ep_id ep) (next_uuid db) = Some p" if "ss_id s = next_uuid db" for s
    using prior_add_snapshot [of s db "ep_id ep"] assms(3) that by simp
  show ?thesis
    using assms(1,2,4) unfolding process_endpoint_def Let_def by (auto simp: prior)
qed

text \<open>
  Drift across a failed fetch is lost: with \<open>None\<close> stored as the JSON value \<open>null\<close>, the snapshot
  of a failed fetch counts as the previous one, and its sentinel hash suppresses the comparison. The
  next successful fetch records nothing, whatever schema the endpoint had before and has now.
\<close>

theorem drift_across_failed_fetch_unreported:
  assumes "me_none env = Some JNull" "endpoint_fetch env ep = Inr f" "\<not> fetch_ok f"
    and "process_endpoint env run_id ep db = (r, db1)"
    and "\<forall>s \<in> set (md_snapshots db). ss_created_at s < md_now db" "inj (md_uuid db)"
    and "endpoint_fetch env' ep = Inr f'" "fetch_ok f'"
    and "process_endpoint env' run_id' ep (db1\<lparr>md_now := now\<rparr>) = (r', db2)"
  shows "\<exists>x. r' = Inr x \<and> rt_diffs_detected x = 0 \<and> rt_error x = None \<and> md_diffs db2 = md_diffs db"
proof -
  obtain s where s: "md_snapshots db1 = md_snapshots db @ [s]" "ss_id s = next_uuid db" "ss_endpoint_id s = ep_id ep"
    "ss_created_at s = md_now db" "ss_schema_json s \<noteq> None" "starts_with fetch_error_prefix (ss_schema_hash s)"
    using process_endpoint_snapshot [OF assms(4,2)] assms(1,3) by (auto simp: starts_with_def)
  have diffs: "md_diffs db1 = md_diffs db"
    using assms(2,3,4) by (auto simp: process_endpoint_def Let_def add_snapshot_def)
  let ?db = "db1\<lparr>md_now := now\<rparr>"
  have "md_next db < md_next db1" "md_uuid db1 = md_uuid db" using process_endpoint_frame [OF assms(4)] assms(2) by auto
  then have "next_uuid db \<noteq> next_uuid ?db" using assms(6) by (auto simp: next_uuid_def inj_eq)
  then have P: "get_prior_snapshot ?db (ep_id ep) (next_uuid ?db) = Some s"
    using s(5) newest_last [of "filter (\<lambda>s. ss_endpoint_id s = ep_id ep \<and> ss_id s \<noteq> next_uuid ?db \<and> ss_schema_json s \<noteq> None)
        (md_snapshots db)" ss_created_at s] assms(5)
    by (simp add: get_prior_snapshot_def s(1,2,3,4))
  have db: "md_diffs (add_snapshot n ?db) = md_diffs db" for n by (simp add: add_snapshot_def diffs)
  show ?thesis using process_endpoint_sentinel [OF assms(7,8) P s(6), of run_id'] assms(9) db by auto
qed

theorem drift_across_failed_fetch_unreported_witness:
  "\<exists>r db1 x db2.
     process_endpoint (example_monitor timed_out) ''7'' example_endpoint
       (example_monitor_db [example_snapshot_row (infer_schema (JObj [(''a'', JInt 1)]))]) = (r, db1) \<and>
     process_endpoint (example_monitor (fetched (JObj [(''a'', JStr ''x'')]))) ''8'' example_endpoint
       (db1\<lparr>md_now := 6\<rparr>) = (Inr x, db2) \<and>
     rt_diffs_detected x = 0 \<and> rt_error x = None \<and> md_diffs db2 = []"
proof -
  let ?db = "example_monitor_db [example_snapshot_row (infer_schema (JObj [(''a'', JInt 1)]))]"
  let ?env = "example_monitor timed_out" and ?env' = "example_monitor (fetched (JObj [(''a'', JStr ''x'')]))"
  obtain r db1 where first: "process_endpoint ?env ''7'' example_endpoint ?db = (r, db1)" by fastforce
  obtain r' db2 where second: "process_endpoint ?env' ''8'' example_endpoint (db1\<lparr>md_now := 6\<rparr>) = (r', db2)" by fastforce
  have none: "me_none ?env = Some JNull" by (simp add: example_monitor_def)
  from example_fetches(3) obtain f where bad: "endpoint_fetch ?env example_endpoint = Inr f" "\<not> fetch_ok f" by blast
  have ok: "fetch_ok (fetched_result (JObj [(''a'', JStr ''x'')]))" by (simp add: fetched_result_ok)
  have older: "\<forall>s \<in> set (md_snapshots ?db). ss_created_at s < md_now ?db"
    by (simp add: example_monitor_db_def example_snapshot_row_def)
  have inj: "inj (md_uuid ?db)" by (auto simp: example_monitor_db_def inj_def dest: show_nat_inject)
  from drift_across_failed_fetch_unreported [OF none bad first older inj example_fetches(1) ok second] first second
  show ?thesis by (auto simp: example_monitor_db_def)
qed

section \<open>A whole run\<close>

lemma process_all_ConsE:
  assumes "process_all env run_id (ep # eps) db = (rs, db')"
  obtains r rs' db1 where "process_endpoint env run_id ep db = (r, db1)" "process_all env run_id eps db1 = (rs', db')"
    "rs = r # rs'"
  using assms by (auto simp: Let_def split: prod.splits)

lemma process_all_frame:
  assumes "process_all env run_id eps db = (rs, db')"
  shows "md_endpoints db' = md_endpoints db \<and> md_runs db' = md_runs db \<and> md_uuid db' = md_uuid db \<and>
    md_now db' = md_now db \<and> md_next db \<le> md_next db' \<and> length rs = length eps"
  using assms
proof (induction eps arbitrary: db rs)
  case (Cons ep eps)
  from Cons.prems obtain r rs' db1 where r: "process_endpoint env run_id ep db = (r, db1)"
    and rs: "process_all env run_id eps db1 = (rs', db')" "rs = r # rs'" by (rule process_all_ConsE)
  show ?case using Cons.IH [OF rs(1)] process_endpoint_frame [OF r] rs(2) by auto
qed simp

lemma process_all_snapshots:
  assumes "process_all env run_id eps db = (rs, db')"
  shows "\<exists>ss. md_snapshots db' = md_snapshots db @ ss \<and>
    map ss_endpoint_id ss = map ep_id (filter (fetch_returned env) eps) \<and>
    list_all (\<lambda>s. ss_run_id s = run_id) ss \<and>
    map ss_fetch_error ss = map (fr_error \<circ> projr \<circ> endpoint_fetch env) (filter (fetch_returned env) eps)"
  using assms
proof (induction eps arbitrary: db rs)
  case (Cons ep eps)
  from Cons.prems obtain r rs' db1 where r: "process_endpoint env run_id ep db = (r, db1)"
    and rs: "process_all env run_id eps db1 = (rs', db')" "rs = r # rs'" by (rule process_all_ConsE)
  from Cons.IH [OF rs(1)] obtain ss where ss: "md_snapshots db' = md_snapshots db1 @ ss"
    "map ss_endpoint_id ss = map ep_id (filter (fetch_returned env) eps)" "list_all (\<lambda>s. ss_run_id s = run_id) ss"
    "map ss_fetch_error ss = map (fr_error \<circ> projr \<circ> endpoint_fetch env) (filter (fetch_returned env) eps)"
    by auto
  show ?case
  proof (cases "endpoint_fetch env ep")
    case (Inl e)
    then show ?thesis using r ss by (intro exI [of _ ss]) (simp add: process_endpoint_raised)
  next
    case (Inr f)
    from process_endpoint_snapshot [OF r Inr] obtain s where "md_snapshots db1 = md_snapshots db @ [s]"
      "ss_endpoint_id s = ep_id ep" "ss_run_id s = run_id" "ss_fetch_error s = fr_error f" by auto
    then show ?thesis using ss Inr by (intro exI [of _ "s # ss"]) simp
  qed
qed simp

lemma process_endpoint_diffs:
  assumes "process_endpoint env run_id ep db = (r, db')"
  shows "length (md_diffs db') = length (md_diffs db) + (case r of Inl _ \<Rightarrow> 0 | Inr x \<Rightarrow> rt_diffs_detected x)"
proof -
  have add: "length (md_diffs (fold (add_diff env e p n) ds db)) = length (md_diffs db) + length ds" for e p n ds db
    using arg_cong [OF add_diffs_rows, of length] by simp
  show ?thesis using assms unfolding process_endpoint_def Let_def
    by (auto simp: add add_snapshot_def split: if_splits option.splits sum.splits)
qed

lemma ok_results_Cons: "ok_results (r # rs) = (case r of Inl _ \<Rightarrow> [] | Inr x \<Rightarrow> [x]) @ ok_results rs"
  by (simp add: ok_results_def)

lemma process_all_diffs:
  "process_all env run_id eps db = (rs, db') \<Longrightarrow>
     length (md_diffs db') = length (md_diffs db) + sum_list (map rt_diffs_detected (ok_results rs))"
proof (induction eps arbitrary: db rs)
  case Nil
  then show ?case by (auto simp: ok_results_def)
next
  case (Cons ep eps)
  from Cons.prems obtain r rs' db1 where r: "process_endpoint env run_id ep db = (r, db1)"
    and rs: "process_all env run_id eps db1 = (rs', db')" "rs = r # rs'" by (rule process_all_ConsE)
  show ?case using Cons.IH [OF rs(1)] process_endpoint_diffs [OF r] Cons.prems r rs
    by (auto simp: ok_results_Cons split: sum.splits)
qed

text \<open>An endpoint's result: there is one only when its fetch returned, and it passes the error on.\<close>

definition result_of :: "monitor_env \<Rightarrow> py_exc + endpoint_result \<Rightarrow> ApiEndpoint \<Rightarrow> bool" where
  "result_of env r ep \<longleftrightarrow> (case r of Inl _ \<Rightarrow> True
     | Inr x \<Rightarrow> rt_snapshot_created x \<and> endpoint_fetch env ep \<in> Inr ` {f. fr_error f = rt_error x})"

lemma process_endpoint_result:
  assumes "process_endpoint env run_id ep db = (r, db')"
  shows "result_of env r ep"
  using assms unfolding process_endpoint_def Let_def result_of_def
  by (auto simp: fetch_ok_def split: if_splits option.splits sum.splits)

lemma process_all_results:
  "process_all env run_id eps db = (rs, db') \<Longrightarrow> list_all2 (result_of env) rs eps"
proof (induction eps arbitrary: db rs)
  case (Cons ep eps)
  from Cons.prems obtain r rs' db1 where r: "process_endpoint env run_id ep db = (r, db1)"
    and rs: "process_all env run_id eps db1 = (rs', db')" "rs = r # rs'" by (rule process_all_ConsE)
  show ?case using Cons.IH [OF rs(1)] process_endpoint_result [OF r] rs by simp
qed simp

definition fetch_failed :: "monitor_env \<Rightarrow> ApiEndpoint \<Rightarrow> bool" where
  "fetch_failed env ep = (case endpoint_fetch env ep of Inl _ \<Rightarrow> True | Inr f \<Rightarrow> fr_error f \<notin> {None, Some []})"

lemma run_status_Cons:
  "run_status (Inl e # rs) = ''partial_failure''"
  "run_status (Inr x # rs) = (if rt_error x \<in> {None, Some []} then run_status rs else ''partial_failure'')"
  by (simp add: run_status_def) (cases "rt_error x"; simp add: run_status_def)

lemma run_status_results:
  assumes "process_all env run_id eps db = (rs, db')"
  shows "length (filter rt_snapshot_created (ok_results rs)) \<le> length (filter (fetch_returned env) eps) \<and>
    (run_status rs = ''success'' \<longleftrightarrow>
      length (filter rt_snapshot_created (ok_results rs)) = length eps \<and> list_all (\<lambda>ep. \<not> fetch_failed env ep) eps)"
  using process_all_results [OF assms]
proof (induction rs eps rule: list_all2_induct)
  case Nil
  then show ?case by (simp add: ok_results_def run_status_def)
next
  case (Cons r rs ep eps)
  have le: "length (filter rt_snapshot_created (ok_results rs)) \<le> length eps"
    using Cons.IH by (meson length_filter_le order_trans)
  show ?case
  proof (cases r)
    case (Inl e)
    then show ?thesis using Cons.IH le by (auto simp: ok_results_Cons run_status_Cons)
  next
    case (Inr x)
    then obtain f where "endpoint_fetch env ep = Inr f" "rt_snapshot_created x" "fr_error f = rt_error x"
      using Cons.hyps(1) by (auto simp: result_of_def)
    then show ?thesis using Cons.IH Inr
      by (auto simp: ok_results_Cons run_status_Cons fetch_failed_def)
  qed
qed

lemma sweep_ids [simp]:
  "map ss_endpoint_id (sweep_endpoint env e snaps) = map ss_endpoint_id snaps"
  "map ss_run_id (sweep_endpoint env e snaps) = map ss_run_id snaps"
  "map ss_fetch_error (sweep_endpoint env e snaps) = map ss_fetch_error snaps"
  by (simp_all add: sweep_endpoint_def Let_def map_update_rows)

lemma sweeps_ids [simp]:
  "map ss_endpoint_id (fold (sweep_endpoint env) es snaps) = map ss_endpoint_id snaps"
  "map ss_run_id (fold (sweep_endpoint env) es snaps) = map ss_run_id snaps"
  "map ss_fetch_error (fold (sweep_endpoint env) es snaps) = map ss_fetch_error snaps"
  by (induction es arbitrary: snaps) simp_all

lemma map_const: "list_all (\<lambda>s. f s = c) xs \<Longrightarrow> map f xs = replicate (length xs) c"
  by (induction xs) auto

text \<open>
  C26. What a finished run leaves behind: its row, one snapshot under its id for every active entry
  of the registry file whose fetch returned, in the order of the file and with the fetch's error, and
  as many diff rows as it reports. An entry whose fetch raised (an invalid URL, a header value that is
  no string) leaves no snapshot. The run reports success exactly when no endpoint's processing raised
  and no fetch failed.
\<close>

theorem monitor_run_outcome:
  assumes "run_monitor env True entries db = (Finished i, db')" "next_uuid db \<notin> mr_id ` set (md_runs db)"
  shows "\<exists>eps fetched_eps row n. upsert_endpoints (me_expandvars env) (md_uuid db) entries (Suc (md_next db)) (md_endpoints db) =
      Inr (eps, n, md_endpoints db') \<and> fetched_eps = filter (fetch_returned env) eps \<and>
    md_runs db' = md_runs db @ [row] \<and> mr_id row = i \<and> mr_endpoints_checked row = length eps \<and>
    map ss_endpoint_id (md_snapshots db') = map ss_endpoint_id (md_snapshots db) @ map ep_id fetched_eps \<and>
    map ss_run_id (md_snapshots db') = map ss_run_id (md_snapshots db) @ replicate (length fetched_eps) i \<and>
    map ss_fetch_error (md_snapshots db') = map ss_fetch_error (md_snapshots db) @
      map (fr_error \<circ> projr \<circ> endpoint_fetch env) fetched_eps \<and>
    length (md_diffs db') = length (md_diffs db) + mr_diffs_detected row \<and>
    mr_snapshots_created row \<le> length fetched_eps \<and>
    (mr_status row = ''success'' \<longleftrightarrow> mr_snapshots_created row = length eps \<and> list_all (\<lambda>ep. \<not> fetch_failed env ep) eps)"
proof -
  obtain eps n rows where up: "upsert_endpoints (me_expandvars env) (md_uuid db) entries (Suc (md_next db)) (md_endpoints db) =
      Inr (eps, n, rows)"
    using assms(1) by (auto simp: run_monitor_def Let_def split: sum.splits)
  let ?run = "\<lparr>mr_id = next_uuid db, mr_started_at = md_now db, mr_finished_at = None, mr_status = ''running'',
                  mr_endpoints_checked = 0, mr_snapshots_created = 0, mr_diffs_detected = 0,
                  mr_error_message = None\<rparr>"
  let ?db2 = "db\<lparr>md_runs := md_runs db @ [?run], md_endpoints := rows, md_next := n\<rparr>"
  obtain rs db3 where all: "process_all env (next_uuid db) eps ?db2 = (rs, db3)" by fastforce
  let ?done = "\<lambda>r. r\<lparr>mr_finished_at := Some (me_clock env), mr_status := run_status rs, mr_endpoints_checked := length eps,
                       mr_snapshots_created := length (filter rt_snapshot_created (ok_results rs)),
                       mr_diffs_detected := sum_list (map rt_diffs_detected (ok_results rs))\<rparr>"
  have out: "i = next_uuid db" "db' = finish_run (next_uuid db) ?done (retention_sweep env db3)"
    using assms(1) all by (auto simp: run_monitor_def Let_def up)
  let ?got = "filter (fetch_returned env) eps"
  obtain ss where ss: "md_snapshots db3 = md_snapshots db @ ss" "map ss_endpoint_id ss = map ep_id ?got"
    "list_all (\<lambda>s. ss_run_id s = next_uuid db) ss"
    "map ss_fetch_error ss = map (fr_error \<circ> projr \<circ> endpoint_fetch env) ?got"
    using process_all_snapshots [OF all] by auto
  have len: "length ss = length ?got" using arg_cong [OF ss(2), of length] by simp
  have "md_runs db3 = md_runs db @ [?run]" "md_endpoints db3 = rows" using process_all_frame [OF all] by auto
  moreover have "update_rows (\<lambda>r. mr_id r = next_uuid db) ?done (md_runs db) = md_runs db"
    using assms(2) by (intro update_rows_none) (metis image_eqI)
  ultimately have runs: "md_runs db' = md_runs db @ [?done ?run]" "md_endpoints db' = rows"
    "md_diffs db' = md_diffs db3" "md_snapshots db' = fold (sweep_endpoint env) (map ep_id rows) (md_snapshots db3)"
    by (simp_all add: out finish_run_def retention_sweep_def update_rows_append) (simp add: update_rows_def)
  show ?thesis
    using up process_all_diffs [OF all] run_status_results [OF all] map_const [OF ss(3)] len
    by (intro exI [of _ eps] exI [of _ ?got] exI [of _ "?done ?run"] exI [of _ n]) (simp add: runs out(1) ss)
qed

lemma crashed_run:
  assumes "run_monitor env got_lock entries db = (Crashed e, db')" "next_uuid db \<notin> mr_id ` set (md_runs db)"
  shows "db' = db\<lparr>md_next := Suc (md_next db)\<rparr>"
proof -
  have "update_rows (\<lambda>r. mr_id r = next_uuid db) f (md_runs db) = md_runs db" for f
    using assms(2) by (intro update_rows_none) (metis image_eqI)
  then have "finish_run (next_uuid db) f (db\<lparr>md_next := Suc (md_next db)\<rparr>) = db\<lparr>md_next := Suc (md_next db)\<rparr>" for f
    by (simp add: finish_run_def)
  then show ?thesis
    using assms(1) by (auto simp: run_monitor_def Let_def split: if_splits sum.splits prod.splits)
qed

definition example_entry :: registry_entry where
  "example_entry = \<lparr>re_name = Some ''users'', re_provider = Some ''demo'', re_url = Some ''http://u'', re_method = None,
     re_headers = None, re_is_active = None\<rparr>"

lemma example_upsert:
  "upsert_endpoints id show_nat [example_entry] 3 [example_endpoint] = Inr ([example_endpoint], 3, [example_endpoint])"
  by code_simp

theorem monitor_run_outcome_witness:
  "\<exists>db' row. run_monitor (example_monitor (fetched (JInt 1))) True [example_entry] (example_monitor_db []) = (Finished ''2'', db') \<and>
     md_runs db' = [row] \<and> mr_endpoints_checked row = 1 \<and> map ss_run_id (md_snapshots db') = [''2'']"
proof -
  let ?env = "example_monitor (fetched (JInt 1))" and ?db = "example_monitor_db []"
  have id: "next_uuid ?db = ''2''" by (simp add: next_uuid_def example_monitor_db_def show_nat_2)
  have up: "upsert_endpoints (me_expandvars ?env) (md_uuid ?db) [example_entry] (Suc (md_next ?db)) (md_endpoints ?db) =
      Inr ([example_endpoint], 3, [example_endpoint])"
    using example_upsert by (simp add: example_monitor_def example_monitor_db_def numeral_3_eq_3)
  have "fst (run_monitor ?env True [example_entry] ?db) = Finished ''2''"
    using up id by (simp add: run_monitor_def Let_def split: prod.splits)
  then obtain db' where run: "run_monitor ?env True [example_entry] ?db = (Finished ''2'', db')"
    by (metis prod.collapse)
  have fresh: "next_uuid ?db \<notin> mr_id ` set (md_runs ?db)" by (simp add: example_monitor_db_def)
  have "fetch_returned ?env example_endpoint" by (simp add: fetch_returned_def example_fetches)
  with monitor_run_outcome [OF run fresh] up run show ?thesis by (auto simp: example_monitor_db_def)
qed

text \<open>The committed database over any sequence of runs, with any registry file, answer of the lock and clock.\<close>

inductive monitor_reachable :: "monitor_db \<Rightarrow> bool" where
  start: "md_runs db = [] \<Longrightarrow> inj (md_uuid db) \<Longrightarrow> monitor_reachable db"
| run: "monitor_reachable db \<Longrightarrow> run_monitor env got_lock entries db = (outcome, db') \<Longrightarrow> monitor_reachable db'"
| clock: "monitor_reachable db \<Longrightarrow> monitor_reachable (db\<lparr>md_now := t\<rparr>)"

inductive_cases monitor_reachableE: "monitor_reachable db"

definition run_done :: "MonitorRun \<Rightarrow> bool" where
  "run_done r = (mr_status r \<in> {''success'', ''partial_failure''} \<and> mr_finished_at r \<noteq> None)"

definition runs_ok :: "monitor_db \<Rightarrow> bool" where
  "runs_ok db \<longleftrightarrow> inj (md_uuid db) \<and> (\<forall>r \<in> set (md_runs db). run_done r \<and> (\<exists>n < md_next db. mr_id r = md_uuid db n))"

lemma runs_ok_fresh: "runs_ok db \<Longrightarrow> next_uuid db \<notin> mr_id ` set (md_runs db)"
  by (auto simp: runs_ok_def next_uuid_def inj_eq)

lemma upsert_entries_ids:
  "upsert_entries ev uuids ex entries n rows = Inr (ids, n', rows') \<Longrightarrow> n \<le> n'"
proof (induction ev uuids ex entries n rows arbitrary: ids n' rows' rule: upsert_entries.induct)
  case (2 ev uuids ex entry entries n rows)
  from 2(3) show ?case
    by (auto simp: Let_def split: option.splits sum.splits dest: 2(1,2) [rotated -1] intro: Suc_leD)
qed simp

lemma upsert_endpoints_ids: "upsert_endpoints ev uuids entries n rows = Inr (eps, n', rows') \<Longrightarrow> n \<le> n'"
  by (auto simp: upsert_endpoints_def split: sum.splits if_splits dest: upsert_entries_ids)

lemma run_status_cases: "run_status rs \<in> {''success'', ''partial_failure''}"
  by (simp add: run_status_def)

lemma runs_ok_run:
  assumes "runs_ok db" "run_monitor env got_lock entries db = (outcome, db')"
  shows "runs_ok db'"
proof (cases outcome)
  case (Busy r)
  then show ?thesis using assms by (auto simp: run_monitor_def Let_def split: if_splits sum.splits prod.splits)
next
  case (Crashed e)
  then show ?thesis using assms crashed_run [of env got_lock entries db e db'] runs_ok_fresh [OF assms(1)]
    by (auto simp: runs_ok_def less_Suc_eq)
next
  case (Finished i)
  then obtain eps n rows rs db3 where up: "upsert_endpoints (me_expandvars env) (md_uuid db) entries (Suc (md_next db)) (md_endpoints db) =
      Inr (eps, n, rows)" and all: "process_all env (next_uuid db) eps
        (db\<lparr>md_runs := md_runs db @
                [\<lparr>mr_id = next_uuid db, mr_started_at = md_now db, mr_finished_at = None, mr_status = ''running'',
                  mr_endpoints_checked = 0, mr_snapshots_created = 0, mr_diffs_detected = 0,
                  mr_error_message = None\<rparr>], md_endpoints := rows, md_next := n\<rparr>) = (rs, db3)"
    and db': "db' = finish_run (next_uuid db)
                (\<lambda>r. r\<lparr>mr_finished_at := Some (me_clock env), mr_status := run_status rs,
                       mr_endpoints_checked := length eps,
                       mr_snapshots_created := length (filter rt_snapshot_created (ok_results rs)),
                       mr_diffs_detected := sum_list (map rt_diffs_detected (ok_results rs))\<rparr>) (retention_sweep env db3)"
    using assms(2) by (auto simp: run_monitor_def Let_def split: if_splits sum.splits prod.splits)
  have next_le: "md_next db < md_next db3" "md_uuid db3 = md_uuid db"
    using process_all_frame [OF all] upsert_endpoints_ids [OF up] by auto
  have old: "\<exists>n < md_next db3. mr_id r = md_uuid db n" if "r \<in> set (md_runs db)" for r
    using assms(1) that next_le(1) unfolding runs_ok_def by (meson less_trans)
  show ?thesis
    using assms(1) process_all_frame [OF all] next_le old run_status_cases [of rs]
    unfolding db' by (auto simp: runs_ok_def finish_run_def retention_sweep_def set_update_rows run_done_def next_uuid_def)
qed

lemma reachable_runs_ok: "monitor_reachable db \<Longrightarrow> runs_ok db"
proof (induction rule: monitor_reachable.induct)
  case (start db)
  then show ?case by (simp add: runs_ok_def)
next
  case (run db env got_lock entries outcome db')
  then show ?case by (blast intro: runs_ok_run)
next
  case (clock db t)
  then show ?case by (simp add: runs_ok_def)
qed

text \<open>
  A failed run is never recorded: the rollback removes the row of the run before its status is
  written, so that the update finds no row, and the database is what it was, but for the run's id.
\<close>

theorem failed_run_leaves_no_trace:
  assumes "monitor_reachable db" "run_monitor env got_lock entries db = (Crashed e, db')"
  shows "db' = db\<lparr>md_next := Suc (md_next db)\<rparr>"
  using crashed_run [OF assms(2)] reachable_runs_ok [OF assms(1)] runs_ok_fresh by blast

lemma example_reachable: "monitor_reachable (example_monitor_db [])"
  by (rule monitor_reachable.start) (auto simp: example_monitor_db_def inj_def dest: show_nat_inject)

theorem failed_run_leaves_no_trace_witness:
  "run_monitor (example_monitor timed_out) True [example_entry\<lparr>re_url := None\<rparr>] (example_monitor_db []) =
     (Crashed (KeyError ''url''), (example_monitor_db [])\<lparr>md_next := 3\<rparr>)"
proof -
  let ?env = "example_monitor timed_out" and ?db = "example_monitor_db []"
  have "fst (run_monitor ?env True [example_entry\<lparr>re_url := None\<rparr>] ?db) = Crashed (KeyError ''url'')"
    by (simp add: run_monitor_def upsert_endpoints_def example_entry_def)
  then obtain db' where run: "run_monitor ?env True [example_entry\<lparr>re_url := None\<rparr>] ?db = (Crashed (KeyError ''url''), db')"
    by (metis prod.collapse)
  from failed_run_leaves_no_trace [OF example_reachable this] run show ?thesis
    by (simp add: example_monitor_db_def)
qed

text \<open>
  The runs other sessions see are finished, successful or partly so, never running and never
  failed; the answer to a run that finds the lock taken therefore never names the run in flight.
\<close>

theorem visible_runs_are_finished:
  assumes "monitor_reachable db"
  shows "list_all run_done (md_runs db) \<and> run_monitor env False entries db = (Busy None, db)"
proof -
  have fin: "list_all run_done (md_runs db)"
    using reachable_runs_ok [OF assms] by (auto simp: runs_ok_def list_all_iff)
  then have "filter (\<lambda>r. mr_status r = ''running'') (md_runs db) = []"
    by (auto simp: filter_empty_conv list_all_iff run_done_def)
  then have "running_run db = None" by (simp add: running_run_def order_desc_def)
  with fin show ?thesis by (simp add: run_monitor_def)
qed

theorem visible_runs_are_finished_witness:
  "run_monitor (example_monitor timed_out) False [] (example_monitor_db []) = (Busy None, example_monitor_db [])"
  using visible_runs_are_finished [OF example_reachable] by blast

section \<open>Retention\<close>

definition beyond_retention :: "monitor_env \<Rightarrow> SchemaSnapshot list \<Rightarrow> SchemaSnapshot \<Rightarrow> bool" where
  "beyond_retention env snaps s \<longleftrightarrow> 0 < me_retention env \<and>
     ss_id s \<notin> set (recent_ids (me_retention env) (ss_endpoint_id s) snaps)"

definition swept :: "monitor_env \<Rightarrow> uuid set \<Rightarrow> SchemaSnapshot list \<Rightarrow> SchemaSnapshot \<Rightarrow> SchemaSnapshot" where
  "swept env es snaps s =
     (if ss_endpoint_id s \<in> es \<and> beyond_retention env snaps s \<and> ss_raw_sample s \<noteq> None
      then s\<lparr>ss_raw_sample := me_none env\<rparr> else s)"

lemma order_desc_Nil: "order_desc k xs = [] \<longleftrightarrow> xs = []"
proof -
  have "set (order_desc k xs) = {} \<longleftrightarrow> set xs = {}" by simp
  then show ?thesis unfolding set_empty .
qed

lemma recent_ids_Nil: "recent_ids keep e snaps = [] \<longleftrightarrow> keep = 0 \<or> (\<forall>s \<in> set snaps. ss_endpoint_id s \<noteq> e)"
  by (simp add: recent_ids_def order_desc_Nil filter_empty_conv)

lemma sweep_is_swept: "sweep_endpoint env e snaps = map (swept env {e} snaps) snaps"
proof (cases "recent_ids (me_retention env) e snaps = []")
  case True
  then have "swept env {e} snaps s = s" if "s \<in> set snaps" for s
    using that by (auto simp: recent_ids_Nil swept_def beyond_retention_def)
  then show ?thesis using True by (simp add: sweep_endpoint_def map_idI)
next
  case False
  then have "0 < me_retention env" by (simp add: recent_ids_Nil)
  then have "swept env {e} snaps s =
      (if ss_endpoint_id s = e \<and> ss_id s \<notin> set (recent_ids (me_retention env) e snaps) \<and> ss_raw_sample s \<noteq> None
       then s\<lparr>ss_raw_sample := me_none env\<rparr> else s)" for s
    by (auto simp: swept_def beyond_retention_def)
  then show ?thesis using False by (simp add: sweep_endpoint_def update_rows_def)
qed

lemma insort_map: "(\<And>x. key (f x) = key x) \<Longrightarrow> insort_key key (f x) (map f xs) = map f (insort_key key x xs)"
  by (induction xs) simp_all

lemma order_desc_map: "(\<And>x. key (f x) = key x) \<Longrightarrow> order_desc key (map f xs) = map f (order_desc key xs)"
  unfolding order_desc_def
  by (induction xs) (simp_all add: insort_map [of "\<lambda>r. - key r"])

lemma swept_fields [simp]:
  "ss_id (swept env es snaps s) = ss_id s" "ss_endpoint_id (swept env es snaps s) = ss_endpoint_id s"
  "ss_created_at (swept env es snaps s) = ss_created_at s"
  by (simp_all add: swept_def)

lemma recent_ids_swept: "recent_ids keep e (map (swept env es snaps) snaps') = recent_ids keep e snaps'"
  by (simp add: recent_ids_def filter_map comp_def order_desc_map take_map)

lemma sweeps_are_swept:
  "fold (sweep_endpoint env) es (map (swept env ds snaps) snaps) = map (swept env (set es \<union> ds) snaps) snaps"
proof (induction es arbitrary: ds)
  case (Cons e es)
  have "beyond_retention env (map (swept env ds snaps) snaps) s = beyond_retention env snaps s" for s
    by (simp add: beyond_retention_def recent_ids_swept)
  then have "swept env {e} (map (swept env ds snaps) snaps) (swept env ds snaps s) = swept env (insert e ds) snaps s" for s
    by (auto simp: swept_def beyond_retention_def)
  then have "sweep_endpoint env e (map (swept env ds snaps) snaps) = map (swept env (insert e ds) snaps) snaps"
    by (simp add: sweep_is_swept)
  then show ?case using Cons.IH [of "insert e ds"] by simp
qed simp

lemma retention_sweep_swept:
  "retention_sweep env db = db\<lparr>md_snapshots :=
     map (swept env (ep_id ` set (md_endpoints db)) (md_snapshots db)) (md_snapshots db)\<rparr>"
proof -
  have "map (swept env {} (md_snapshots db)) (md_snapshots db) = md_snapshots db"
    by (simp add: swept_def map_idI)
  then show ?thesis using sweeps_are_swept [of env "map ep_id (md_endpoints db)" "{}" "md_snapshots db"]
    by (simp add: retention_sweep_def)
qed

text \<open>The samples of an endpoint that are still there: neither SQL NULL nor what \<open>None\<close> is stored as.\<close>

definition samples_kept :: "monitor_env \<Rightarrow> uuid \<Rightarrow> SchemaSnapshot list \<Rightarrow> SchemaSnapshot list" where
  "samples_kept env e snaps = filter (\<lambda>s. ss_endpoint_id s = e \<and> ss_raw_sample s \<notin> {None, me_none env}) snaps"

lemma samples_kept_recent:
  assumes "0 < me_retention env" "e \<in> es"
  shows "ss_id ` set (samples_kept env e (map (swept env es snaps) snaps)) \<subseteq> set (recent_ids (me_retention env) e snaps)"
  using assms by (auto simp: samples_kept_def swept_def beyond_retention_def)

lemma sweep_keeps_nothing_to_do: "me_retention env = 0 \<Longrightarrow> retention_sweep env db = db"
  by (simp add: retention_sweep_swept swept_def beyond_retention_def map_idI)

lemma samples_within_retention:
  assumes "distinct (map ss_id snaps)" "0 < me_retention env" "e \<in> es"
  shows "length (samples_kept env e (map (swept env es snaps) snaps)) \<le> me_retention env"
proof -
  let ?kept = "samples_kept env e (map (swept env es snaps) snaps)"
  have "distinct (map ss_id (map (swept env es snaps) snaps))" using assms(1) by (simp add: comp_def)
  then have "distinct (map ss_id ?kept)" unfolding samples_kept_def by (rule distinct_map_filter)
  then have "length ?kept = card (ss_id ` set ?kept)" using distinct_card by fastforce
  also have "\<dots> \<le> card (set (recent_ids (me_retention env) e snaps))"
    by (rule card_mono [OF finite_set samples_kept_recent [OF assms(2,3)]])
  also have "\<dots> \<le> length (recent_ids (me_retention env) e snaps)" by (rule card_length)
  also have "\<dots> \<le> me_retention env" by (simp add: recent_ids_def)
  finally show ?thesis .
qed

lemma recent_rows_kept:
  "set (take (me_retention env) (order_desc ss_created_at (filter (\<lambda>s. ss_endpoint_id s = e) snaps)))
     \<subseteq> set (map (swept env es snaps) snaps)" (is "set ?recent \<subseteq> _")
proof
  fix s assume s: "s \<in> set ?recent"
  then have "s \<in> set snaps" "ss_endpoint_id s = e" using in_set_takeD [OF s] by auto
  moreover from s this have "swept env es snaps s = s" by (simp add: swept_def beyond_retention_def recent_ids_def)
  ultimately show "s \<in> set (map (swept env es snaps) snaps)" by (metis image_eqI list.set_map)
qed

text \<open>
  C36. With a positive retention, every endpoint of the registry has at most as many raw samples after
  the sweep as configured, and the rows of its most recent snapshots are untouched; with a retention
  of 0 the sweep keeps every sample. It never loses more than raw samples: the ids, schemas and hashes
  stay, and so do the other tables.
\<close>

theorem retention_sweep_bound:
  assumes "distinct (map ss_id (md_snapshots db))" "e \<in> ep_id ` set (md_endpoints db)"
  shows "(if me_retention env = 0 then retention_sweep env db = db
      else length (samples_kept env e (md_snapshots (retention_sweep env db))) \<le> me_retention env \<and>
        set (take (me_retention env) (order_desc ss_created_at (filter (\<lambda>s. ss_endpoint_id s = e) (md_snapshots db))))
          \<subseteq> set (md_snapshots (retention_sweep env db))) \<and>
    map (\<lambda>s. s\<lparr>ss_raw_sample := None\<rparr>) (md_snapshots (retention_sweep env db)) =
      map (\<lambda>s. s\<lparr>ss_raw_sample := None\<rparr>) (md_snapshots db) \<and>
    retention_sweep env db = db\<lparr>md_snapshots := md_snapshots (retention_sweep env db)\<rparr>"
proof -
  let ?es = "ep_id ` set (md_endpoints db)" and ?snaps = "md_snapshots db"
  have swept: "md_snapshots (retention_sweep env db) = map (swept env ?es ?snaps) ?snaps"
    by (simp add: retention_sweep_swept)
  have "map (\<lambda>s. s\<lparr>ss_raw_sample := None\<rparr>) (map (swept env ?es ?snaps) ?snaps) = map (\<lambda>s. s\<lparr>ss_raw_sample := None\<rparr>) ?snaps"
    by (simp add: swept_def)
  then show ?thesis
    unfolding swept using samples_within_retention [OF assms(1) _ assms(2)] recent_rows_kept sweep_keeps_nothing_to_do
    by (simp add: retention_sweep_swept)
qed

theorem retention_sweep_bound_witness:
  "length (samples_kept ((example_monitor timed_out)\<lparr>me_retention := 1\<rparr>) ''e''
     (md_snapshots (retention_sweep ((example_monitor timed_out)\<lparr>me_retention := 1\<rparr>)
       (example_monitor_db [example_snapshot_row [], (example_snapshot_row [])\<lparr>ss_id := ''1'', ss_created_at := 2\<rparr>])))) \<le> 1"
proof -
  let ?env = "(example_monitor timed_out)\<lparr>me_retention := 1\<rparr>"
  let ?db = "example_monitor_db [example_snapshot_row [], (example_snapshot_row [])\<lparr>ss_id := ''1'', ss_created_at := 2\<rparr>]"
  have "distinct (map ss_id (md_snapshots ?db))" "''e'' \<in> ep_id ` set (md_endpoints ?db)"
    by (simp_all add: example_monitor_db_def example_snapshot_row_def example_endpoint_def)
  from retention_sweep_bound [OF this, of ?env] show ?thesis by simp
qed

end
