(* ===== verification/Changelog_Api.thy ===== *)
theory Changelog_Api
  imports Monitor_Runs
begin

text \<open>
  What the monitor's service answers: its read handlers (\<open>backend/app/api/\<close>), the guard of the
  administrative ones (\<open>backend/app/deps.py\<close>), and the changelog of a snapshot
  (\<open>backend/app/core/changelog.py\<close>), with the session every request runs in
  (\<open>backend/app/database.py\<close>). The language model and the digest are parameters.
\<close>

section \<open>Requests\<close>

text \<open>\<open>secrets.compare_digest\<close> takes texts of ASCII characters only.\<close>

definition ascii :: "string \<Rightarrow> bool" where
  "ascii s = list_all (\<lambda>c. code_of c < 128) s"

definition require_admin :: "string \<Rightarrow> string option \<Rightarrow> py_exc + unit" where
  "require_admin expected header =
     (let provided = (case header of None \<Rightarrow> [] | Some h \<Rightarrow> h) in
      if expected = [] then Inl (HTTPException 401 ''Invalid or missing admin secret'')
      else if \<not> (ascii provided \<and> ascii expected) then Inl (TypeError ''compare_digest'')
      else if provided \<noteq> expected then Inl (HTTPException 401 ''Invalid or missing admin secret'')
      else Inr ())"

text \<open>
  The session of a request is closed after the handler, and closing rolls back what was flushed
  and not committed: the committed state is the one before.
\<close>

definition close_session :: "'s \<Rightarrow> 's \<Rightarrow> 's" where
  "close_session committed in_session = committed"

definition limit_ok :: "int \<Rightarrow> int \<Rightarrow> py_exc + int" where
  "limit_ok hi limit = (if 1 \<le> limit \<and> limit \<le> hi then Inr limit else Inl (HTTPException 422 ''limit''))"

section \<open>Reading\<close>

definition latest_snapshot :: "monitor_db \<Rightarrow> uuid \<Rightarrow> SchemaSnapshot option" where
  "latest_snapshot db endpoint_id =
     first_row (order_desc ss_created_at (filter (\<lambda>s. ss_endpoint_id s = endpoint_id) (md_snapshots db)))"

record EndpointOut =
  eo_endpoint :: ApiEndpoint
  eo_latest_snapshot_hash :: "string option"
  eo_latest_checked_at :: "int option"

text \<open>\<open>EndpointOut.model_validate\<close> wants the headers to be a dictionary and raises otherwise.\<close>

definition endpoint_out :: "monitor_db \<Rightarrow> ApiEndpoint \<Rightarrow> py_exc + EndpointOut" where
  "endpoint_out db ep =
     (let latest = latest_snapshot db (ep_id ep) in
      if is_obj (ep_headers ep) then
        Inr \<lparr>eo_endpoint = ep, eo_latest_snapshot_hash = map_option ss_schema_hash latest,
             eo_latest_checked_at = map_option ss_created_at latest\<rparr>
      else Inl (ValueError ''EndpointOut''))"

text \<open>\<open>ORDER BY name\<close>, with the collation of the database taken to be the order of code points.\<close>

definition list_endpoints :: "monitor_db \<Rightarrow> py_exc + EndpointOut list" where
  "list_endpoints db = map_exc (endpoint_out db) (sort_key ep_name (md_endpoints db))"

definition get_endpoint :: "monitor_db \<Rightarrow> uuid \<Rightarrow> py_exc + EndpointOut" where
  "get_endpoint db endpoint_id =
     (case first_row (filter (\<lambda>e. ep_id e = endpoint_id) (md_endpoints db)) of
        None \<Rightarrow> Inl (HTTPException 404 ''endpoint not found'')
      | Some ep \<Rightarrow> endpoint_out db ep)"

definition list_snapshots :: "monitor_db \<Rightarrow> uuid \<Rightarrow> int \<Rightarrow> py_exc + SchemaSnapshot list" where
  "list_snapshots db endpoint_id limit =
     map_sum id (\<lambda>n. limit_rows n
         (order_desc ss_created_at (filter (\<lambda>s. ss_endpoint_id s = endpoint_id) (md_snapshots db))))
       (limit_ok 200 limit)"

definition with_severity :: "string option \<Rightarrow> SchemaDiff list \<Rightarrow> SchemaDiff list" where
  "with_severity severity rows =
     (case severity of None \<Rightarrow> rows | Some s \<Rightarrow> if s = [] then rows else filter (\<lambda>d. sf_severity d = s) rows)"

definition list_diffs_for_endpoint :: "monitor_db \<Rightarrow> uuid \<Rightarrow> int \<Rightarrow> string option \<Rightarrow> py_exc + SchemaDiff list" where
  "list_diffs_for_endpoint db endpoint_id limit severity =
     map_sum id (\<lambda>n. limit_rows n (order_desc sf_created_at
         (with_severity severity (filter (\<lambda>d. sf_endpoint_id d = endpoint_id) (md_diffs db)))))
       (limit_ok 500 limit)"

definition list_recent_diffs :: "monitor_db \<Rightarrow> int \<Rightarrow> string option \<Rightarrow> py_exc + SchemaDiff list" where
  "list_recent_diffs db limit severity =
     map_sum id (\<lambda>n. limit_rows n (order_desc sf_created_at (with_severity severity (md_diffs db)))) (limit_ok 500 limit)"

definition list_monitor_runs :: "monitor_db \<Rightarrow> int \<Rightarrow> py_exc + MonitorRun list" where
  "list_monitor_runs db limit =
     map_sum id (\<lambda>n. limit_rows n (order_desc mr_started_at (md_runs db))) (limit_ok 100 limit)"

text \<open>The answer of \<open>POST /monitor/run-once\<close> once the run is over; 409 carries the id of the run in flight.\<close>

record MonitorRunResponse =
  mo_monitor_run_id :: uuid
  mo_status :: string

definition trigger_monitor ::
  "string \<Rightarrow> string option \<Rightarrow> monitor_env \<Rightarrow> bool \<Rightarrow> registry_entry list \<Rightarrow> monitor_db
     \<Rightarrow> (py_exc + MonitorRunResponse) \<times> monitor_db" where
  "trigger_monitor expected header env got_lock entries db =
     (case require_admin expected header of
        Inl e \<Rightarrow> (Inl e, db)
      | Inr _ \<Rightarrow>
          (case run_monitor env got_lock entries db of
             (Busy running, db') \<Rightarrow>
               (Inl (HTTPException 409 (dumps False (JObj [(''message'', JStr ''monitor already running''),
                  (''monitor_run_id'', opt_text running)]))), db')
           | (Crashed e, db') \<Rightarrow> (Inl e, db')
           | (Finished run_id, db') \<Rightarrow> (Inr \<lparr>mo_monitor_run_id = run_id, mo_status = ''started''\<rparr>, db')))"

section \<open>The changelog\<close>

record Changelog =
  cl_id :: uuid
  cl_endpoint_id :: uuid
  cl_snapshot_id :: uuid
  cl_diff_ids :: "uuid list"
  cl_diff_set_hash :: string
  cl_generated_text :: string
  cl_model_name :: "string option"
  cl_created_at :: int

text \<open>
  \<open>cc_create\<close> is the client of the language model: the texts of the blocks it answers a request with,
  or what it raises, a missing package included. \<open>cc_dash\<close> is the dash of the template, a character
  beyond those of the model's texts.
\<close>

record messages_request =
  mr_model :: string
  mr_max_tokens :: int
  mr_system :: string
  mr_user :: string

record changelog_config =
  cc_sha :: "string \<Rightarrow> string"
  cc_api_key :: "string option"
  cc_llm_model :: string
  cc_create :: "messages_request \<Rightarrow> py_exc + string list"
  cc_dash :: string

definition hash_diff_set :: "(string \<Rightarrow> string) \<Rightarrow> SchemaDiff list \<Rightarrow> string" where
  "hash_diff_set sha diffs = sha (dumps False (JList (map JStr (sort (map sf_id diffs)))))"

definition stored_value :: "json option \<Rightarrow> json" where
  "stored_value v = (case v of None \<Rightarrow> JNull | Some j \<Rightarrow> j)"

definition diff_to_core :: "SchemaDiff \<Rightarrow> Diff" where
  "diff_to_core d =
     \<lparr>df_severity = sf_severity d, df_change_type = sf_change_type d, df_path = sf_path d, df_old_type = sf_old_type d,
      df_new_type = sf_new_type d, df_old_value = stored_value (sf_old_value d), df_new_value = stored_value (sf_new_value d),
      df_message = sf_message d\<rparr>"

definition diffs_to_core :: "SchemaDiff list \<Rightarrow> Diff list" where
  "diffs_to_core diffs = map diff_to_core diffs"

definition severity_titles :: "(string \<times> string) list" where
  "severity_titles = [(''breaking'', ''Breaking''), (''risky'', ''Risky''), (''safe'', ''Safe'')]"

definition diff_line :: "string \<Rightarrow> Diff \<Rightarrow> string" where
  "diff_line dash d = ''- `'' @ df_path d @ ''` '' @ dash @ '' '' @ df_message d"

definition severity_part :: "string \<Rightarrow> Diff list \<Rightarrow> string \<times> string \<Rightarrow> string list" where
  "severity_part dash diffs st =
     (let ds = filter (\<lambda>d. df_severity d = fst st) diffs in
      if ds = [] then []
      else (''## '' @ snd st @ '' ('' @ show_nat (length ds) @ '')'') # map (diff_line dash) ds)"

definition template_changelog :: "string \<Rightarrow> Diff list \<Rightarrow> string" where
  "template_changelog dash diffs = join newline (concat (map (severity_part dash diffs) severity_titles))"

text \<open>\<open>re.findall("`([^`]+)`", text)\<close>: an opening quote that closes at once, or never, is skipped.\<close>

function quoted :: "string \<Rightarrow> string list" where
  "quoted [] = []"
| "quoted (c # cs) =
     (if c \<noteq> CHR ''`'' then quoted cs
      else
        let inner = takeWhile (\<lambda>x. x \<noteq> CHR ''`'') cs; rest = dropWhile (\<lambda>x. x \<noteq> CHR ''`'') cs in
        if inner \<noteq> [] \<and> rest \<noteq> [] then inner # quoted (tl rest) else quoted cs)"
  by pat_completeness auto
termination
proof (relation "measure length")
  fix c :: char and cs x xa
  assume "xa = dropWhile (\<lambda>x. x \<noteq> CHR ''`'') cs"
  then have "length (tl xa) \<le> length cs"
    using length_dropWhile_le [of "\<lambda>x. x \<noteq> CHR ''`''" cs] by (metis diff_le_self dual_order.trans length_tl)
  then show "(tl xa, c # cs) \<in> measure length" by simp
qed simp_all

definition path_like :: "string \<Rightarrow> bool" where
  "path_like t = (CHR ''.'' \<in> set t \<or> CHR ''['' \<in> set t)"

definition validate_llm_output :: "string \<Rightarrow> Diff list \<Rightarrow> bool" where
  "validate_llm_output txt diffs =
     (txt \<noteq> [] \<and> length txt \<le> 4000 \<and> occurs_in ''##'' txt \<and>
      list_all (\<lambda>fp. path_like fp \<longrightarrow> fp \<in> set (map df_path diffs)) (quoted txt))"

text \<open>\<open>json.dumps(..., indent=n)\<close> at nesting depth \<open>lvl\<close>.\<close>

definition new_line :: "nat \<Rightarrow> string" where
  "new_line n = newline @ replicate n (CHR '' '')"

fun dumps_indent :: "nat \<Rightarrow> nat \<Rightarrow> json \<Rightarrow> string" where
  "dumps_indent n lvl (JList xs) =
     (if xs = [] then ''[]''
      else ''['' @ join '','' (map (\<lambda>x. new_line (n * Suc lvl) @ dumps_indent n (Suc lvl) x) xs) @ new_line (n * lvl) @ '']'')"
| "dumps_indent n lvl (JObj kvs) =
     (if kvs = [] then ''{}''
      else ''{'' @ join '','' (map (\<lambda>(k, v). new_line (n * Suc lvl) @ quote_json k @ '': '' @ dumps_indent n (Suc lvl) v) kvs) @
        new_line (n * lvl) @ ''}'')"
| "dumps_indent n lvl j = dumps False j"

definition text_or_null :: "string option \<Rightarrow> json" where
  "text_or_null t = (case t of None \<Rightarrow> JNull | Some s \<Rightarrow> JStr s)"

text \<open>\<open>d.model_dump()\<close>.\<close>

definition dump_diff :: "Diff \<Rightarrow> json" where
  "dump_diff d =
     JObj [(''severity'', JStr (df_severity d)), (''change_type'', JStr (df_change_type d)), (''path'', JStr (df_path d)),
       (''old_type'', text_or_null (df_old_type d)), (''new_type'', text_or_null (df_new_type d)),
       (''old_value'', df_old_value d), (''new_value'', df_new_value d), (''message'', JStr (df_message d))]"

definition system_prompt :: string where
  "system_prompt =
     ''You are a changelog generator. You will receive a JSON list of API schema diffs '' @
     ''that have ALREADY been classified by severity. Convert them into a developer-readable '' @
     ''markdown changelog.'' @ newline @ newline @
     ''Rules (strict):'' @ newline @
     ''- Do NOT change severity classifications.'' @ newline @
     ''- Do NOT invent fields, paths, causes, fixes, or migration advice.'' @ newline @
     ''- Do NOT speculate about why the change occurred.'' @ newline @
     ''- ONLY describe what changed, using the paths and types in the input.'' @ newline @
     ''- Group by severity: ## Breaking, ## Risky, ## Safe.'' @ newline @
     ''- Use backtick-quoted paths exactly as they appear in the input.'' @ newline @
     ''- Output markdown only. No preamble, no postscript.''"

definition call_anthropic :: "changelog_config \<Rightarrow> string \<Rightarrow> string option" where
  "call_anthropic cfg diffs_json =
     (case cc_create cfg \<lparr>mr_model = cc_llm_model cfg, mr_max_tokens = 1024, mr_system = system_prompt,
             mr_user = ''Diffs:'' @ newline @ diffs_json\<rparr> of
        Inl _ \<Rightarrow> None
      | Inr blocks \<Rightarrow> (case blocks of [] \<Rightarrow> None | block # _ \<Rightarrow> Some block))"

definition changelog_text :: "changelog_config \<Rightarrow> Diff list \<Rightarrow> string \<times> string option" where
  "changelog_text cfg core_diffs =
     (if (case cc_api_key cfg of None \<Rightarrow> False | Some k \<Rightarrow> k \<noteq> []) then
        (case call_anthropic cfg (dumps_indent 2 0 (JList (map dump_diff core_diffs))) of
           None \<Rightarrow> (template_changelog (cc_dash cfg) core_diffs, None)
         | Some llm_text \<Rightarrow>
             if llm_text \<noteq> [] \<and> validate_llm_output llm_text core_diffs then (llm_text, Some (cc_llm_model cfg))
             else (template_changelog (cc_dash cfg) core_diffs, None))
      else (template_changelog (cc_dash cfg) core_diffs, None))"

text \<open>The rows of the table as the session sees them, and the row that is answered.\<close>

definition generate_changelog ::
  "changelog_config \<Rightarrow> uuid \<Rightarrow> int \<Rightarrow> SchemaSnapshot \<Rightarrow> SchemaDiff list \<Rightarrow> Changelog list \<Rightarrow> Changelog \<times> Changelog list" where
  "generate_changelog cfg new_id now snap diff_rows logs =
     (let diff_set_hash = hash_diff_set (cc_sha cfg) diff_rows in
      case first_row (filter (\<lambda>c. cl_snapshot_id c = ss_id snap \<and> cl_diff_set_hash c = diff_set_hash) logs) of
        Some cached \<Rightarrow> (cached, logs)
      | None \<Rightarrow>
          let (txt, model_name) = changelog_text cfg (diffs_to_core diff_rows);
              row = \<lparr>cl_id = new_id, cl_endpoint_id = ss_endpoint_id snap, cl_snapshot_id = ss_id snap,
                cl_diff_ids = map sf_id diff_rows, cl_diff_set_hash = diff_set_hash, cl_generated_text = txt,
                cl_model_name = model_name, cl_created_at = now\<rparr> in
          (row, logs @ [row]))"

definition generate_handler ::
  "changelog_config \<Rightarrow> uuid \<Rightarrow> int \<Rightarrow> string \<Rightarrow> string option \<Rightarrow> uuid \<Rightarrow> monitor_db \<Rightarrow> Changelog list
     \<Rightarrow> (py_exc + Changelog) \<times> Changelog list" where
  "generate_handler cfg new_id now expected header snapshot_id db logs =
     (case require_admin expected header of
        Inl e \<Rightarrow> (Inl e, logs)
      | Inr _ \<Rightarrow>
          (case first_row (filter (\<lambda>s. ss_id s = snapshot_id) (md_snapshots db)) of
             None \<Rightarrow> (Inl (HTTPException 404 ''snapshot not found''), logs)
           | Some snap \<Rightarrow>
               if \<not> truthy (stored_value (ss_schema_json snap)) then
                 (Inl (HTTPException 422 ''snapshot has no schema (fetch failed)''), logs)
               else
                 let diff_rows = filter (\<lambda>d. sf_new_snapshot_id d = ss_id snap) (md_diffs db) in
                 if diff_rows = [] then (Inl (HTTPException 422 ''no diffs found for snapshot''), logs)
                 else
                   let (row, logs') = generate_changelog cfg new_id now snap diff_rows logs in
                   (Inr row, close_session logs logs')))"

definition list_changelogs :: "Changelog list \<Rightarrow> uuid \<Rightarrow> int \<Rightarrow> py_exc + Changelog list" where
  "list_changelogs logs endpoint_id limit =
     map_sum id (\<lambda>n. limit_rows n (order_desc cl_created_at (filter (\<lambda>c. cl_endpoint_id c = endpoint_id) logs)))
       (limit_ok 100 limit)"

definition get_changelog :: "Changelog list \<Rightarrow> uuid \<Rightarrow> py_exc + Changelog" where
  "get_changelog logs changelog_id =
     (case first_row (filter (\<lambda>c. cl_id c = changelog_id) logs) of
        None \<Rightarrow> Inl (HTTPException 404 ''changelog not found'') | Some c \<Rightarrow> Inr c)"

section \<open>What a changelog says\<close>

text \<open>The table of changelogs over any sequence of requests.\<close>

inductive changelog_reachable :: "Changelog list \<Rightarrow> bool" where
  empty: "changelog_reachable []"
| request: "changelog_reachable logs \<Longrightarrow>
    generate_handler cfg new_id now expected header snapshot_id db logs = (r, logs') \<Longrightarrow> changelog_reachable logs'"

lemma handler_commits_nothing:
  "generate_handler cfg new_id now expected header snapshot_id db logs = (r, logs') \<Longrightarrow> logs' = logs"
  by (auto simp: generate_handler_def Let_def close_session_def split: sum.splits option.splits if_splits prod.splits)

lemma changelog_reachable_empty: "changelog_reachable logs \<Longrightarrow> logs = []"
  by (induction rule: changelog_reachable.induct) (auto dest: handler_commits_nothing)

lemma changelog_text_cases:
  assumes "changelog_text cfg ds = (txt, m)"
  shows "m = None \<and> txt = template_changelog (cc_dash cfg) ds \<or> m = Some (cc_llm_model cfg) \<and> validate_llm_output txt ds"
  using assms by (auto simp: changelog_text_def split: if_splits option.splits)

lemma validated_paths: "validate_llm_output txt ds \<Longrightarrow> set (filter path_like (quoted txt)) \<subseteq> set (map df_path ds)"
  by (auto simp: validate_llm_output_def list_all_iff)

lemma core_paths: "map df_path (diffs_to_core rows) = map sf_path rows"
  by (simp add: diffs_to_core_def diff_to_core_def comp_def)

lemma first_row_none: "first_row (filter P []) = None"
  by simp

text \<open>
  C37. A changelog is answered only to the holder of the secret; it covers exactly the diffs of the
  snapshot, and its text is either the template over them or a text of the language model whose
  quoted paths all occur in them. No changelog is ever stored: the session is closed without a
  commit, so that nothing can be read back and the next request asks the language model again.
\<close>

theorem changelog_answer:
  assumes "changelog_reachable logs"
    and "generate_handler cfg new_id now expected header snapshot_id db logs = (Inr row, logs')"
  shows "header = Some expected \<and> cl_snapshot_id row = snapshot_id \<and> cl_id row = new_id \<and> logs' = [] \<and>
    list_changelogs logs' endpoint_id 20 = Inr [] \<and>
    (let rows = filter (\<lambda>d. sf_new_snapshot_id d = snapshot_id) (md_diffs db) in
      rows \<noteq> [] \<and> cl_diff_ids row = map sf_id rows \<and>
      (if cl_model_name row = None
       then cl_generated_text row = template_changelog (cc_dash cfg) (diffs_to_core rows)
       else set (filter path_like (quoted (cl_generated_text row))) \<subseteq> set (map sf_path rows)))"
proof -
  have logs: "logs = []" "logs' = []"
    using changelog_reachable_empty [OF assms(1)] handler_commits_nothing [OF assms(2)] by auto
  have admin: "header = Some expected"
  proof -
    have "require_admin expected header = Inr ()"
      using assms(2) by (cases "require_admin expected header") (simp_all add: generate_handler_def)
    then show ?thesis by (auto simp: require_admin_def Let_def split: if_splits option.splits)
  qed
  obtain snap where snap: "first_row (filter (\<lambda>s. ss_id s = snapshot_id) (md_snapshots db)) = Some snap"
    using assms(2) by (auto simp: generate_handler_def split: sum.splits option.splits)
  then have id: "ss_id snap = snapshot_id" using first_row_filter_SomeD by fastforce
  let ?rows = "filter (\<lambda>d. sf_new_snapshot_id d = snapshot_id) (md_diffs db)"
  obtain body m where t: "changelog_text cfg (diffs_to_core ?rows) = (body, m)" by fastforce
  have row: "?rows \<noteq> []" "cl_snapshot_id row = snapshot_id" "cl_id row = new_id" "cl_diff_ids row = map sf_id ?rows"
    "cl_generated_text row = body" "cl_model_name row = m"
    using assms(2) t
    by (auto simp: generate_handler_def generate_changelog_def Let_def snap id logs split: sum.splits if_splits)
  have "list_changelogs [] endpoint_id 20 = Inr []"
    by (simp add: list_changelogs_def limit_ok_def order_desc_def limit_rows_def)
  moreover have "m = None \<and> body = template_changelog (cc_dash cfg) (diffs_to_core ?rows) \<or>
      m = Some (cc_llm_model cfg) \<and> set (filter path_like (quoted body)) \<subseteq> set (map sf_path ?rows)"
    using changelog_text_cases [OF t] validated_paths [of body "diffs_to_core ?rows"] unfolding core_paths by blast
  ultimately show ?thesis using row admin logs by (auto simp: Let_def)
qed

text \<open>The template lists every diff once, under its severity, the gravest first.\<close>

lemma diff_line_no_heading: "\<not> starts_with ''## '' (diff_line dash d)"
  by (simp add: starts_with_def diff_line_def)

lemma severity_part_lines:
  "filter (\<lambda>l. \<not> starts_with ''## '' l) (severity_part dash ds st) =
     map (diff_line dash) (filter (\<lambda>d. df_severity d = fst st) ds)"
proof -
  have "filter (\<lambda>l. \<not> starts_with ''## '' l) (map (diff_line dash) es) = map (diff_line dash) es" for es
    by (induction es) (simp_all add: diff_line_no_heading)
  then show ?thesis by (simp add: severity_part_def Let_def starts_with_def)
qed

lemma severities_partition:
  "list_all (\<lambda>d. df_severity d \<in> {''breaking'', ''risky'', ''safe''}) ds \<Longrightarrow>
     mset (concat (map (\<lambda>st. filter (\<lambda>d. df_severity d = fst st) ds) severity_titles)) = mset ds"
  by (induction ds) (auto simp: severity_titles_def)

theorem template_lists_every_diff:
  assumes "list_all (\<lambda>d. df_severity d \<in> {''breaking'', ''risky'', ''safe''}) ds"
  shows "mset (filter (\<lambda>l. \<not> starts_with ''## '' l) (concat (map (severity_part dash ds) severity_titles))) =
    mset (map (diff_line dash) ds)"
proof -
  have "filter (\<lambda>l. \<not> starts_with ''## '' l) (concat (map (severity_part dash ds) severity_titles)) =
      map (diff_line dash) (concat (map (\<lambda>st. filter (\<lambda>d. df_severity d = fst st) ds) severity_titles))"
    by (simp add: filter_concat map_concat comp_def severity_part_lines)
  then show ?thesis using severities_partition [OF assms] by (simp add: mset_map)
qed

theorem template_lists_every_diff_witness:
  "mset (filter (\<lambda>l. \<not> starts_with ''## '' l) (concat (map (severity_part ''-''
     [\<lparr>df_severity = ''risky'', df_change_type = ''nullable_added'', df_path = ''a'', df_old_type = None, df_new_type = None,
       df_old_value = JNull, df_new_value = JNull, df_message = ''m''\<rparr>]) severity_titles))) = {#''- `a` - m''#}"
proof -
  let ?d = "\<lparr>df_severity = ''risky'', df_change_type = ''nullable_added'', df_path = ''a'', df_old_type = None, df_new_type = None,
       df_old_value = JNull, df_new_value = JNull, df_message = ''m''\<rparr>"
  have "list_all (\<lambda>d. df_severity d \<in> {''breaking'', ''risky'', ''safe''}) [?d]" by simp
  from template_lists_every_diff [OF this, of "''-''"] show ?thesis by (simp add: diff_line_def)
qed

definition example_diff_row :: SchemaDiff where
  "example_diff_row = \<lparr>sf_id = ''d'', sf_endpoint_id = ''e'', sf_old_snapshot_id = None, sf_new_snapshot_id = ''0'',
     sf_severity = ''risky'', sf_change_type = ''nullable_added'', sf_path = ''a'', sf_old_type = None, sf_new_type = None,
     sf_old_value = None, sf_new_value = None, sf_message = ''m'', sf_created_at = 1\<rparr>"

definition example_changelog_config :: changelog_config where
  "example_changelog_config = \<lparr>cc_sha = id, cc_api_key = Some ''key'', cc_llm_model = ''model'',
     cc_create = \<lambda>_. Inr [''## Breaking `x.y` gone''], cc_dash = ''-''\<rparr>"

theorem changelog_answer_witness:
  "\<exists>row. generate_handler example_changelog_config ''c'' 9 ''s'' (Some ''s'') ''0''
       ((example_monitor_db [example_snapshot_row (infer_schema (JObj [(''a'', JInt 1)]))])\<lparr>md_diffs := [example_diff_row]\<rparr>) [] =
       (Inr row, []) \<and> list_changelogs [] ''e'' 20 = Inr [] \<and> cl_diff_ids row = [''d'']"
proof -
  let ?db = "(example_monitor_db [example_snapshot_row (infer_schema (JObj [(''a'', JInt 1)]))])\<lparr>md_diffs := [example_diff_row]\<rparr>"
  let ?call = "generate_handler example_changelog_config ''c'' 9 ''s'' (Some ''s'') ''0'' ?db []"
  have "map_sum id cl_diff_ids (fst ?call) = Inr [''d'']" by code_simp
  then obtain row logs' where call: "?call = (Inr row, logs')" "cl_diff_ids row = [''d'']"
    by (cases "fst ?call"; cases ?call) auto
  from changelog_answer [OF changelog_reachable.empty call(1), of "''e''"] call show ?thesis by auto
qed

section \<open>The guard\<close>

text \<open>Nothing administrative happens without the secret, and nothing at all while none is configured.\<close>

lemma admin_guard:
  assumes "header \<noteq> Some expected \<or> expected = []"
  shows "\<exists>e. trigger_monitor expected header env got_lock entries db = (Inl e, db)"
    "\<exists>e. generate_handler cfg new_id now expected header snapshot_id db logs = (Inl e, logs)"
proof -
  have "\<exists>e. require_admin expected header = Inl e"
    using assms by (auto simp: require_admin_def Let_def split: option.splits)
  then show "\<exists>e. trigger_monitor expected header env got_lock entries db = (Inl e, db)"
    "\<exists>e. generate_handler cfg new_id now expected header snapshot_id db logs = (Inl e, logs)"
    by (auto simp: trigger_monitor_def generate_handler_def)
qed

end
