(* ===== verification/Responses.thy ===== *)
theory Responses
  imports Changelog_Api
begin

text \<open>
  The bodies of the monitor's answers: the response models of \<open>backend/app/schemas.py\<close> as JSON, for
  the handlers of \<open>Changelog_Api\<close>. \<open>isoformat\<close> writes a time, and \<open>stamps\<close> holds the two times of an endpoint
  row that the database server fills. The lemmas show that the models hide nothing of a row but the
  difference between no value and the JSON value \<open>null\<close>.
\<close>

section \<open>Response models\<close>

definition opt_json :: "json option \<Rightarrow> json" where
  "opt_json v = (case v of None \<Rightarrow> JNull | Some x \<Rightarrow> x)"

definition SnapshotOut :: "(int \<Rightarrow> string) \<Rightarrow> SchemaSnapshot \<Rightarrow> json" where
  "SnapshotOut isoformat s =
     JObj [(''id'', JStr (ss_id s)), (''endpoint_id'', JStr (ss_endpoint_id s)), (''monitor_run_id'', JStr (ss_run_id s)),
           (''schema_hash'', JStr (ss_schema_hash s)), (''status_code'', JInt (ss_status_code s)),
           (''response_time_ms'', JInt (ss_response_time_ms s)), (''response_size_bytes'', JInt (int (ss_response_size_bytes s))),
           (''normalized_schema_json'', opt_json (ss_schema_json s)), (''raw_sample_json'', opt_json (ss_raw_sample s)),
           (''fetch_error'', opt_text (ss_fetch_error s)), (''created_at'', JStr (isoformat (ss_created_at s)))]"

definition DiffOut :: "(int \<Rightarrow> string) \<Rightarrow> SchemaDiff \<Rightarrow> json" where
  "DiffOut isoformat d =
     JObj [(''id'', JStr (sf_id d)), (''endpoint_id'', JStr (sf_endpoint_id d)),
           (''old_snapshot_id'', opt_text (sf_old_snapshot_id d)), (''new_snapshot_id'', JStr (sf_new_snapshot_id d)),
           (''severity'', JStr (sf_severity d)), (''change_type'', JStr (sf_change_type d)), (''path'', JStr (sf_path d)),
           (''old_type'', opt_text (sf_old_type d)), (''new_type'', opt_text (sf_new_type d)),
           (''old_value_json'', opt_json (sf_old_value d)), (''new_value_json'', opt_json (sf_new_value d)),
           (''message'', JStr (sf_message d)), (''created_at'', JStr (isoformat (sf_created_at d)))]"

definition ChangelogOut :: "(int \<Rightarrow> string) \<Rightarrow> Changelog \<Rightarrow> json" where
  "ChangelogOut isoformat c =
     JObj [(''id'', JStr (cl_id c)), (''endpoint_id'', JStr (cl_endpoint_id c)), (''snapshot_id'', JStr (cl_snapshot_id c)),
           (''diff_ids'', JList (map JStr (cl_diff_ids c))), (''diff_set_hash'', JStr (cl_diff_set_hash c)),
           (''generated_text'', JStr (cl_generated_text c)), (''model_name'', opt_text (cl_model_name c)),
           (''created_at'', JStr (isoformat (cl_created_at c)))]"

definition MonitorRunOut :: "(int \<Rightarrow> string) \<Rightarrow> MonitorRun \<Rightarrow> json" where
  "MonitorRunOut isoformat r =
     JObj [(''id'', JStr (mr_id r)), (''started_at'', JStr (isoformat (mr_started_at r))),
           (''finished_at'', opt_text (map_option isoformat (mr_finished_at r))), (''status'', JStr (mr_status r)),
           (''endpoints_checked'', JInt (int (mr_endpoints_checked r))),
           (''snapshots_created'', JInt (int (mr_snapshots_created r))),
           (''diffs_detected'', JInt (int (mr_diffs_detected r))), (''error_message'', opt_text (mr_error_message r))]"

definition EndpointOut_json :: "(int \<Rightarrow> string) \<Rightarrow> (uuid \<Rightarrow> int \<times> int) \<Rightarrow> EndpointOut \<Rightarrow> json" where
  "EndpointOut_json isoformat stamps eo =
     (let ep = eo_endpoint eo; (created_at, updated_at) = stamps (ep_id ep) in
      JObj [(''id'', JStr (ep_id ep)), (''name'', JStr (ep_name ep)), (''provider'', JStr (ep_provider ep)),
            (''url'', JStr (ep_url ep)), (''method'', JStr (ep_method ep)), (''headers_json'', ep_headers ep),
            (''is_active'', JBool (ep_is_active ep)), (''created_at'', JStr (isoformat created_at)),
            (''updated_at'', JStr (isoformat updated_at)),
            (''latest_snapshot_hash'', opt_text (eo_latest_snapshot_hash eo)),
            (''latest_checked_at'', opt_text (map_option isoformat (eo_latest_checked_at eo)))])"

definition MonitorRunResponse_json :: "MonitorRunResponse \<Rightarrow> json" where
  "MonitorRunResponse_json r = JObj [(''monitor_run_id'', JStr (mo_monitor_run_id r)), (''status'', JStr (mo_status r))]"

text \<open>The body of a request for a changelog: an object with the id of a snapshot; anything else is answered 422.\<close>

definition ChangelogGenerateRequest :: "(string \<Rightarrow> uuid option) \<Rightarrow> json \<Rightarrow> py_exc + uuid" where
  "ChangelogGenerateRequest parse_uuid body =
     (case jget body ''snapshot_id'' of
        Some (JStr s) \<Rightarrow> (case parse_uuid s of Some i \<Rightarrow> Inr i | None \<Rightarrow> Inl (HTTPException 422 ''snapshot_id''))
      | _ \<Rightarrow> Inl (HTTPException 422 ''snapshot_id''))"

section \<open>What a reader learns of the rows\<close>

lemma opt_text_inject [simp]: "opt_text v = opt_text v' \<longleftrightarrow> v = v'"
  by (auto simp: opt_text_def split: option.splits)

lemma map_JStr_eq [simp]: "map JStr xs = map JStr ys \<longleftrightarrow> xs = ys"
  by (rule inj_map_eq_map) (simp add: inj_def)

text \<open>A row with its missing JSON values written as \<open>null\<close>.\<close>

definition shown_snapshot :: "SchemaSnapshot \<Rightarrow> SchemaSnapshot" where
  "shown_snapshot s = s\<lparr>ss_schema_json := Some (opt_json (ss_schema_json s)), ss_raw_sample := Some (opt_json (ss_raw_sample s))\<rparr>"

definition shown_diff :: "SchemaDiff \<Rightarrow> SchemaDiff" where
  "shown_diff d = d\<lparr>sf_old_value := Some (opt_json (sf_old_value d)), sf_new_value := Some (opt_json (sf_new_value d))\<rparr>"

theorem answers_show_rows:
  assumes "inj isoformat"
  shows "SnapshotOut isoformat s = SnapshotOut isoformat s' \<longleftrightarrow> shown_snapshot s = shown_snapshot s'"
    and "DiffOut isoformat d = DiffOut isoformat d' \<longleftrightarrow> shown_diff d = shown_diff d'"
    and "ChangelogOut isoformat c = ChangelogOut isoformat c' \<longleftrightarrow> c = c'"
    and "MonitorRunOut isoformat r = MonitorRunOut isoformat r' \<longleftrightarrow> r = r'"
proof -
  have isoformat: "isoformat t = isoformat t' \<longleftrightarrow> t = t'" for t t' using assms by (simp add: inj_eq)
  have opt_iso: "map_option isoformat v = map_option isoformat v' \<longleftrightarrow> v = v'" for v v'
    using assms by (simp add: inj_eq option.inj_map)
  show "SnapshotOut isoformat s = SnapshotOut isoformat s' \<longleftrightarrow> shown_snapshot s = shown_snapshot s'"
    by (cases s; cases s') (auto simp: SnapshotOut_def shown_snapshot_def isoformat)
  show "DiffOut isoformat d = DiffOut isoformat d' \<longleftrightarrow> shown_diff d = shown_diff d'"
    by (cases d; cases d') (auto simp: DiffOut_def shown_diff_def isoformat)
  show "ChangelogOut isoformat c = ChangelogOut isoformat c' \<longleftrightarrow> c = c'"
    by (cases c; cases c') (auto simp: ChangelogOut_def isoformat)
  show "MonitorRunOut isoformat r = MonitorRunOut isoformat r' \<longleftrightarrow> r = r'"
    by (cases r; cases r') (auto simp: MonitorRunOut_def isoformat opt_iso)
qed

text \<open>
  The listing of endpoints fails as a whole: it is answered exactly when the headers of every row are
  an object, and an entry of the registry file whose headers are a list is stored as it is.
\<close>

lemma map_exc_defined_iff: "(\<exists>ys. map_exc f xs = Inr ys) \<longleftrightarrow> (\<forall>x \<in> set xs. \<exists>y. f x = Inr y)"
  by (induction xs) (auto split: sum.splits)

theorem endpoints_listed_iff:
  "(\<exists>answer. list_endpoints db = Inr answer) \<longleftrightarrow> (\<forall>ep \<in> set (md_endpoints db). is_obj (ep_headers ep))"
  unfolding list_endpoints_def map_exc_defined_iff by (auto simp: endpoint_out_def Let_def)

end
