(* ===== verification/Contract_Review.thy ===== *)
theory Contract_Review
  imports Schema_Diff
begin

text \<open>
  The two scripts that compare OpenAPI documents before a merge: \<open>scripts/openapi_diff.py\<close> (also run
  by \<open>scripts/contract_check.py\<close>) and \<open>scripts/contract_review_agent.py\<close>, which has its own copy of
  the comparison and writes a review with a decision. Both take two parsed JSON documents.
\<close>

section \<open>Reading a document\<close>

definition exc_bind :: "py_exc + 'a \<Rightarrow> ('a \<Rightarrow> py_exc + 'b) \<Rightarrow> py_exc + 'b" where
  "exc_bind r f = (case r of Inl e \<Rightarrow> Inl e | Inr x \<Rightarrow> f x)"

lemma exc_bind_simps [simp]: "exc_bind (Inl e) f = Inl e" "exc_bind (Inr x) f = f x"
  by (simp_all add: exc_bind_def)

lemma exc_bind_Inr: "exc_bind r f = Inr y \<longleftrightarrow> (\<exists>x. r = Inr x \<and> f x = Inr y)"
  by (cases r) auto

definition extract_schema :: "json \<Rightarrow> json dict" where
  "extract_schema payload =
     (case payload of
        JObj kvs \<Rightarrow>
          (case (case map_of kvs ''components'' of
                   Some (JObj comps) \<Rightarrow>
                     (case map_of comps ''schemas'' of Some (JObj schemas) \<Rightarrow> Some schemas | _ \<Rightarrow> None)
                 | _ \<Rightarrow> None) of
             Some schemas \<Rightarrow> schemas
           | None \<Rightarrow> (case map_of kvs ''schema'' of Some (JObj schema) \<Rightarrow> schema | _ \<Rightarrow> kvs))
      | _ \<Rightarrow> [])"

definition field_type :: "json \<Rightarrow> string" where
  "field_type field_schema = (case jget field_schema ''type'' of Some (JStr v) \<Rightarrow> v | _ \<Rightarrow> [])"

text \<open>
  The names in \<open>set(value)\<close>. A list or an object inside the list cannot be hashed; a list of numbers,
  booleans or nulls, which Python would compare as such, counts as an error here.
\<close>

fun item_name :: "json \<Rightarrow> py_exc + string" where
  "item_name (JStr s) = Inr s"
| "item_name _ = Inl (TypeError ''unhashable type'')"

fun member_names :: "json \<Rightarrow> py_exc + string list" where
  "member_names (JObj kvs) = Inr (keys kvs)"
| "member_names (JList vs) = map_exc item_name vs"
| "member_names (JStr s) = Inr (map (\<lambda>c. [c]) s)"
| "member_names _ = Inl (TypeError ''object is not iterable'')"

definition properties_of :: "json \<Rightarrow> json" where
  "properties_of d = (case jget d ''properties'' of Some v \<Rightarrow> v | None \<Rightarrow> JObj [])"

definition required_of :: "json \<Rightarrow> py_exc + string list" where
  "required_of d =
     (case jget d ''required'' of None \<Rightarrow> Inr [] | Some v \<Rightarrow> if truthy v then member_names v else Inr [])"

definition property_at :: "json \<Rightarrow> string \<Rightarrow> py_exc + json" where
  "property_at props f =
     (case props of
        JObj kvs \<Rightarrow> (case map_of kvs f of Some v \<Rightarrow> Inr v | None \<Rightarrow> Inl (KeyError f))
      | _ \<Rightarrow> Inl (TypeError ''indices must be integers''))"

text \<open>The type names of a field on both sides.\<close>

definition field_types :: "json \<Rightarrow> json \<Rightarrow> string \<Rightarrow> py_exc + string \<times> string \<times> string" where
  "field_types old_props new_props f =
     exc_bind (property_at old_props f) (\<lambda>old_field.
     exc_bind (property_at new_props f) (\<lambda>new_field.
     Inr (f, field_type old_field, field_type new_field)))"

definition retyped :: "string \<times> string \<times> string \<Rightarrow> bool" where
  "retyped c = (case c of (f, old_type, new_type) \<Rightarrow> old_type \<noteq> [] \<and> new_type \<noteq> [] \<and> old_type \<noteq> new_type)"

text \<open>\<open>sorted(set(xs) - set(ys))\<close> and \<open>sorted(set(xs) & set(ys))\<close>.\<close>

definition sorted_diff :: "string list \<Rightarrow> string list \<Rightarrow> string list" where
  "sorted_diff xs ys = sorted_set (filter (\<lambda>x. x \<notin> set ys) xs)"

definition sorted_both :: "string list \<Rightarrow> string list \<Rightarrow> string list" where
  "sorted_both xs ys = sorted_set (filter (\<lambda>x. x \<in> set ys) xs)"

definition schema_at :: "json dict \<Rightarrow> string \<Rightarrow> json" where
  "schema_at schemas name = (case map_of schemas name of Some v \<Rightarrow> v | None \<Rightarrow> JNull)"

section \<open>The diff script\<close>

record openapi_diff =
  od_removed_fields :: "string list"
  od_type_changes :: "string list"
  od_required_changes :: "string list"
  od_added_optional_fields :: "string list"

text \<open>\<open>old.get\<close> on anything but a dictionary raises.\<close>

definition get_required :: "json \<Rightarrow> py_exc + string list" where
  "get_required d = (if is_obj d then required_of d else Inl (AttributeError ''get''))"

definition openapi_diff_schemas :: "json \<Rightarrow> json \<Rightarrow> py_exc + openapi_diff" where
  "openapi_diff_schemas old new =
     (let old_props = properties_of old; new_props = properties_of new in
      exc_bind (get_required old) (\<lambda>old_required.
      exc_bind (get_required new) (\<lambda>new_required.
      exc_bind (member_names old_props) (\<lambda>old_names.
      exc_bind (member_names new_props) (\<lambda>new_names.
      exc_bind (map_exc (field_types old_props new_props) (sorted_both old_names new_names)) (\<lambda>types.
      Inr \<lparr>od_removed_fields = sorted_diff old_names new_names,
           od_type_changes =
             map (\<lambda>(f, old_type, new_type). f @ '': '' @ old_type @ '' -> '' @ new_type) (filter retyped types),
           od_required_changes =
             map (\<lambda>f. ''added required field: '' @ f)
               (filter (\<lambda>f. f \<in> set new_required) (sorted_diff new_names old_names)) @
             map (\<lambda>f. ''field became required: '' @ f) (sorted_diff new_required old_required) @
             map (\<lambda>f. ''field no longer required: '' @ f) (sorted_diff old_required new_required),
           od_added_optional_fields =
             filter (\<lambda>f. f \<notin> set new_required) (sorted_diff new_names old_names)\<rparr>))))))"

record openapi_verdict =
  ov_breaking :: bool
  ov_diff :: openapi_diff

definition breaking_item :: "string \<Rightarrow> bool" where
  "breaking_item item = (occurs_in ''required'' item \<and> \<not> occurs_in ''no longer'' item)"

definition classify_diff :: "openapi_diff \<Rightarrow> openapi_verdict" where
  "classify_diff d =
     \<lparr>ov_breaking = (od_removed_fields d \<noteq> [] \<or> od_type_changes d \<noteq> [] \<or> list_ex breaking_item (od_required_changes d)),
      ov_diff = d\<rparr>"

definition diff_openapi_documents :: "json \<Rightarrow> json \<Rightarrow> py_exc + openapi_verdict" where
  "diff_openapi_documents old_payload new_payload =
     (let old_schemas = extract_schema old_payload; new_schemas = extract_schema new_payload in
      exc_bind (map_exc (\<lambda>name. openapi_diff_schemas (schema_at old_schemas name) (schema_at new_schemas name))
          (sorted_both (keys old_schemas) (keys new_schemas))) (\<lambda>diffs.
      Inr (classify_diff
        \<lparr>od_removed_fields = map (\<lambda>name. ''schema:'' @ name) (sorted_diff (keys old_schemas) (keys new_schemas)) @
           concat (map od_removed_fields diffs),
         od_type_changes = concat (map od_type_changes diffs),
         od_required_changes = concat (map od_required_changes diffs),
         od_added_optional_fields =
           map (\<lambda>name. ''schema:'' @ name) (sorted_diff (keys new_schemas) (keys old_schemas)) @
           concat (map od_added_optional_fields diffs)\<rparr>)))"

text \<open>\<open>main\<close> of both command line scripts, after printing the verdict.\<close>

definition check_main :: "json \<Rightarrow> json \<Rightarrow> py_exc + openapi_verdict" where
  "check_main old_payload new_payload =
     exc_bind (diff_openapi_documents old_payload new_payload)
       (\<lambda>result. if ov_breaking result then Inl (SystemExit 1) else Inr result)"

section \<open>The review script\<close>

record review_diff =
  rv_breaking :: bool
  rv_breaking_changes :: "string list"
  rv_non_breaking_changes :: "string list"

definition guarded_required :: "json \<Rightarrow> py_exc + string list" where
  "guarded_required d = (if is_obj d then required_of d else Inr [])"

definition review_schema :: "string \<Rightarrow> json \<Rightarrow> json \<Rightarrow> py_exc + string list \<times> string list" where
  "review_schema name old new =
     (let old_props = properties_of old; new_props = properties_of new; field = (\<lambda>f. name @ ''.'' @ f) in
      exc_bind (guarded_required old) (\<lambda>old_required.
      exc_bind (guarded_required new) (\<lambda>new_required.
      exc_bind (member_names old_props) (\<lambda>old_names.
      exc_bind (member_names new_props) (\<lambda>new_names.
      exc_bind (map_exc (field_types old_props new_props) (sorted_both old_names new_names)) (\<lambda>types.
      Inr (map (\<lambda>f. field f @ '' removed'') (sorted_diff old_names new_names) @
           map (\<lambda>f. field f @ '' added as required'')
             (filter (\<lambda>f. f \<in> set new_required) (sorted_diff new_names old_names)) @
           map (\<lambda>(f, old_type, new_type). field f @ '' type '' @ old_type @ '' -> '' @ new_type)
             (filter retyped types) @
           map (\<lambda>f. field f @ '' became required'') (sorted_diff new_required old_required),
           map (\<lambda>f. field f @ '' added as optional'')
             (filter (\<lambda>f. f \<notin> set new_required) (sorted_diff new_names old_names)) @
           map (\<lambda>f. field f @ '' no longer required'') (sorted_diff old_required new_required))))))))"

definition review_documents :: "json \<Rightarrow> json \<Rightarrow> py_exc + review_diff" where
  "review_documents old_payload new_payload =
     (let old_schemas = extract_schema old_payload; new_schemas = extract_schema new_payload in
      exc_bind (map_exc (\<lambda>name. review_schema name (schema_at old_schemas name) (schema_at new_schemas name))
          (sorted_both (keys old_schemas) (keys new_schemas))) (\<lambda>changes.
      let breaking_changes =
            map (\<lambda>name. ''schema removed: '' @ name) (sorted_diff (keys old_schemas) (keys new_schemas)) @
            concat (map fst changes) in
      Inr \<lparr>rv_breaking = (breaking_changes \<noteq> []),
           rv_breaking_changes = breaking_changes,
           rv_non_breaking_changes =
             map (\<lambda>name. ''schema added: '' @ name) (sorted_diff (keys new_schemas) (keys old_schemas)) @
             concat (map snd changes)\<rparr>))"

text \<open>
  A step of the trace; its time is what the clock measured. \<open>latency\<close> lists the measurements, and
  \<open>run_id\<close> is a random identifier.
\<close>

record TraceStep =
  ts_step_name :: string
  ts_input_summary :: string
  ts_tool_name :: string
  ts_tool_args_summary :: "string option"
  ts_output_summary :: string
  ts_latency_ms :: pyfloat
  ts_status :: string
  ts_error :: "string option"

definition record_step ::
  "string \<Rightarrow> string \<Rightarrow> string \<Rightarrow> string \<Rightarrow> string option \<Rightarrow> pyfloat \<Rightarrow> TraceStep list \<Rightarrow> TraceStep list" where
  "record_step step_name input_summary output_summary tool_name tool_args_summary latency_ms trace =
     trace @ [\<lparr>ts_step_name = step_name, ts_input_summary = input_summary, ts_tool_name = tool_name,
       ts_tool_args_summary = tool_args_summary, ts_output_summary = output_summary, ts_latency_ms = latency_ms,
       ts_status = ''ok'', ts_error = None\<rparr>]"

record review =
  rw_breaking_changes :: "string list"
  rw_non_breaking_changes :: "string list"
  rw_risk_level :: string
  rw_suggested_migration :: string
  rw_ci_decision :: string
  rw_pr_comment_markdown :: string
  rw_trace :: "TraceStep list"

definition bullet_lines :: "string list \<Rightarrow> string list" where
  "bullet_lines items = (if items = [] then [''- None''] else map (\<lambda>item. ''- '' @ item) items)"

definition pr_comment :: "string \<Rightarrow> string \<Rightarrow> string \<Rightarrow> review_diff \<Rightarrow> string" where
  "pr_comment ci_decision risk_level suggested_migration d =
     join newline
       ([''## DriftGate Contract Review'', ''- CI decision: '' @ ci_decision, ''- Risk level: '' @ risk_level, [],
         ''### Breaking changes''] @ bullet_lines (rv_breaking_changes d) @
        [[], ''### Non-breaking changes''] @ bullet_lines (rv_non_breaking_changes d) @
        [[], ''### Suggested migration'' @ newline @ suggested_migration])"

definition build_review :: "string \<Rightarrow> (nat \<Rightarrow> pyfloat) \<Rightarrow> json \<Rightarrow> json \<Rightarrow> py_exc + review" where
  "build_review run_id latency old_payload new_payload =
     exc_bind (review_documents old_payload new_payload) (\<lambda>d.
       let n = show_nat (length (rv_breaking_changes d));
           trace1 = record_step ''OpenAPI Diff Agent''
             (''old='' @ show_texts (sorted_set (keys (extract_schema old_payload))) @
              '', new='' @ show_texts (sorted_set (keys (extract_schema new_payload))))
             (n @ '' breaking, '' @ show_nat (length (rv_non_breaking_changes d)) @ '' non-breaking'')
             ''diff_openapi_documents'' (Some (''run_id='' @ run_id)) (latency 0) [];
           risk_level = (if rv_breaking d then ''high'' else ''low'');
           trace2 = record_step ''Breaking Change Classifier'' (''breaking='' @ n) (''risk_level='' @ risk_level)
             ''classify_review_risk'' None (latency 1) trace1;
           (suggested_migration, ci_decision) =
             (if rv_breaking_changes d \<noteq> []
              then (''Update consumers for the listed breaking changes before merging.'', ''fail'')
              else (''No migration required for the documented changes.'', ''pass''));
           trace3 = record_step ''Migration Suggestion Agent'' (n @ '' breaking change(s)'') suggested_migration
             ''suggest_migration'' None (latency 2) trace2;
           trace4 = record_step ''CI Gate Agent'' (''risk_level='' @ risk_level) (''ci_decision='' @ ci_decision)
             ''ci_gate'' None (latency 3) trace3;
           trace5 = record_step ''PR Comment Generator'' (''decision='' @ ci_decision) ''PR comment generated''
             ''generate_pr_comment'' None (latency 4) trace4 in
       Inr \<lparr>rw_breaking_changes = rv_breaking_changes d, rw_non_breaking_changes = rv_non_breaking_changes d,
            rw_risk_level = risk_level, rw_suggested_migration = suggested_migration, rw_ci_decision = ci_decision,
            rw_pr_comment_markdown = pr_comment ci_decision risk_level suggested_migration d, rw_trace = trace5\<rparr>)"

section \<open>Both comparisons agree\<close>

lemma set_sorted_diff [simp]: "set (sorted_diff xs ys) = set xs - set ys"
  by (auto simp: sorted_diff_def)

lemma set_sorted_both [simp]: "set (sorted_both xs ys) = set xs \<inter> set ys"
  by (auto simp: sorted_both_def)

lemma sorted_diff_Nil [simp]: "sorted_diff xs ys = [] \<longleftrightarrow> set xs \<subseteq> set ys"
  by (auto simp: sorted_diff_def filter_empty_conv)

lemma occurs_in_iff: "occurs_in p xs \<longleftrightarrow> (\<exists>as bs. xs = as @ p @ bs)"
proof (induction xs)
  case (Cons x xs)
  have "take (length p) (x # xs) = p \<longleftrightarrow> (\<exists>bs. x # xs = p @ bs)"
    by (metis append_eq_conv_conj append_take_drop_id)
  then show ?case using Cons by (simp add: Cons_eq_append_conv) blast
qed auto

lemma breaking_item_simps:
  "breaking_item (''added required field: '' @ f) \<longleftrightarrow> \<not> occurs_in ''no longer'' f"
  "breaking_item (''field became required: '' @ f) \<longleftrightarrow> \<not> occurs_in ''no longer'' f"
  "\<not> breaking_item (''field no longer required: '' @ f)"
proof -
  have "occurs_in ''required'' (''added required field: '' @ f)"
    unfolding occurs_in_iff by (rule exI [of _ "''added ''"], rule exI [of _ "'' field: '' @ f"]) simp
  moreover have "occurs_in ''required'' (''field became required: '' @ f)"
    unfolding occurs_in_iff by (rule exI [of _ "''field became ''"], rule exI [of _ "'': '' @ f"]) simp
  moreover have "occurs_in ''no longer'' (''field no longer required: '' @ f)"
    unfolding occurs_in_iff by (rule exI [of _ "''field ''"], rule exI [of _ "'' required: '' @ f"]) simp
  ultimately show "breaking_item (''added required field: '' @ f) \<longleftrightarrow> \<not> occurs_in ''no longer'' f"
    "breaking_item (''field became required: '' @ f) \<longleftrightarrow> \<not> occurs_in ''no longer'' f"
    "\<not> breaking_item (''field no longer required: '' @ f)"
    by (simp_all add: breaking_item_def)
qed

lemmas breaking_items = breaking_item_simps [unfolded append_Cons append_Nil]

text \<open>What both comparisons of one schema see, on schemas that are objects.\<close>

definition breaking_part :: "openapi_diff \<Rightarrow> bool" where
  "breaking_part d = (od_removed_fields d \<noteq> [] \<or> od_type_changes d \<noteq> [] \<or> list_ex breaking_item (od_required_changes d))"

definition plain_required :: "json \<Rightarrow> bool" where
  "plain_required d = (case required_of d of Inl _ \<Rightarrow> True | Inr fs \<Rightarrow> list_all (\<lambda>f. \<not> occurs_in ''no longer'' f) fs)"

lemma breaking_parts:
  "list_ex breaking_part ds \<longleftrightarrow> concat (map od_removed_fields ds) \<noteq> [] \<or> concat (map od_type_changes ds) \<noteq> [] \<or>
     list_ex breaking_item (concat (map od_required_changes ds))"
  by (induction ds) (auto simp: breaking_part_def)

lemma filter_Nil_subset: "filter P xs = [] \<longleftrightarrow> (\<forall>x \<in> set xs. \<not> P x)"
  by (simp add: filter_empty_conv)

lemma schemas_agree:
  assumes "openapi_diff_schemas old new = Inr d"
  shows "\<exists>b nb. review_schema name old new = Inr (b, nb) \<and> (breaking_part d \<longrightarrow> b \<noteq> []) \<and>
    (plain_required new \<longrightarrow> (breaking_part d \<longleftrightarrow> b \<noteq> []))"
proof -
  from assms obtain ro rn os ns ts where r: "get_required old = Inr ro" "get_required new = Inr rn"
    "member_names (properties_of old) = Inr os" "member_names (properties_of new) = Inr ns"
    "map_exc (field_types (properties_of old) (properties_of new)) (sorted_both os ns) = Inr ts"
    and d: "d = \<lparr>od_removed_fields = sorted_diff os ns,
           od_type_changes = map (\<lambda>(f, old_type, new_type). f @ '': '' @ old_type @ '' -> '' @ new_type) (filter retyped ts),
           od_required_changes =
             map (\<lambda>f. ''added required field: '' @ f) (filter (\<lambda>f. f \<in> set rn) (sorted_diff ns os)) @
             map (\<lambda>f. ''field became required: '' @ f) (sorted_diff rn ro) @
             map (\<lambda>f. ''field no longer required: '' @ f) (sorted_diff ro rn),
           od_added_optional_fields = filter (\<lambda>f. f \<notin> set rn) (sorted_diff ns os)\<rparr>"
    by (auto simp: openapi_diff_schemas_def Let_def exc_bind_Inr)
  have guarded: "guarded_required old = Inr ro" "guarded_required new = Inr rn"
    using r(1,2) by (auto simp: get_required_def guarded_required_def split: if_splits)
  have part: "breaking_part d \<longleftrightarrow> sorted_diff os ns \<noteq> [] \<or> filter retyped ts \<noteq> [] \<or>
      (\<exists>f \<in> set rn. (f \<in> set ns - set os \<or> f \<notin> set ro) \<and> \<not> occurs_in ''no longer'' f)"
    unfolding d breaking_part_def by (simp add: list_ex_iff bex_Un breaking_items filter_empty_conv) blast
  have req: "plain_required new \<longleftrightarrow> (\<forall>f \<in> set rn. \<not> occurs_in ''no longer'' f)"
    using r(2) by (auto simp: get_required_def plain_required_def list_all_iff split: if_splits)
  show ?thesis
    by (simp add: review_schema_def Let_def guarded r(3,4,5) part req filter_Nil_subset) blast
qed

lemma documents_agree:
  assumes "map_exc (\<lambda>n. openapi_diff_schemas (o1 n) (n1 n)) ns = Inr ds"
  shows "\<exists>cs. map_exc (\<lambda>n. review_schema n (o1 n) (n1 n)) ns = Inr cs \<and>
    (list_ex breaking_part ds \<longrightarrow> list_ex (\<lambda>c. fst c \<noteq> []) cs) \<and>
    (list_all (\<lambda>n. plain_required (n1 n)) ns \<longrightarrow> (list_ex breaking_part ds \<longleftrightarrow> list_ex (\<lambda>c. fst c \<noteq> []) cs))"
  using assms
proof (induction ns arbitrary: ds)
  case (Cons n ns)
  then obtain d ds' where d: "openapi_diff_schemas (o1 n) (n1 n) = Inr d" "ds = d # ds'"
    "map_exc (\<lambda>n. openapi_diff_schemas (o1 n) (n1 n)) ns = Inr ds'"
    by (auto split: sum.splits)
  obtain b nb where "review_schema n (o1 n) (n1 n) = Inr (b, nb)" "breaking_part d \<longrightarrow> b \<noteq> []"
    "plain_required (n1 n) \<longrightarrow> (breaking_part d \<longleftrightarrow> b \<noteq> [])"
    using schemas_agree [OF d(1), of n] by auto
  with Cons.IH [OF d(3)] d(2) show ?case by auto
qed simp

text \<open>No name in a \<open>required\<close> list of the document contains the words the verdict looks for.\<close>

definition plain_names :: "json \<Rightarrow> bool" where
  "plain_names payload = list_all (\<lambda>(name, schema). plain_required schema) (extract_schema payload)"

lemma plain_schema_at: "plain_names payload \<Longrightarrow> plain_required (schema_at (extract_schema payload) name)"
  by (auto simp: plain_names_def schema_at_def list_all_iff plain_required_def required_of_def
      dest!: map_of_SomeD split: option.splits)

text \<open>
  C30. The two comparisons give the same verdict: whenever the diff script succeeds so does the review,
  every difference it calls breaking fails the review, and the verdicts are equal unless a required
  field has the words \<open>no longer\<close> in its name, which the diff script looks for in its own messages.
\<close>

theorem review_agrees_with_diff:
  assumes "diff_openapi_documents old_payload new_payload = Inr verdict"
  shows "\<exists>r. review_documents old_payload new_payload = Inr r \<and> (ov_breaking verdict \<longrightarrow> rv_breaking r) \<and>
    (plain_names new_payload \<longrightarrow> ov_breaking verdict = rv_breaking r)"
proof -
  let ?o = "extract_schema old_payload" and ?n = "extract_schema new_payload"
  let ?ns = "sorted_both (keys ?o) (keys ?n)"
  obtain ds where ds: "map_exc (\<lambda>name. openapi_diff_schemas (schema_at ?o name) (schema_at ?n name)) ?ns = Inr ds"
    using assms by (auto simp: diff_openapi_documents_def Let_def exc_bind_Inr)
  then have v: "ov_breaking verdict \<longleftrightarrow> sorted_diff (keys ?o) (keys ?n) \<noteq> [] \<or> list_ex breaking_part ds"
    using assms breaking_parts [of ds]
    by (auto simp: diff_openapi_documents_def Let_def classify_diff_def simp del: concat_eq_Nil_conv sorted_diff_Nil)
  obtain cs where cs: "map_exc (\<lambda>name. review_schema name (schema_at ?o name) (schema_at ?n name)) ?ns = Inr cs"
    and agree: "list_ex breaking_part ds \<longrightarrow> list_ex (\<lambda>c. fst c \<noteq> []) cs"
      "list_all (\<lambda>name. plain_required (schema_at ?n name)) ?ns \<longrightarrow> (list_ex breaking_part ds \<longleftrightarrow> list_ex (\<lambda>c. fst c \<noteq> []) cs)"
    using documents_agree [OF ds] by blast
  have "plain_names new_payload \<longrightarrow> list_all (\<lambda>name. plain_required (schema_at ?n name)) ?ns"
    by (simp add: list_all_iff plain_schema_at)
  with agree show ?thesis
    by (auto simp: review_documents_def Let_def cs v list_ex_iff)
qed

definition api_document :: "json dict \<Rightarrow> string list \<Rightarrow> json" where
  "api_document props required =
     JObj [(''components'', JObj [(''schemas'', JObj [(''Event'',
       JObj [(''type'', JStr ''object''), (''properties'', JObj props), (''required'', JList (map JStr required))])])])]"

definition text_field :: json where
  "text_field = JObj [(''type'', JStr ''string'')]"

theorem review_agrees_with_diff_witness:
  "\<exists>verdict r. diff_openapi_documents (api_document [(''id'', text_field)] [''id'']) (api_document [] []) = Inr verdict \<and>
     review_documents (api_document [(''id'', text_field)] [''id'']) (api_document [] []) = Inr r \<and>
     ov_breaking verdict \<and> rv_breaking r"
proof -
  let ?old = "api_document [(''id'', text_field)] [''id'']" and ?new = "api_document [] []"
  have "map_sum id ov_breaking (diff_openapi_documents ?old ?new) = Inr True" by code_simp
  then obtain verdict where v: "diff_openapi_documents ?old ?new = Inr verdict" "ov_breaking verdict"
    by (cases "diff_openapi_documents ?old ?new") auto
  with review_agrees_with_diff [OF v(1)] show ?thesis by blast
qed

section \<open>What the review decides\<close>

definition names_in :: "json \<Rightarrow> string set" where
  "names_in v = (case member_names v of Inr ns \<Rightarrow> set ns | Inl _ \<Rightarrow> {})"

definition required_in :: "json \<Rightarrow> string set" where
  "required_in d = (case guarded_required d of Inr ns \<Rightarrow> set ns | Inl _ \<Rightarrow> {})"

definition type_in :: "json \<Rightarrow> string \<Rightarrow> string" where
  "type_in d f = (case property_at (properties_of d) f of Inr v \<Rightarrow> field_type v | Inl _ \<Rightarrow> [])"

definition schema_breaks :: "json \<Rightarrow> json \<Rightarrow> bool" where
  "schema_breaks old new \<longleftrightarrow>
     (let o_names = names_in (properties_of old); n_names = names_in (properties_of new) in
      \<not> o_names \<subseteq> n_names \<or> (n_names - o_names) \<inter> required_in new \<noteq> {} \<or> \<not> required_in new \<subseteq> required_in old \<or>
      (\<exists>f \<in> o_names \<inter> n_names. type_in old f \<noteq> [] \<and> type_in new f \<noteq> [] \<and> type_in old f \<noteq> type_in new f))"

definition document_breaks :: "json dict \<Rightarrow> json dict \<Rightarrow> bool" where
  "document_breaks old new \<longleftrightarrow>
     (\<exists>name \<in> set (keys old). name \<notin> set (keys new) \<or> schema_breaks (schema_at old name) (schema_at new name))"

lemma map_exc_set: "map_exc f xs = Inr ys \<Longrightarrow> set ys = {y. \<exists>x \<in> set xs. f x = Inr y}"
  by (induction xs arbitrary: ys) (auto split: sum.splits)

lemma map_exc_defined: "map_exc f xs = Inr ys \<Longrightarrow> x \<in> set xs \<Longrightarrow> \<exists>y. f x = Inr y"
  by (induction xs arbitrary: ys) (auto split: sum.splits)

lemma retyped_fields:
  assumes "map_exc (field_types (properties_of old) (properties_of new)) fs = Inr ts"
  shows "filter retyped ts \<noteq> [] \<longleftrightarrow>
    (\<exists>f \<in> set fs. type_in old f \<noteq> [] \<and> type_in new f \<noteq> [] \<and> type_in old f \<noteq> type_in new f)"
proof -
  have types: "field_types (properties_of old) (properties_of new) f = Inr t \<longleftrightarrow> t = (f, type_in old f, type_in new f)"
    if "f \<in> set fs" for f t
    using map_exc_defined [OF assms that] by (auto simp: field_types_def exc_bind_Inr type_in_def)
  then have "set ts = {t. \<exists>f \<in> set fs. t = (f, type_in old f, type_in new f)}"
    using map_exc_set [OF assms] by blast
  then show ?thesis by (auto simp: filter_empty_conv retyped_def)
qed

lemma review_schema_breaks:
  assumes "review_schema name old new = Inr (b, nb)"
  shows "b \<noteq> [] \<longleftrightarrow> schema_breaks old new"
proof -
  from assms obtain ro rn os ns ts where r: "guarded_required old = Inr ro" "guarded_required new = Inr rn"
    "member_names (properties_of old) = Inr os" "member_names (properties_of new) = Inr ns"
    "map_exc (field_types (properties_of old) (properties_of new)) (sorted_both os ns) = Inr ts"
    and b: "b \<noteq> [] \<longleftrightarrow> sorted_diff os ns \<noteq> [] \<or> filter (\<lambda>f. f \<in> set rn) (sorted_diff ns os) \<noteq> [] \<or>
      filter retyped ts \<noteq> [] \<or> sorted_diff rn ro \<noteq> []"
    by (auto simp: review_schema_def Let_def exc_bind_Inr)
  show ?thesis
    unfolding b retyped_fields [OF r(5)]
    by (simp add: schema_breaks_def Let_def names_in_def required_in_def r filter_empty_conv) blast
qed

lemma review_schemas_break:
  assumes "map_exc (\<lambda>n. review_schema n (o1 n) (n1 n)) ns = Inr cs"
  shows "concat (map fst cs) \<noteq> [] \<longleftrightarrow> (\<exists>n \<in> set ns. schema_breaks (o1 n) (n1 n))"
  using assms
proof (induction ns arbitrary: cs)
  case (Cons n ns)
  then obtain b nb cs' where "review_schema n (o1 n) (n1 n) = Inr (b, nb)" "cs = (b, nb) # cs'"
    "map_exc (\<lambda>n. review_schema n (o1 n) (n1 n)) ns = Inr cs'"
    by (auto split: sum.splits)
  with Cons.IH [of cs'] review_schema_breaks [of n "o1 n" "n1 n" b nb] show ?case
    by (simp del: concat_eq_Nil_conv)
qed simp

lemma review_documents_break:
  assumes "review_documents old_payload new_payload = Inr d"
  shows "rv_breaking_changes d \<noteq> [] \<longleftrightarrow> document_breaks (extract_schema old_payload) (extract_schema new_payload)"
    "rv_breaking d \<longleftrightarrow> rv_breaking_changes d \<noteq> []"
proof -
  let ?o = "extract_schema old_payload" and ?n = "extract_schema new_payload"
  obtain cs where cs: "map_exc (\<lambda>name. review_schema name (schema_at ?o name) (schema_at ?n name))
      (sorted_both (keys ?o) (keys ?n)) = Inr cs"
    and d: "rv_breaking_changes d = map (\<lambda>name. ''schema removed: '' @ name) (sorted_diff (keys ?o) (keys ?n)) @ concat (map fst cs)"
    and b: "rv_breaking d \<longleftrightarrow> rv_breaking_changes d \<noteq> []"
    using assms by (auto simp: review_documents_def Let_def exc_bind_Inr)
  show "rv_breaking d \<longleftrightarrow> rv_breaking_changes d \<noteq> []" by (rule b)
  have "rv_breaking_changes d \<noteq> [] \<longleftrightarrow> sorted_diff (keys ?o) (keys ?n) \<noteq> [] \<or> concat (map fst cs) \<noteq> []"
    unfolding d by blast
  then show "rv_breaking_changes d \<noteq> [] \<longleftrightarrow> document_breaks ?o ?n"
    unfolding review_schemas_break [OF cs] document_breaks_def sorted_diff_Nil set_sorted_both by blast
qed

text \<open>
  The review fails a change, at high risk, exactly when a schema is gone or some schema of both
  documents breaks: a field is gone, changed its type, was added as required, or became required. Its
  decision, its risk level and its comment follow from that alone, and the trace has its five steps.
\<close>

theorem review_decision:
  assumes "build_review run_id latency old_payload new_payload = Inr r"
  shows "(rw_ci_decision r, rw_risk_level r) =
      (if document_breaks (extract_schema old_payload) (extract_schema new_payload)
       then (''fail'', ''high'') else (''pass'', ''low'')) \<and>
    (rw_breaking_changes r \<noteq> [] \<longleftrightarrow> rw_ci_decision r = ''fail'') \<and>
    map ts_step_name (rw_trace r) =
      [''OpenAPI Diff Agent'', ''Breaking Change Classifier'', ''Migration Suggestion Agent'', ''CI Gate Agent'',
       ''PR Comment Generator'']"
proof -
  obtain d where d: "review_documents old_payload new_payload = Inr d"
    using assms by (auto simp: build_review_def exc_bind_Inr)
  have "rw_ci_decision r = (if rv_breaking_changes d \<noteq> [] then ''fail'' else ''pass'')"
    "rw_risk_level r = (if rv_breaking d then ''high'' else ''low'')"
    "rw_breaking_changes r = rv_breaking_changes d"
    "map ts_step_name (rw_trace r) =
      [''OpenAPI Diff Agent'', ''Breaking Change Classifier'', ''Migration Suggestion Agent'', ''CI Gate Agent'',
       ''PR Comment Generator'']"
    using assms by (cases "rv_breaking_changes d = []"; auto simp: build_review_def d record_step_def Let_def)+
  with review_documents_break [OF d] show ?thesis by simp
qed

theorem review_decision_witness:
  "\<exists>r. build_review ''r'' (\<lambda>_. FInf) (api_document [(''id'', text_field)] [''id'']) (api_document [] []) = Inr r \<and>
     rw_ci_decision r = ''fail''"
proof -
  let ?old = "api_document [(''id'', text_field)] [''id'']" and ?new = "api_document [] []"
  have "map_sum id (\<lambda>r. rw_ci_decision r) (build_review ''r'' (\<lambda>_. FInf) ?old ?new) = Inr ''fail''" by code_simp
  then obtain r where r: "build_review ''r'' (\<lambda>_. FInf) ?old ?new = Inr r" "rw_ci_decision r = ''fail''"
    by (cases "build_review ''r'' (\<lambda>_. FInf) ?old ?new") auto
  from review_decision [OF r(1)] r show ?thesis by blast
qed

section \<open>Plain schemas\<close>

text \<open>A JSON Schema document as it stands, not inside an OpenAPI document.\<close>

definition plain_schema :: "json dict \<Rightarrow> string list \<Rightarrow> json" where
  "plain_schema props required =
     JObj [(''type'', JStr ''object''), (''properties'', JObj props), (''required'', JList (map JStr required))]"

lemma plain_schema_parts:
  "schema_at (extract_schema (plain_schema p r)) ''properties'' = JObj p"
  "schema_at (extract_schema (plain_schema p r)) ''required'' = JList (map JStr r)"
  "schema_at (extract_schema (plain_schema p r)) ''type'' = JStr ''object''"
  "keys (extract_schema (plain_schema p r)) = [''type'', ''properties'', ''required'']"
  by (simp_all add: plain_schema_def extract_schema_def schema_at_def)

lemma keywords_sorted:
  "sorted_both [''type'', ''properties'', ''required''] [''type'', ''properties'', ''required''] =
     [''properties'', ''required'', ''type'']"
  "sorted_diff [''type'', ''properties'', ''required''] [''type'', ''properties'', ''required''] = []"
  by (code_simp, simp)

lemma empty_comparison: "sorted_both [] [] = []" "sorted_diff [] [] = []"
  by (simp_all add: sorted_both_def sorted_diff_def)

lemma reviewed_keyword:
  assumes "properties_of old = JObj []" "properties_of new = JObj []" "guarded_required old = Inr []" "guarded_required new = Inr []"
  shows "review_schema name old new = Inr ([], [])"
  using assms by (simp add: review_schema_def Let_def empty_comparison)

text \<open>
  Two plain JSON Schemas are not compared at all: their keywords are taken for the names of
  schemas, so the review passes whatever fields were removed, retyped or became required, and the
  diff script ends with an \<open>AttributeError\<close> at the list of required fields.
\<close>

theorem plain_schema_drift_unreported:
  assumes "{''properties'', ''required''} \<inter> set (keys p @ keys q) = {}"
  shows "review_documents (plain_schema p r) (plain_schema q s) =
      Inr \<lparr>rv_breaking = False, rv_breaking_changes = [], rv_non_breaking_changes = []\<rparr> \<and>
    check_main (plain_schema p r) (plain_schema q s) = Inl (AttributeError ''get'')"
proof -
  have none: "map_of p ''properties'' = None" "map_of q ''properties'' = None"
    "map_of p ''required'' = None" "map_of q ''required'' = None"
    using assms by (auto simp: map_of_eq_None_iff)
  then have props: "properties_of (JObj p) = JObj []" "properties_of (JObj q) = JObj []"
    "guarded_required (JObj p) = Inr []" "guarded_required (JObj q) = Inr []"
    "get_required (JObj p) = Inr []" "get_required (JObj q) = Inr []"
    by (simp_all add: properties_of_def guarded_required_def get_required_def required_of_def is_obj_def)
  have rest: "properties_of (JList vs) = JObj []" "properties_of (JStr t) = JObj []"
    "guarded_required (JList vs) = Inr []" "guarded_required (JStr t) = Inr []" "get_required (JList vs) = Inl (AttributeError ''get'')"
    for vs t
    by (simp_all add: properties_of_def guarded_required_def get_required_def is_obj_def)
  have "openapi_diff_schemas (JList vs) w = Inl (AttributeError ''get'')" for vs w
    by (simp add: openapi_diff_schemas_def Let_def rest)
  then show ?thesis
    by (simp add: review_documents_def diff_openapi_documents_def check_main_def Let_def plain_schema_parts keywords_sorted
        reviewed_keyword props rest openapi_diff_schemas_def empty_comparison del: sorted_diff_Nil)
qed

theorem plain_schema_drift_unreported_witness:
  "review_documents (plain_schema [(''id'', text_field)] [''id'']) (plain_schema [] []) =
     Inr \<lparr>rv_breaking = False, rv_breaking_changes = [], rv_non_breaking_changes = []\<rparr>"
proof -
  have "{''properties'', ''required''} \<inter> set (keys [(''id'', text_field)] @ keys ([] :: json dict)) = {}" by simp
  from plain_schema_drift_unreported [OF this] show ?thesis by blast
qed

end
