(* ===== verification/Transitions.thy ===== *)
theory Transitions
  imports Main
begin

text \<open>
  What the step relations of the development share: the states reachable from a state, invariants,
  and simulation of one system by another. Each component declares its steps and its reachability
  as inductive predicates and interprets the locale on them.
\<close>

locale transitions =
  fixes step :: "'s \<Rightarrow> 's \<Rightarrow> bool"
    and reach :: "'s \<Rightarrow> 's \<Rightarrow> bool"
  assumes start: "reach r r"
    and further: "reach r s \<Longrightarrow> step s t \<Longrightarrow> reach r t"
    and closed: "reach r s \<Longrightarrow> P r \<Longrightarrow> (\<And>s t. reach r s \<Longrightarrow> P s \<Longrightarrow> step s t \<Longrightarrow> P t) \<Longrightarrow> P s"
begin

lemma single: "step s t \<Longrightarrow> reach s t"
  by (rule further [OF start])

text \<open>A step whose target is given in another form.\<close>

lemma further_eq: "reach r s \<Longrightarrow> step s t \<Longrightarrow> t = u \<Longrightarrow> reach r u"
  by (blast intro: further)

lemma append: "reach s t \<Longrightarrow> reach r s \<Longrightarrow> reach r t"
  by (rule closed [where P = "reach r"]) (auto intro: further)

lemma is_closure: "reach r s \<longleftrightarrow> step\<^sup>*\<^sup>* r s"
proof
  assume "reach r s"
  then show "step\<^sup>*\<^sup>* r s" by (rule closed) (auto intro: rtranclp.rtrancl_into_rtrancl)
next
  assume "step\<^sup>*\<^sup>* r s"
  then show "reach r s" by (induction rule: rtranclp_induct) (auto intro: start further)
qed

lemma invariant:
  assumes "\<And>s t. step s t \<Longrightarrow> ok s \<Longrightarrow> ok t" "reach r s" "ok r"
  shows "ok s"
  by (rule closed [OF assms(2), where P = ok]) (use assms in auto)

text \<open>A preorder that every step from a good state stays within.\<close>

lemma invariant_rel:
  assumes "\<And>s t. step s t \<Longrightarrow> ok s \<Longrightarrow> ok t \<and> R s t" "reach r s" "ok r"
    and "R r r" "\<And>s t. R r s \<Longrightarrow> R s t \<Longrightarrow> R r t"
  shows "ok s \<and> R r s"
  by (rule closed [OF assms(2), where P = "\<lambda>s. ok s \<and> R r s"]) (use assms in blast)+

end

text \<open>A system whose steps, seen through \<open>view\<close>, are runs of another while \<open>ok\<close> holds.\<close>

locale simulation =
  concrete: transitions step reach + abstract: transitions step' reach'
  for step :: "'s \<Rightarrow> 's \<Rightarrow> bool" and reach and step' :: "'a \<Rightarrow> 'a \<Rightarrow> bool" and reach' +
  fixes view :: "'s \<Rightarrow> 'a"
    and ok :: "'s \<Rightarrow> bool"
  assumes kept: "step s t \<Longrightarrow> ok s \<Longrightarrow> ok t"
    and simulated: "step s t \<Longrightarrow> ok s \<Longrightarrow> reach' (view s) (view t)"
begin

lemma kept_runs: "reach r s \<Longrightarrow> ok r \<Longrightarrow> ok s"
  using kept by (rule concrete.invariant)

lemma runs:
  assumes "reach r s" "ok r"
  shows "reach' (view r) (view s)"
proof -
  have "ok s \<and> reach' (view r) (view s)"
    using assms(1)
  proof (rule concrete.closed)
    fix s t
    assume "ok s \<and> reach' (view r) (view s)" "step s t"
    then show "ok t \<and> reach' (view r) (view t)"
      by (blast intro: kept abstract.append [OF simulated])
  qed (simp add: assms(2) abstract.start)
  then show ?thesis by simp
qed

end

end
