(* ===== verification/Gateway.thy ===== *)
theory Gateway
  imports Json Transitions
begin

text \<open>
  The webhook gateway (\<open>gateway/src/\<close>, TypeScript): one Node process checks the signature and the
  idempotency key of a webhook and forwards its body to the runtime tracker. A handler runs without
  interruption up to its one \<open>await\<close>, the forward, so that requests interleave there. The HMAC of
  \<open>node:crypto\<close>, as hexadecimal text, and \<open>JSON.parse\<close>, with the messages of its errors, are parameters.
\<close>

section \<open>Headers\<close>

text \<open>Node hands the headers over with names in lower case; a value is one text or a list of them.\<close>

datatype header = Text string | Texts "string list"

type_synonym headers = "header dict"

fun normalize_header :: "header option \<Rightarrow> string option" where
  "normalize_header (Some (Texts (s # _))) = Some s"
| "normalize_header (Some (Texts [])) = None"
| "normalize_header (Some (Text s)) = Some s"
| "normalize_header None = None"

text \<open>\<open>a ?? b\<close>: an empty text is not \<open>undefined\<close>.\<close>

fun or_else :: "'a option \<Rightarrow> 'a option \<Rightarrow> 'a option" where
  "or_else (Some x) _ = Some x"
| "or_else None y = y"

definition extract_signature :: "string option \<Rightarrow> string option" where
  "extract_signature h =
     (case h of
        None \<Rightarrow> None
      | Some s \<Rightarrow> if s = [] then None else if take 7 s = ''sha256='' then Some (drop 7 s) else Some s)"

definition get_signature :: "headers \<Rightarrow> string option" where
  "get_signature hs =
     or_else (or_else (normalize_header (map_of hs ''x-signature'')) (normalize_header (map_of hs ''x-hub-signature-256'')))
       (normalize_header (map_of hs ''x-webhook-signature''))"

definition get_idempotency_key :: "headers \<Rightarrow> string option" where
  "get_idempotency_key hs =
     or_else (normalize_header (map_of hs ''idempotency-key'')) (normalize_header (map_of hs ''x-idempotency-key''))"

text \<open>\<open>!value\<close> of an optional text.\<close>

definition missing :: "string option \<Rightarrow> bool" where
  "missing v \<longleftrightarrow> v = None \<or> v = Some []"

section \<open>Signatures\<close>

definition hex_value :: "char \<Rightarrow> nat option" where
  "hex_value c =
     (let n = code_of c in
      if 48 \<le> n \<and> n \<le> 57 then Some (n - 48)
      else if 97 \<le> n \<and> n \<le> 102 then Some (n - 87)
      else if 65 \<le> n \<and> n \<le> 70 then Some (n - 55)
      else None)"

text \<open>\<open>Buffer.from(text, "hex")\<close> stops at the first pair that is not one of digits, and drops an odd digit.\<close>

fun hex_bytes :: "string \<Rightarrow> nat list" where
  "hex_bytes (a # b # rest) =
     (case (hex_value a, hex_value b) of (Some x, Some y) \<Rightarrow> (16 * x + y) # hex_bytes rest | _ \<Rightarrow> [])"
| "hex_bytes _ = []"

definition constant_time_equals :: "string \<Rightarrow> string \<Rightarrow> bool" where
  "constant_time_equals expected_hex provided_hex =
     (let expected = hex_bytes expected_hex; provided = hex_bytes provided_hex in
      if length expected \<noteq> length provided then False else expected = provided)"

section \<open>The keys\<close>

type_synonym key_store = "string list"

definition store_has :: "key_store \<Rightarrow> string \<Rightarrow> bool" where
  "store_has ks k \<longleftrightarrow> k \<in> set ks"

definition store_add :: "string \<Rightarrow> key_store \<Rightarrow> key_store" where
  "store_add k ks = (if k \<in> set ks then ks else ks @ [k])"

section \<open>The handler\<close>

record gateway_options =
  go_secret :: string
  go_body_limit :: nat
  go_hmac :: "string \<Rightarrow> string \<Rightarrow> string"    \<comment> \<open>secret, body; hexadecimal\<close>
  go_parse :: "string \<Rightarrow> string + json"     \<comment> \<open>the body as UTF-8; \<open>Inl\<close> the message of the error\<close>

record webhook =
  wh_source :: string
  wh_headers :: headers
  wh_body :: "string option"   \<comment> \<open>the bytes\<close>

datatype answer =
    Rejected nat string string       \<comment> \<open>status, \<open>error\<close>, \<open>message\<close>\<close>
  | Accepted string string           \<comment> \<open>202 with source and key\<close>
  | Crashed                          \<comment> \<open>the handler threw; the library answers 500\<close>

text \<open>Up to the \<open>await\<close>: an answer, or a payload to forward with its key.\<close>

datatype admission = Answer answer | Forward json string

fun validate_body_shape :: "json \<Rightarrow> string option" where
  "validate_body_shape (JObj _) = None"
| "validate_body_shape _ = Some ''webhook payload must be a JSON object''"

definition parse_json :: "gateway_options \<Rightarrow> string \<Rightarrow> string + json" where
  "parse_json opts body =
     (case go_parse opts body of
        Inl message \<Rightarrow> Inl message
      | Inr payload \<Rightarrow> (case validate_body_shape payload of Some message \<Rightarrow> Inl message | None \<Rightarrow> Inr payload))"

text \<open>A body over the limit is answered by the library before the handler.\<close>

definition admit :: "gateway_options \<Rightarrow> key_store \<Rightarrow> webhook \<Rightarrow> admission" where
  "admit opts store rq =
     (let signature_header = extract_signature (get_signature (wh_headers rq));
          idempotency_key = get_idempotency_key (wh_headers rq) in
      if (case wh_body rq of None \<Rightarrow> False | Some body \<Rightarrow> go_body_limit opts < length body) then
        Answer (Rejected 413 ''Payload Too Large'' ''Request body is too large'')
      else if missing signature_header then Answer (Rejected 401 ''missing_signature'' ''Missing webhook signature'')
      else if missing idempotency_key then Answer (Rejected 400 ''missing_idempotency_key'' ''Missing idempotency key'')
      else if store_has store (the idempotency_key) then
        Answer (Rejected 409 ''duplicate_idempotency_key'' ''Duplicate idempotency key'')
      else
        (case wh_body rq of
           None \<Rightarrow> Answer Crashed
         | Some body \<Rightarrow>
             if \<not> constant_time_equals (go_hmac opts (go_secret opts) body) (the signature_header) then
               Answer (Rejected 403 ''invalid_signature'' ''Invalid webhook signature'')
             else
               (case parse_json opts body of
                  Inl message \<Rightarrow> Answer (Rejected 400 ''malformed_json'' message)
                | Inr payload \<Rightarrow> Forward payload (the idempotency_key))))"

section \<open>Forwarding\<close>

text \<open>The body of the request to the runtime.\<close>

definition forward_body :: "string \<Rightarrow> json \<Rightarrow> json" where
  "forward_body source payload =
     JObj [(''namespace'', JStr ''gateway''), (''service_name'', JStr source), (''http_method'', JStr ''POST''),
           (''route_path'', JStr (''/webhooks/'' @ source)), (''payload'', payload)]"

text \<open>
  What \<open>fetch\<close> comes to: a response, whose text may fail to be read, or an error with its message.
  A forward either resolves or throws.
\<close>

datatype runtime_reply = Replied nat "string option" | Fetch_failed string

definition forward_result :: "runtime_reply \<Rightarrow> string option" where
  "forward_result r =
     (case r of
        Fetch_failed message \<Rightarrow> Some message
      | Replied status text \<Rightarrow>
          if 200 \<le> status \<and> status \<le> 299 then None
          else Some (''runtime ingestion failed with HTTP '' @ show_nat status @
            (case text of None \<Rightarrow> [] | Some details \<Rightarrow> if details = [] then [] else '': '' @ details)))"

text \<open>After the \<open>await\<close>.\<close>

definition conclude :: "string \<Rightarrow> string \<Rightarrow> string option \<Rightarrow> key_store \<Rightarrow> answer \<times> key_store" where
  "conclude source k outcome store =
     (case outcome of
        None \<Rightarrow> (Accepted source k, store_add k store)
      | Some message \<Rightarrow> (Rejected 502 ''enqueue_failed'' message, store))"

text \<open>A request taken to its end, with the runtime as a function of its state.\<close>

definition handle ::
  "gateway_options \<Rightarrow> (json \<Rightarrow> 'w \<Rightarrow> runtime_reply \<times> 'w) \<Rightarrow> webhook \<Rightarrow> key_store \<times> 'w \<Rightarrow> answer \<times> key_store \<times> 'w" where
  "handle opts runtime rq = (\<lambda>(store, w).
     case admit opts store rq of
       Answer a \<Rightarrow> (a, store, w)
     | Forward payload k \<Rightarrow>
         let (r, w') = runtime (forward_body (wh_source rq) payload) w;
             (a, store') = conclude (wh_source rq) k (forward_result r) store
         in (a, store', w'))"

fun handle_all ::
  "gateway_options \<Rightarrow> (json \<Rightarrow> 'w \<Rightarrow> runtime_reply \<times> 'w) \<Rightarrow> webhook list \<Rightarrow> key_store \<times> 'w \<Rightarrow> answer list \<times> key_store \<times> 'w" where
  "handle_all opts runtime [] s = ([], s)"
| "handle_all opts runtime (rq # rqs) s =
     (let (a, s1) = handle opts runtime rq s; (as, s2) = handle_all opts runtime rqs s1 in (a # as, s2))"

section \<open>Interleaved requests\<close>

text \<open>Who is waiting for its forward, every forward that was sent, and every answer, in order.\<close>

record gateway_world =
  gy_store :: key_store
  gy_waiting :: "(webhook \<times> json \<times> string) list"
  gy_sent :: "(webhook \<times> json \<times> string) list"
  gy_answers :: "(webhook \<times> answer) list"

definition gateway_start :: gateway_world where
  "gateway_start = \<lparr>gy_store = [], gy_waiting = [], gy_sent = [], gy_answers = []\<rparr>"

inductive gateway_step :: "gateway_options \<Rightarrow> gateway_world \<Rightarrow> gateway_world \<Rightarrow> bool" for opts where
  answers: "admit opts (gy_store w) rq = Answer a \<Longrightarrow>
     gateway_step opts w (w\<lparr>gy_answers := gy_answers w @ [(rq, a)]\<rparr>)"
| forwards: "admit opts (gy_store w) rq = Forward payload k \<Longrightarrow>
     gateway_step opts w (w\<lparr>gy_waiting := gy_waiting w @ [(rq, payload, k)], gy_sent := gy_sent w @ [(rq, payload, k)]\<rparr>)"
| concludes: "gy_waiting w = before @ (rq, payload, k) # after \<Longrightarrow> conclude (wh_source rq) k outcome (gy_store w) = (a, store') \<Longrightarrow>
     gateway_step opts w (w\<lparr>gy_waiting := before @ after, gy_store := store', gy_answers := gy_answers w @ [(rq, a)]\<rparr>)"

inductive gateway_reachable :: "gateway_options \<Rightarrow> gateway_world \<Rightarrow> gateway_world \<Rightarrow> bool" for opts w0 where
  init: "gateway_reachable opts w0 w0"
| more: "gateway_reachable opts w0 w \<Longrightarrow> gateway_step opts w w' \<Longrightarrow> gateway_reachable opts w0 w'"

interpretation gateways: transitions "gateway_step opts" "gateway_reachable opts" for opts
  by unfold_locales (auto intro: gateway_reachable.intros elim: gateway_reachable.induct)


section \<open>What is admitted\<close>

text \<open>The signature of a request is the HMAC of its body, as bytes.\<close>

definition signed :: "gateway_options \<Rightarrow> webhook \<Rightarrow> bool" where
  "signed opts rq \<longleftrightarrow>
     (\<exists>body sig. wh_body rq = Some body \<and> extract_signature (get_signature (wh_headers rq)) = Some sig \<and>
        hex_bytes (go_hmac opts (go_secret opts) body) = hex_bytes sig)"

lemma constant_time_equals_iff: "constant_time_equals e p \<longleftrightarrow> hex_bytes e = hex_bytes p"
  by (auto simp: constant_time_equals_def Let_def)

lemma not_missing: "\<not> missing v \<longleftrightarrow> (\<exists>s. v = Some s \<and> s \<noteq> [])"
  by (cases v) (auto simp: missing_def)

lemma validate_is_obj: "validate_body_shape v = None \<longleftrightarrow> is_obj v"
  by (cases v) (simp_all add: is_obj_def)

lemma parse_json_Inr: "parse_json opts body = Inr payload \<longleftrightarrow> go_parse opts body = Inr payload \<and> is_obj payload"
  by (auto simp: parse_json_def validate_is_obj [symmetric] split: sum.splits option.splits)

lemma admit_Forward:
  "admit opts store rq = Forward payload k \<longleftrightarrow>
     (\<exists>body sig. wh_body rq = Some body \<and> length body \<le> go_body_limit opts \<and>
        extract_signature (get_signature (wh_headers rq)) = Some sig \<and> sig \<noteq> [] \<and>
        get_idempotency_key (wh_headers rq) = Some k \<and> k \<noteq> [] \<and> k \<notin> set store \<and>
        hex_bytes (go_hmac opts (go_secret opts) body) = hex_bytes sig \<and>
        go_parse opts body = Inr payload \<and> is_obj payload)"
  (is "?l = ?r")
proof
  assume l: ?l
  then obtain body where b: "wh_body rq = Some body" by (cases "wh_body rq") (auto simp: admit_def Let_def split: if_splits)
  with l have "\<not> missing (extract_signature (get_signature (wh_headers rq)))" "\<not> missing (get_idempotency_key (wh_headers rq))"
    by (auto simp: admit_def Let_def split: if_splits)
  then obtain sig i where s: "extract_signature (get_signature (wh_headers rq)) = Some sig" "sig \<noteq> []"
      "get_idempotency_key (wh_headers rq) = Some i" "i \<noteq> []"
    unfolding not_missing by blast
  with l b have "k = i" "i \<notin> set store" "parse_json opts body = Inr payload" "length body \<le> go_body_limit opts"
    "hex_bytes (go_hmac opts (go_secret opts) body) = hex_bytes sig"
    by (auto simp: admit_def Let_def missing_def store_has_def constant_time_equals_iff split: if_splits sum.splits)
  with b s show ?r by (auto simp: parse_json_Inr)
next
  assume ?r
  then show ?l
    by (auto simp: admit_def Let_def missing_def store_has_def constant_time_equals_iff parse_json_Inr [symmetric] not_less)
qed

lemma store_add_set [simp]: "set (store_add k ks) = insert k (set ks)"
  by (auto simp: store_add_def)

lemma admit_monotone:
  "admit opts store' rq = Forward payload k \<Longrightarrow> set store \<subseteq> set store' \<Longrightarrow> admit opts store rq = Forward payload k"
  by (auto simp: admit_Forward)

section \<open>Invariants of every interleaving\<close>

text \<open>
  Forwards, waiting ones included, come from admitted requests; the key of every accepted request is
  stored, and one answer is given per forward.
\<close>

definition gateway_ok :: "gateway_options \<Rightarrow> gateway_world \<Rightarrow> bool" where
  "gateway_ok opts w \<longleftrightarrow>
     (\<forall>(rq, payload, k) \<in> set (gy_sent w). admit opts [] rq = Forward payload k) \<and>
     set (gy_waiting w) \<subseteq> set (gy_sent w) \<and>
     (\<forall>(rq, a) \<in> set (gy_answers w). \<forall>s k. a = Accepted s k \<longrightarrow>
        k \<in> set (gy_store w) \<and> s = wh_source rq \<and> (\<exists>payload. (rq, payload, k) \<in> set (gy_sent w)))"

lemma admit_never_accepts: "admit opts store rq = Answer a \<Longrightarrow> a \<noteq> Accepted s k"
  by (auto simp: admit_def Let_def split: if_splits option.splits sum.splits)

lemma gateway_ok_step: "gateway_step opts w w' \<Longrightarrow> gateway_ok opts w \<Longrightarrow> gateway_ok opts w'"
proof (induction rule: gateway_step.induct)
  case (answers w rq a)
  then show ?case using admit_never_accepts [OF answers(1)] by (auto simp: gateway_ok_def)
next
  case (forwards w rq payload k)
  have "admit opts [] rq = Forward payload k" by (rule admit_monotone [OF forwards(1)]) simp
  with forwards(2) show ?case by (fastforce simp: gateway_ok_def)
next
  case (concludes w before rq payload k after outcome a store')
  have sent: "(rq, payload, k) \<in> set (gy_sent w)" using concludes(1,3) by (auto simp: gateway_ok_def)
  have st: "set (gy_store w) \<subseteq> set store'"
    using concludes(2) by (auto simp: conclude_def split: option.splits)
  have new: "a = Accepted s k' \<Longrightarrow> k' = k \<and> k \<in> set store' \<and> s = wh_source rq" for s k'
    using concludes(2) by (auto simp: conclude_def split: option.splits)
  show ?case
    unfolding gateway_ok_def
  proof (intro conjI)
    show "\<forall>(rq, payload, k) \<in> set (gy_sent (w\<lparr>gy_waiting := before @ after, gy_store := store', gy_answers := gy_answers w @ [(rq, a)]\<rparr>)).
        admit opts [] rq = Forward payload k"
      using concludes(3) by (simp add: gateway_ok_def)
    show "set (gy_waiting (w\<lparr>gy_waiting := before @ after, gy_store := store', gy_answers := gy_answers w @ [(rq, a)]\<rparr>)) \<subseteq>
        set (gy_sent (w\<lparr>gy_waiting := before @ after, gy_store := store', gy_answers := gy_answers w @ [(rq, a)]\<rparr>))"
      using concludes(1,3) by (auto simp: gateway_ok_def)
    show "\<forall>(q, b) \<in> set (gy_answers (w\<lparr>gy_waiting := before @ after, gy_store := store', gy_answers := gy_answers w @ [(rq, a)]\<rparr>)).
        \<forall>s k. b = Accepted s k \<longrightarrow> k \<in> set (gy_store (w\<lparr>gy_waiting := before @ after, gy_store := store', gy_answers := gy_answers w @ [(rq, a)]\<rparr>)) \<and>
          s = wh_source q \<and> (\<exists>payload. (q, payload, k) \<in> set (gy_sent (w\<lparr>gy_waiting := before @ after, gy_store := store', gy_answers := gy_answers w @ [(rq, a)]\<rparr>)))"
      using concludes(3) new sent st by (fastforce simp: gateway_ok_def)
  qed
qed

lemma gateway_ok_start: "gateway_ok opts gateway_start"
  by (simp add: gateway_ok_def gateway_start_def)

lemma gateway_reachable_ok: "gateway_reachable opts gateway_start w \<Longrightarrow> gateway_ok opts w"
  by (rule gateways.invariant [where ok = "gateway_ok opts", OF gateway_ok_step _ gateway_ok_start])


section \<open>One request after the other\<close>

definition accepted_keys :: "answer list \<Rightarrow> string list" where
  "accepted_keys as = concat (map (\<lambda>a. case a of Accepted _ k \<Rightarrow> [k] | _ \<Rightarrow> []) as)"

lemma accepted_keys_simps [simp]:
  "accepted_keys [] = []"
  "accepted_keys (a # as) = (case a of Accepted _ k \<Rightarrow> [k] | _ \<Rightarrow> []) @ accepted_keys as"
  by (simp_all add: accepted_keys_def)

text \<open>What became of a request: refused without a trace, failed to be forwarded, or accepted.\<close>

lemma handle_cases:
  assumes "handle opts runtime rq (store, w) = (a, store', w')"
  obtains (refused) "admit opts store rq = Answer a" "store' = store" "w' = w"
  | (failed) payload k r message where "admit opts store rq = Forward payload k"
      "runtime (forward_body (wh_source rq) payload) w = (r, w')" "forward_result r = Some message"
      "a = Rejected 502 ''enqueue_failed'' message" "store' = store"
  | (accepted) payload k r where "admit opts store rq = Forward payload k"
      "runtime (forward_body (wh_source rq) payload) w = (r, w')" "forward_result r = None"
      "a = Accepted (wh_source rq) k" "store' = store_add k store"
  using assms that
  by (auto simp: handle_def conclude_def Let_def split: admission.splits prod.splits option.splits)

lemma handle_accepted:
  assumes "handle opts runtime rq (store, w) = (a, store', w')"
  shows "set store \<subseteq> set store'" "a = Accepted s k \<Longrightarrow> k \<notin> set store \<and> k \<in> set store'"
  by (use assms in \<open>cases rule: handle_cases; auto dest: admit_never_accepts simp: admit_Forward\<close>)+

lemma handle_all_accepted:
  "handle_all opts runtime rqs (store, w) = (as, store', w') \<Longrightarrow>
     distinct (accepted_keys as) \<and> set (accepted_keys as) \<inter> set store = {} \<and> set store \<subseteq> set store' \<and>
     set (accepted_keys as) \<subseteq> set store'"
proof (induction rqs arbitrary: store w as)
  case (Cons rq rqs)
  obtain a store1 w1 where h: "handle opts runtime rq (store, w) = (a, store1, w1)" by (metis prod.collapse)
  obtain bs where t: "handle_all opts runtime rqs (store1, w1) = (bs, store', w')" "as = a # bs"
    using Cons.prems h by (auto simp: Let_def split: prod.splits)
  show ?case
    using Cons.IH [OF t(1)] handle_accepted(1) [OF h] handle_accepted(2) [OF h]
    by (cases a) (auto simp: t(2))
qed simp

section \<open>Properties\<close>

text \<open>
  C5. Whatever requests arrive and however they interleave, the gateway forwards only what was
  signed: each forward is the parsed body, a JSON object within the limit, of a request whose
  signature header decodes to the HMAC of exactly those bytes, and carries that request's key.
\<close>

theorem only_signed_objects_forwarded:
  assumes "gateway_reachable opts gateway_start w" "(rq, payload, k) \<in> set (gy_sent w)"
  shows "signed opts rq \<and> is_obj payload \<and> get_idempotency_key (wh_headers rq) = Some k \<and>
    (\<exists>body. wh_body rq = Some body \<and> length body \<le> go_body_limit opts \<and> go_parse opts body = Inr payload)"
proof -
  have "admit opts [] rq = Forward payload k"
    using gateway_reachable_ok [OF assms(1)] assms(2) by (auto simp: gateway_ok_def)
  then show ?thesis unfolding admit_Forward signed_def by auto
qed

text \<open>
  C17. A key that was accepted is closed: whatever the interleaving, the accepted request was
  forwarded, and from its answer on no request with its key gets as far as being forwarded.
\<close>

theorem accepted_keys_are_closed:
  assumes "gateway_reachable opts gateway_start w" "(rq, Accepted s k) \<in> set (gy_answers w)"
  shows "s = wh_source rq \<and> (\<exists>payload. (rq, payload, k) \<in> set (gy_sent w)) \<and>
    (get_idempotency_key (wh_headers rq') = Some k \<longrightarrow> (\<exists>a. admit opts (gy_store w) rq' = Answer a))"
proof -
  have ok: "k \<in> set (gy_store w) \<and> s = wh_source rq \<and> (\<exists>payload. (rq, payload, k) \<in> set (gy_sent w))"
    using gateway_reachable_ok [OF assms(1)] assms(2) by (auto simp: gateway_ok_def)
  moreover have "\<exists>a. admit opts (gy_store w) rq' = Answer a" if "get_idempotency_key (wh_headers rq') = Some k"
    using ok that by (cases "admit opts (gy_store w) rq'") (auto simp: admit_Forward)
  ultimately show ?thesis by blast
qed

text \<open>
  C22. Requests that arrive one after the other, each answered before the next, are accepted once per
  key, whatever the runtime answers: no accepted key was stored before, and no two are the same.
\<close>

theorem key_accepted_once_in_sequence:
  "distinct (accepted_keys (fst (handle_all opts runtime rqs (store, w)))) \<and>
   set (accepted_keys (fst (handle_all opts runtime rqs (store, w)))) \<inter> set store = {}"
  using handle_all_accepted [of opts runtime rqs store w] by (metis prod.collapse)

text \<open>
  C18. Two requests at once are not: the key is looked up before the forward and stored only after it,
  so that two requests with one key, the second arriving while the first is being forwarded, are both
  forwarded and both accepted.
\<close>

theorem key_accepted_twice_at_once:
  assumes "admit opts [] rq1 = Forward p1 k" "admit opts [] rq2 = Forward p2 k"
  shows "\<exists>w. gateway_reachable opts gateway_start w \<and> gy_sent w = [(rq1, p1, k), (rq2, p2, k)] \<and>
    gy_answers w = [(rq1, Accepted (wh_source rq1) k), (rq2, Accepted (wh_source rq2) k)]"
proof -
  let ?sent = "[(rq1, p1, k), (rq2, p2, k)]"
  let ?both = "gateway_start\<lparr>gy_waiting := ?sent, gy_sent := ?sent\<rparr>"
  have 1: "gateway_reachable opts gateway_start (gateway_start\<lparr>gy_waiting := [(rq1, p1, k)], gy_sent := [(rq1, p1, k)]\<rparr>)"
    by (rule gateways.further_eq [OF gateways.start gateway_step.forwards [of _ _ rq1]])
       (use assms(1) in \<open>simp_all add: gateway_start_def\<close>)
  have 2: "gateway_reachable opts gateway_start ?both"
    by (rule gateways.further_eq [OF 1 gateway_step.forwards [of _ _ rq2]]) (use assms(2) in \<open>simp_all add: gateway_start_def\<close>)
  have 3: "gateway_reachable opts gateway_start (?both\<lparr>gy_waiting := [(rq2, p2, k)], gy_store := [k],
      gy_answers := [(rq1, Accepted (wh_source rq1) k)]\<rparr>)"
    by (rule gateways.further_eq [OF 2 gateway_step.concludes [of _ "[]" rq1 p1 k "[(rq2, p2, k)]" None]])
       (simp_all add: gateway_start_def conclude_def store_add_def)
  have "gateway_reachable opts gateway_start (?both\<lparr>gy_waiting := [], gy_store := [k],
      gy_answers := [(rq1, Accepted (wh_source rq1) k), (rq2, Accepted (wh_source rq2) k)]\<rparr>)"
    by (rule gateways.further_eq [OF 3 gateway_step.concludes [of _ "[]" rq2 p2 k "[]" None]])
       (simp_all add: gateway_start_def conclude_def store_add_def)
  then show ?thesis by (intro exI conjI) (assumption, simp_all)
qed

text \<open>
  The signature covers the body and nothing else. Whoever has seen one request that was forwarded
  can send its body again under any other key, to any other source, and it is forwarded again.
\<close>

theorem signature_covers_body_only:
  assumes "admit opts store rq = Forward payload k" "k' \<noteq> []" "k' \<notin> set store'"
  shows "admit opts store' (rq\<lparr>wh_source := source, wh_headers := (''idempotency-key'', Text k') # wh_headers rq\<rparr>) = Forward payload k'"
  using assms unfolding admit_Forward by (auto simp: get_signature_def get_idempotency_key_def)

text \<open>
  Hexadecimal text is read up to the first character that is not a digit: a signature followed by
  anything else is accepted like the signature.
\<close>

lemma hex_bytes_append:
  assumes "even (length e)" "list_all (\<lambda>c. hex_value c \<noteq> None) e"
  shows "hex_bytes (e @ t) = hex_bytes e @ hex_bytes t"
  using assms by (induction e rule: hex_bytes.induct) auto

theorem signature_with_tail:
  assumes "even (length e)" "list_all (\<lambda>c. hex_value c \<noteq> None) e" "hex_value c = None"
  shows "constant_time_equals e (e @ c # t)"
  using hex_bytes_append [OF assms(1,2), of "c # t"] assms(3)
  by (cases t) (simp_all add: constant_time_equals_iff split: option.splits)

text \<open>
  The store is asked before the signature is checked: without the secret, anyone learns whether a key
  is in use.
\<close>

theorem keys_can_be_probed:
  assumes "wh_body rq = Some body" "length body \<le> go_body_limit opts" "k \<noteq> []"
    and "extract_signature (get_signature (wh_headers rq)) = Some sig" "sig \<noteq> []" "get_idempotency_key (wh_headers rq) = Some k"
  shows "admit opts store rq = Answer (Rejected 409 ''duplicate_idempotency_key'' ''Duplicate idempotency key'') \<longleftrightarrow> k \<in> set store"
  using assms by (auto simp: admit_def Let_def missing_def store_has_def split: sum.splits)


section \<open>An example\<close>

definition example_options :: gateway_options where
  "example_options =
     \<lparr>go_secret = ''secret'', go_body_limit = 262144,
      go_hmac = (\<lambda>secret body. if body = ''{}'' then ''ab12'' else ''cd34''), go_parse = (\<lambda>_. Inr (JObj []))\<rparr>"

definition example_webhook :: webhook where
  "example_webhook =
     \<lparr>wh_source = ''shop'', wh_headers = [(''x-signature'', Text ''sha256=AB12''), (''x-idempotency-key'', Text ''k1'')],
      wh_body = Some ''{}''\<rparr>"

lemma example_admitted: "admit example_options [] example_webhook = Forward (JObj []) ''k1''"
  by (simp add: admit_def example_options_def example_webhook_def get_signature_def extract_signature_def get_idempotency_key_def
      missing_def store_has_def constant_time_equals_def hex_value_def code_of_def parse_json_def)

lemma example_accepted:
  "\<exists>w. gateway_reachable example_options gateway_start w \<and> (example_webhook, JObj [], ''k1'') \<in> set (gy_sent w) \<and>
     (example_webhook, Accepted ''shop'' ''k1'') \<in> set (gy_answers w) \<and> gy_store w = [''k1'']"
proof -
  let ?x = "(example_webhook, JObj [], ''k1'')"
  have 1: "gateway_reachable example_options gateway_start (gateway_start\<lparr>gy_waiting := [?x], gy_sent := [?x]\<rparr>)"
    by (rule gateways.further_eq [OF gateways.start gateway_step.forwards [of _ _ example_webhook]])
       (simp_all add: gateway_start_def example_admitted)
  have "gateway_reachable example_options gateway_start (gateway_start\<lparr>gy_waiting := [], gy_sent := [?x], gy_store := [''k1''],
      gy_answers := [(example_webhook, Accepted ''shop'' ''k1'')]\<rparr>)"
    by (rule gateways.further_eq [OF 1 gateway_step.concludes [of _ "[]" example_webhook "JObj []" "''k1''" "[]" None]])
       (simp_all add: gateway_start_def conclude_def store_add_def example_webhook_def)
  then show ?thesis by (intro exI conjI) (assumption, simp_all)
qed

theorem only_signed_objects_forwarded_witness:
  "signed example_options example_webhook \<and> get_idempotency_key (wh_headers example_webhook) = Some ''k1''"
proof -
  obtain w where w: "gateway_reachable example_options gateway_start w" "(example_webhook, JObj [], ''k1'') \<in> set (gy_sent w)"
    using example_accepted by blast
  show ?thesis using only_signed_objects_forwarded [OF w] by blast
qed

theorem accepted_keys_are_closed_witness:
  "\<exists>a. admit example_options [''k1''] (example_webhook\<lparr>wh_source := ''bank''\<rparr>) = Answer a"
proof -
  obtain w where w: "gateway_reachable example_options gateway_start w" "gy_store w = [''k1'']"
    "(example_webhook, Accepted ''shop'' ''k1'') \<in> set (gy_answers w)"
    using example_accepted by blast
  have "get_idempotency_key (wh_headers (example_webhook\<lparr>wh_source := ''bank''\<rparr>)) = Some ''k1''"
    by (simp add: example_webhook_def get_idempotency_key_def)
  with accepted_keys_are_closed [OF w(1,3), of "example_webhook\<lparr>wh_source := ''bank''\<rparr>"] show ?thesis by (simp only: w(2))
qed

theorem key_accepted_twice_at_once_witness:
  "\<exists>w. gateway_reachable example_options gateway_start w \<and> length (gy_sent w) = 2 \<and>
     map snd (gy_answers w) = [Accepted ''shop'' ''k1'', Accepted ''shop'' ''k1'']"
  using key_accepted_twice_at_once [OF example_admitted example_admitted] by (auto simp: example_webhook_def)

theorem signature_covers_body_only_witness:
  "admit example_options [''k1'']
     (example_webhook\<lparr>wh_source := ''bank'', wh_headers := (''idempotency-key'', Text ''k2'') # wh_headers example_webhook\<rparr>) =
   Forward (JObj []) ''k2''"
  by (rule signature_covers_body_only [OF example_admitted]) simp_all

theorem signature_with_tail_witness: "constant_time_equals ''ab12'' ''ab12 or anything''"
  using signature_with_tail [of "''ab12''" "CHR '' ''" "''or anything''"] by (simp add: hex_value_def code_of_def Let_def)

theorem keys_can_be_probed_witness:
  "admit example_options [''k1'']
     (example_webhook\<lparr>wh_headers := [(''x-signature'', Text ''forged''), (''idempotency-key'', Text ''k1'')]\<rparr>) =
   Answer (Rejected 409 ''duplicate_idempotency_key'' ''Duplicate idempotency key'')"
proof -
  let ?rq = "example_webhook\<lparr>wh_headers := [(''x-signature'', Text ''forged''), (''idempotency-key'', Text ''k1'')]\<rparr>"
  have "wh_body ?rq = Some ''{}''" "length ''{}'' \<le> go_body_limit example_options" "''k1'' \<noteq> []"
    "extract_signature (get_signature (wh_headers ?rq)) = Some ''forged''" "''forged'' \<noteq> []"
    "get_idempotency_key (wh_headers ?rq) = Some ''k1''"
    by (simp_all add: example_webhook_def example_options_def extract_signature_def get_signature_def get_idempotency_key_def)
  from keys_can_be_probed [OF this, of "[''k1'']"] show ?thesis by simp
qed

end
