(* ===== verification/Parser.thy ===== *)
theory Parser
  imports Json
begin

text \<open>
  \<open>app/core/parser.py\<close>: the type skeleton of a payload (\<open>normalize_types\<close>), the structural text
  and its fingerprint. The parser's own structures (dictionaries, lists and type names) are JSON
  values again. The lemmas show what the text depends on: the types found in the payload, and
  neither the order of keys nor the order of list elements.
\<close>

section \<open>Definitions\<close>

fun primitive_type :: "json \<Rightarrow> string" where
  "primitive_type JNull = ''null''"
| "primitive_type (JBool b) = ''bool''"
| "primitive_type (JInt i) = ''int''"
| "primitive_type (JFloat f) = ''float''"
| "primitive_type (JStr s) = ''string''"
| "primitive_type _ = ''unknown''"

fun normalize_types :: "json \<Rightarrow> json" where
  "normalize_types (JObj kvs) = JObj (map (\<lambda>(k, v). (k, normalize_types v)) (sort_items kvs))"
| "normalize_types (JList xs) = JList (map normalize_types xs)"
| "normalize_types j = JStr (primitive_type j)"

fun serialize_ast_to_string :: "json \<Rightarrow> string" where
  "serialize_ast_to_string (JStr s) = s"
| "serialize_ast_to_string (JObj kvs) =
     ''object{'' @ join '';'' (map (\<lambda>(k, v). k @ '':'' @ serialize_ast_to_string v) (sort_items kvs)) @ ''}''"
| "serialize_ast_to_string (JList xs) =
     ''array['' @ join '','' (map serialize_ast_to_string xs) @ '']''"
| "serialize_ast_to_string _ = ''unknown''"

text \<open>The two kinds of resolved items the loop separates.\<close>

definition is_text :: "json \<Rightarrow> bool" where
  "is_text j = (case j of JStr _ \<Rightarrow> True | _ \<Rightarrow> False)"

definition list_structure :: "json list \<Rightarrow> json" where
  "list_structure resolved =
     (let inner_types = map serialize_ast_to_string (filter is_text resolved);
          array_structures = map serialize_ast_to_string (filter (\<lambda>r. \<not> is_text r) resolved)
      in JList (map JStr (sorted_set inner_types @ sort array_structures)))"

fun extract_structural_type :: "json \<Rightarrow> json" where
  "extract_structural_type (JObj kvs) =
     JObj (map (\<lambda>(k, v). (k, extract_structural_type v)) (sort_items kvs))"
| "extract_structural_type (JList xs) =
     (if xs = [] then JList [JStr ''empty_array'']
      else list_structure (map extract_structural_type xs))"
| "extract_structural_type j = JStr (primitive_type j)"

fun structural_ast :: "json \<Rightarrow> string" where
  "structural_ast (JObj kvs) =
     ''object{'' @ join '';'' (map (\<lambda>(k, v). k @ '':'' @ structural_ast v) (sort_items kvs)) @ ''}''"
| "structural_ast (JList xs) =
     (case map structural_ast xs of
        [] \<Rightarrow> ''array_unknown''
      | first # item_types \<Rightarrow>
          if list_all (\<lambda>t. t = first) (first # item_types) then ''array_'' @ first else ''array_mixed'')"
| "structural_ast j = primitive_type j"

definition structural_string :: "json \<Rightarrow> py_exc + string" where
  "structural_string payload =
     (case payload of
        JObj kvs \<Rightarrow>
          Inr (concat (map (\<lambda>(k, v). k @ '':'' @ serialize_ast_to_string (extract_structural_type v) @ '';'')
                 (sort_items kvs)))
      | _ \<Rightarrow> Inl (TypeError ''payload must be a JSON object at the root''))"

definition fingerprint_schema :: "(string \<Rightarrow> string) \<Rightarrow> json \<Rightarrow> py_exc + string" where
  "fingerprint_schema sha payload =
     (case structural_string payload of Inl e \<Rightarrow> Inl e | Inr structural \<Rightarrow> Inr (sha structural))"

section \<open>What the structural text depends on\<close>

text \<open>
  Two payloads of the same structure: scalars of the same type, lists with the same elements in
  some order, dictionaries with the same entries in some order, at every depth.
\<close>

inductive same_structure :: "json \<Rightarrow> json \<Rightarrow> bool" where
  scalars: "primitive_type a = primitive_type b \<Longrightarrow> primitive_type a \<noteq> ''unknown'' \<Longrightarrow> same_structure a b"
| lists: "list_all2 same_structure xs ys \<Longrightarrow> mset ys = mset zs \<Longrightarrow> same_structure (JList xs) (JList zs)"
| objects: "list_all2 (\<lambda>x y. fst x = fst y \<and> same_structure (snd x) (snd y)) kvs kws \<Longrightarrow>
     mset kws = mset lws \<Longrightarrow> distinct (keys kvs) \<Longrightarrow> same_structure (JObj kvs) (JObj lws)"
  monos list_all2_mono

lemma list_structure_cong:
  assumes "mset rs = mset ss"
  shows "list_structure rs = list_structure ss"
proof -
  let ?t = "\<lambda>P xs. map serialize_ast_to_string (filter P xs)"
  have m: "mset (?t P rs) = mset (?t P ss)" for P
    by (simp add: assms)
  have "sorted_set (?t is_text rs) = sorted_set (?t is_text ss)"
    by (rule sorted_set_cong) (rule mset_eq_setD [OF m])
  moreover have "sort (?t (\<lambda>r. \<not> is_text r) rs) = sort (?t (\<lambda>r. \<not> is_text r) ss)"
    by (rule properties_for_sort) (simp_all add: m del: mset_map mset_filter)
  ultimately show ?thesis by (simp add: list_structure_def Let_def)
qed

lemma extract_scalar: "primitive_type a \<noteq> ''unknown'' \<Longrightarrow> extract_structural_type a = JStr (primitive_type a)"
  by (cases a) auto

lemma list_all2_items_eq:
  "list_all2 (\<lambda>x y. fst x = fst y \<and> f (snd x) = g (snd y)) kvs kws \<Longrightarrow>
     map (\<lambda>(k, v). (k, f v)) kvs = map (\<lambda>(k, v). (k, g v)) kws"
  by (induction rule: list_all2_induct) auto

lemma same_structure_extract: "same_structure a b \<Longrightarrow> extract_structural_type a = extract_structural_type b"
proof (induction rule: same_structure.induct)
  case (scalars a b)
  then show ?case by (simp add: extract_scalar)
next
  case (lists xs ys zs)
  from lists(1) have eq: "map extract_structural_type xs = map extract_structural_type ys"
    by (induction rule: list_all2_induct) auto
  from lists(2) have "mset (map extract_structural_type ys) = mset (map extract_structural_type zs)"
    by simp
  from list_structure_cong [OF this]
  have "list_structure (map extract_structural_type xs) = list_structure (map extract_structural_type zs)"
    by (simp only: eq)
  moreover have "xs = [] \<longleftrightarrow> zs = []" using lists by auto
  ultimately show ?case by simp
next
  case (objects kvs kws lws)
  then have "list_all2 (\<lambda>x y. fst x = fst y \<and> extract_structural_type (snd x) = extract_structural_type (snd y)) kvs kws"
    by (auto elim!: list_all2_mono)
  note eq = list_all2_items_eq [OF this]
  let ?f = "map (\<lambda>(k, v). (k, extract_structural_type v))"
  have "distinct (keys (?f kws))" unfolding eq [symmetric] using objects(3) by simp
  moreover have "mset (?f kws) = mset (?f lws)" using objects(2) by simp
  ultimately have "sort_items (?f kws) = sort_items (?f lws)" by (intro sort_items_perm)
  then have "sort_items (?f kvs) = sort_items (?f lws)" by (simp only: eq)
  then show ?case by (simp add: sort_items_map)
qed

lemma structural_string_obj:
  "structural_string (JObj kvs) = Inr (concat (map (\<lambda>(k, v). k @ '':'' @ serialize_ast_to_string v @ '';'')
     (map (\<lambda>(k, v). (k, extract_structural_type v)) (sort_items kvs))))"
  by (simp add: structural_string_def case_prod_unfold comp_def)

lemma same_structure_items:
  assumes "same_structure (JObj kvs) (JObj kws)"
  shows "map (\<lambda>(k, v). (k, extract_structural_type v)) (sort_items kvs) =
         map (\<lambda>(k, v). (k, extract_structural_type v)) (sort_items kws)"
  using same_structure_extract [OF assms] by simp


text \<open>
  The legacy fingerprint depends on the structure of the payload only: payloads that agree up
  to the order of keys, the order of list elements and the scalars themselves (not their types)
  have the same structural text and the same fingerprint.
\<close>

theorem structural_fingerprint_ignores_order:
  assumes "same_structure (JObj a) (JObj b)"
  shows "structural_string (JObj a) = structural_string (JObj b)
    \<and> fingerprint_schema sha (JObj a) = fingerprint_schema sha (JObj b)"
  using same_structure_items [OF assms] by (simp add: fingerprint_schema_def structural_string_obj)

lemma same_structure_example:
  "same_structure (JObj [(''a'', JList [JInt 1, JStr ''x'']), (''b'', JNull)])
     (JObj [(''b'', JNull), (''a'', JList [JStr ''y'', JInt 7])])"
proof (rule objects)
  show "list_all2 (\<lambda>x y. fst x = fst y \<and> same_structure (snd x) (snd y))
          [(''a'', JList [JInt 1, JStr ''x'']), (''b'', JNull)]
          [(''a'', JList [JStr ''y'', JInt 7]), (''b'', JNull)]"
    using lists [of "[JInt 1, JStr ''x'']" "[JInt 7, JStr ''y'']" "[JStr ''y'', JInt 7]"]
    by (simp add: scalars)
qed simp_all

theorem structural_fingerprint_ignores_order_witness:
  "structural_string (JObj [(''a'', JList [JInt 1, JStr ''x'']), (''b'', JNull)])
     = structural_string (JObj [(''b'', JNull), (''a'', JList [JStr ''y'', JInt 7])])
   \<and> fingerprint_schema rev (JObj [(''a'', JList [JInt 1, JStr ''x'']), (''b'', JNull)])
     = fingerprint_schema rev (JObj [(''b'', JNull), (''a'', JList [JStr ''y'', JInt 7])])"
  by (rule structural_fingerprint_ignores_order [OF same_structure_example])

text \<open>
  Keys are written into the structural text as they are, so a key that spells out an entry
  swallows it: the payload with entries k and l has the fingerprint of the payload whose only key
  is the text of the first entry followed by l, whatever the digest. Two different contracts then
  share one legacy snapshot.
\<close>

theorem structural_text_collides:
  assumes "k < l"
  shows "fingerprint_schema sha (JObj [(k, v), (l, w)])
    = fingerprint_schema sha (JObj [(k @ '':'' @ serialize_ast_to_string (extract_structural_type v) @ '';'' @ l, w)])
    \<and> normalize_types (JObj [(k, v), (l, w)])
      \<noteq> normalize_types (JObj [(k @ '':'' @ serialize_ast_to_string (extract_structural_type v) @ '';'' @ l, w)])"
proof -
  have "sort_items [(k, v), (l, w)] = [(k, v), (l, w)]"
    using assms by (auto simp: sort_items_def)
  then show ?thesis by (simp add: fingerprint_schema_def structural_string_def sort_items_def)
qed

theorem structural_text_collides_witness:
  "fingerprint_schema rev (JObj [(''a'', JInt 1), (''b'', JStr ''x'')])
     = fingerprint_schema rev (JObj [(''a:int;b'', JStr ''x'')])"
  using structural_text_collides [of "''a''" "''b''" rev "JInt 1" "JStr ''x''"]
  by simp

end
