(* ===== verification/Canonical.thy ===== *)
theory Canonical
  imports Json
begin

text \<open>
  \<open>app/runtime/canonical.py\<close>: the canonical schema of a payload and its fingerprint. The digest
  \<open>hashlib.sha256(...).hexdigest()\<close> is C code outside the repository: it is the parameter \<open>sha\<close>.
\<close>

section \<open>Definitions\<close>

definition leaf :: "string \<Rightarrow> bool \<Rightarrow> json" where
  "leaf t n = JObj [(''type'', JStr t), (''nullable'', JBool n)]"

fun canonicalize :: "json \<Rightarrow> json" where
  "canonicalize (JObj kvs) = JObj (map (\<lambda>(k, v). (k, canonicalize v)) (sort_items kvs))"
| "canonicalize (JList xs) = JList (map canonicalize xs)"
| "canonicalize JNull = leaf ''null'' True"
| "canonicalize (JBool b) = leaf ''boolean'' False"
| "canonicalize (JInt i) = leaf ''integer'' False"
| "canonicalize (JFloat f) = leaf ''number'' False"
| "canonicalize (JStr s) = leaf ''string'' False"

definition fingerprint :: "(string \<Rightarrow> string) \<Rightarrow> json \<Rightarrow> string" where
  "fingerprint sha canonical_schema = sha (dumps True canonical_schema)"

section \<open>Lemmas\<close>

lemma sort_keys_leaf: "sort_keys (leaf t n) = JObj [(''nullable'', JBool n), (''type'', JStr t)]"
  by (simp add: leaf_def sort_items_def)

lemma canonicalize_sort_keys: "canonicalize (sort_keys j) = canonicalize j"
proof (induction j)
  case (JObj kvs)
  then have "map (\<lambda>(k, v). (k, canonicalize v)) (map (\<lambda>(k, v). (k, sort_keys v)) (sort_items kvs)) =
      map (\<lambda>(k, v). (k, canonicalize v)) (sort_items kvs)" by auto
  then show ?case by (simp add: sort_items_map)
qed simp_all

lemma delimited_canonical: "delimited (sort_keys (canonicalize j))"
proof (induction j)
  case (JObj kvs)
  then show ?case by (auto simp: sort_items_map list_all_iff)
qed (simp_all add: sort_keys_leaf list_all_iff)

fun scalar :: "json \<Rightarrow> bool" where
  "scalar (JList xs) = False"
| "scalar (JObj kvs) = False"
| "scalar _ = True"

lemma canonicalize_scalar: "scalar j \<Longrightarrow> \<exists>t n. canonicalize j = leaf t n"
  by (cases j) auto

lemma leaf_inject [simp]: "leaf t n = leaf t' n' \<longleftrightarrow> t = t' \<and> n = n'"
  by (simp add: leaf_def)

lemma canonicalize_not_scalar [simp]: "\<not> scalar (canonicalize j)"
  by (cases j) (simp_all add: leaf_def)

lemma sort_keys_scalar [simp]: "scalar (sort_keys j) \<longleftrightarrow> scalar j"
  by (cases j) simp_all

text \<open>A left inverse of key sorting on canonical schemas: only leaves hold scalars.\<close>

fun unsort_leaves :: "json \<Rightarrow> json" where
  "unsort_leaves (JObj kvs) =
     (if list_ex (\<lambda>(k, v). scalar v) kvs then JObj (rev kvs)
      else JObj (map (\<lambda>(k, v). (k, unsort_leaves v)) kvs))"
| "unsort_leaves (JList xs) = JList (map unsort_leaves xs)"
| "unsort_leaves j = j"

lemma unsort_leaf [simp]: "unsort_leaves (sort_keys (leaf t n)) = leaf t n"
  unfolding sort_keys_leaf by (simp add: leaf_def)

lemma unsort_sort_canonical: "unsort_leaves (sort_keys (canonicalize j)) = canonicalize j"
proof (induction j)
  case (JObj kvs)
  have "\<not> list_ex (\<lambda>(k, v). scalar v)
          (map (\<lambda>(k, v). (k, sort_keys v)) (map (\<lambda>(k, v). (k, canonicalize v)) (sort_items kvs)))"
    by (auto simp: list_ex_iff)
  moreover have "map (\<lambda>(k, v). (k, unsort_leaves v))
        (map (\<lambda>(k, v). (k, sort_keys v)) (map (\<lambda>(k, v). (k, canonicalize v)) (sort_items kvs))) =
      map (\<lambda>(k, v). (k, canonicalize v)) (sort_items kvs)"
    using JObj by auto
  ultimately show ?case by (simp add: sort_items_map)
qed simp_all

text \<open>The blob the fingerprint hashes determines the canonical schema.\<close>

lemma blob_inject:
  "dumps True (canonicalize a) = dumps True (canonicalize b) \<Longrightarrow> canonicalize a = canonicalize b"
  unfolding dumps_sorted
  by (drule dumps_inject [OF delimited_canonical delimited_canonical])
     (metis unsort_sort_canonical)

lemma canonicalize_eq_iff:
  "canonicalize (sort_keys a) = canonicalize (sort_keys b) \<longleftrightarrow> canonicalize a = canonicalize b"
  by (simp add: canonicalize_sort_keys)

lemma wf_canonical: "wf_json j \<Longrightarrow> wf_json (canonicalize j)"
proof (induction j)
  case (JObj kvs)
  then show ?case by (auto simp: list_all_iff)
qed (auto simp: leaf_def list_all_iff)

section \<open>Properties\<close>

text \<open>
  C38. Two payloads have the same fingerprint exactly when they have the same canonical schema, as
  long as the digest does not collide on the two texts it is given: the text of a canonical schema
  determines the schema.
\<close>
theorem fingerprint_determines_schema:
  assumes "sha (dumps True (canonicalize a)) = sha (dumps True (canonicalize b)) \<Longrightarrow>
    dumps True (canonicalize a) = dumps True (canonicalize b)"
  shows "fingerprint sha (canonicalize a) = fingerprint sha (canonicalize b) \<longleftrightarrow>
    canonicalize a = canonicalize b"
  using assms blob_inject [of a b] by (auto simp: fingerprint_def)

theorem fingerprint_determines_schema_witness:
  "fingerprint rev (canonicalize (JInt 1)) = fingerprint rev (canonicalize (JStr ''x'')) \<longleftrightarrow>
    canonicalize (JInt 1) = canonicalize (JStr ''x'')"
  by (rule fingerprint_determines_schema) simp

text \<open>
  The order of keys in a payload does not matter, at any depth: payloads equal up to key order
  have the same canonical schema and the same fingerprint.
\<close>
theorem fingerprint_ignores_key_order:
  assumes "sort_keys a = sort_keys b"
  shows "canonicalize a = canonicalize b \<and>
    fingerprint sha (canonicalize a) = fingerprint sha (canonicalize b)"
  using assms by (metis canonicalize_sort_keys)

theorem fingerprint_ignores_key_order_witness:
  "canonicalize (JObj [(''a'', JInt 1), (''b'', JNull)]) = canonicalize (JObj [(''b'', JNull), (''a'', JInt 1)]) \<and>
    fingerprint rev (canonicalize (JObj [(''a'', JInt 1), (''b'', JNull)])) =
      fingerprint rev (canonicalize (JObj [(''b'', JNull), (''a'', JInt 1)]))"
  by (rule fingerprint_ignores_key_order) (simp add: sort_items_def)

end
