(* ===== verification/Classifier.thy ===== *)
theory Classifier
  imports Keyed_Diff Canonical
begin

text \<open>
  \<open>app/runtime/models.py\<close> (the severity ranks) and \<open>app/runtime/classifier.py\<close>: flattening a
  canonical schema into paths, classifying one path, diffing two schemas, and the overall verdict.
\<close>

section \<open>Severity ranks\<close>

datatype SeverityRank = SAFE | BACKWARD_COMPATIBLE | FORWARD_COMPATIBLE | RISKY | BREAKING

fun rank_int :: "SeverityRank \<Rightarrow> int" where
  "rank_int SAFE = 0"
| "rank_int BACKWARD_COMPATIBLE = 1"
| "rank_int FORWARD_COMPATIBLE = 2"
| "rank_int RISKY = 3"
| "rank_int BREAKING = 4"

text \<open>\<open>IntEnum\<close> members compare as their integers.\<close>

lemma rank_int_inj: "rank_int a = rank_int b \<Longrightarrow> a = b"
  by (cases a; cases b) simp_all

instantiation SeverityRank :: linorder
begin

definition less_eq_SeverityRank :: "SeverityRank \<Rightarrow> SeverityRank \<Rightarrow> bool" where
  "a \<le> b \<longleftrightarrow> rank_int a \<le> rank_int b"

definition less_SeverityRank :: "SeverityRank \<Rightarrow> SeverityRank \<Rightarrow> bool" where
  "a < b \<longleftrightarrow> rank_int a < rank_int b"

instance
  by standard (auto simp: less_eq_SeverityRank_def less_SeverityRank_def intro: rank_int_inj)

end

text \<open>\<open>SeverityRank.__members__\<close>, in definition order.\<close>

definition members :: "SeverityRank dict" where
  "members =
     [(''SAFE'', SAFE), (''BACKWARD_COMPATIBLE'', BACKWARD_COMPATIBLE),
      (''FORWARD_COMPATIBLE'', FORWARD_COMPATIBLE), (''RISKY'', RISKY), (''BREAKING'', BREAKING)]"

definition severity_rank :: "string \<Rightarrow> int" where
  "severity_rank value =
     (case map_of members value of Some r \<Rightarrow> rank_int r | None \<Rightarrow> rank_int SAFE)"

section \<open>Reading a schema node\<close>

definition type_of :: "json \<Rightarrow> string" where
  "type_of node =
     (case node of
        JObj kvs \<Rightarrow> (case map_of kvs ''type'' of Some t \<Rightarrow> py_str t | None \<Rightarrow> ''object'')
      | JList _ \<Rightarrow> ''array''
      | _ \<Rightarrow> ''unknown'')"

definition nullable_of :: "json option \<Rightarrow> bool option" where
  "nullable_of node =
     (case node of
        Some (JObj kvs) \<Rightarrow> map_option truthy (map_of kvs ''nullable'')
      | _ \<Rightarrow> None)"

section \<open>Flattening\<close>

definition or_root :: "string \<Rightarrow> string" where
  "or_root prefix = (if prefix = [] then ''[root]'' else prefix)"

definition child_path :: "string \<Rightarrow> string \<Rightarrow> string" where
  "child_path prefix k = (if prefix = [] then k else prefix @ ''.'' @ k)"

definition index_path :: "string \<Rightarrow> nat \<Rightarrow> string" where
  "index_path prefix i = prefix @ ''[*'' @ show_nat i @ '']''"

fun flatten :: "json \<Rightarrow> string \<Rightarrow> json dict"
  and flatten_items :: "(string \<times> json) list \<Rightarrow> string \<Rightarrow> json dict \<Rightarrow> json dict"
  and flatten_elems :: "nat \<Rightarrow> json list \<Rightarrow> string \<Rightarrow> json dict \<Rightarrow> json dict" where
  "flatten (JObj kvs) prefix =
     (if ''type'' \<in> set (keys kvs) then [(or_root prefix, JObj kvs)]
      else flatten_items kvs prefix [])"
| "flatten (JList xs) prefix = flatten_elems 0 xs prefix [(or_root prefix, leaf ''array'' False)]"
| "flatten _ prefix = [(or_root prefix, leaf ''unknown'' True)]"
| "flatten_items [] prefix flat = flat"
| "flatten_items ((k, v) # kvs) prefix flat =
     flatten_items kvs prefix (dict_update flat (flatten v (child_path prefix k)))"
| "flatten_elems i [] prefix flat = flat"
| "flatten_elems i (x # xs) prefix flat =
     flatten_elems (Suc i) xs prefix (dict_update flat (flatten x (index_path prefix i)))"

section \<open>Classifying one path\<close>

text \<open>\<open>set(xs)\<close> raises on the first element that is a list or a dictionary.\<close>

fun py_set :: "json list \<Rightarrow> py_exc + json list" where
  "py_set [] = Inr []"
| "py_set (JList _ # xs) = Inl (TypeError ''unhashable type: list'')"
| "py_set (JObj _ # xs) = Inl (TypeError ''unhashable type: dict'')"
| "py_set (x # xs) = (case py_set xs of Inl e \<Rightarrow> Inl e | Inr ys \<Rightarrow> Inr (x # ys))"

definition set_sub :: "json list \<Rightarrow> json list \<Rightarrow> bool" where
  "set_sub a b = list_all (\<lambda>x. list_ex (py_eq x) b) a"

definition set_less :: "json list \<Rightarrow> json list \<Rightarrow> bool" where
  "set_less a b = (set_sub a b \<and> \<not> set_sub b a)"

fun classify_enums :: "json option \<Rightarrow> json option \<Rightarrow> py_exc + (string \<times> string) option" where
  "classify_enums (Some (JList old_enum)) (Some (JList new_enum)) =
     (case py_set old_enum of
        Inl e \<Rightarrow> Inl e
      | Inr old_set \<Rightarrow>
          (case py_set new_enum of
             Inl e \<Rightarrow> Inl e
           | Inr new_set \<Rightarrow>
               if set_less old_set new_set then Inr (Some (''FORWARD_COMPATIBLE'', ''enum expansion''))
               else if set_less new_set old_set then Inr (Some (''BREAKING'', ''enum contraction''))
               else Inr None))"
| "classify_enums _ _ = Inr None"

definition classify_both :: "json \<Rightarrow> json \<Rightarrow> py_exc + (string \<times> string)" where
  "classify_both old new =
     (let old_t = type_of old; new_t = type_of new in
      if old_t \<noteq> new_t then
        Inr (if old_t = ''integer'' \<and> new_t = ''number'' then (''RISKY'', ''int->float widening'')
             else if old_t = ''number'' \<and> new_t = ''integer'' then (''BREAKING'', ''float->int narrowing'')
             else if old_t = ''string'' \<and> new_t \<in> {''integer'', ''number''}
               then (''BREAKING'', ''string->number'')
             else if old_t = ''array'' \<and> new_t = ''array'' then (''BREAKING'', ''array item mutation'')
             else (''BREAKING'', ''type changed '' @ old_t @ ''->'' @ new_t))
      else
        let old_null = nullable_of (Some old); new_null = nullable_of (Some new) in
        if old_null = Some False \<and> new_null = Some True
          then Inr (''BACKWARD_COMPATIBLE'', ''required field becomes nullable'')
        else if old_null = Some True \<and> new_null = Some False
          then Inr (''BREAKING'', ''nullable field becomes required'')
        else
          (case classify_enums (jget old ''enum'') (jget new ''enum'') of
             Inl e \<Rightarrow> Inl e
           | Inr (Some r) \<Rightarrow> Inr r
           | Inr None \<Rightarrow> Inr (''SAFE'', ''no compatibility risk'')))"

text \<open>\<open>_classify\<close>: \<open>None\<close> is a path that is missing on that side.\<close>

fun classify_path :: "json option \<Rightarrow> json option \<Rightarrow> py_exc + (string \<times> string)" where
  "classify_path None (Some new) =
     (if (case jget new ''required'' of Some r \<Rightarrow> truthy r | None \<Rightarrow> False)
      then Inr (''FORWARD_COMPATIBLE'', ''added required field'')
      else Inr (''SAFE'', ''added optional field''))"
| "classify_path (Some old) None =
     (if is_obj old \<and> (case jget old ''required'' of Some r \<Rightarrow> truthy r | None \<Rightarrow> True)
      then Inr (''BREAKING'', ''removed required field'')
      else Inr (''RISKY'', ''removed optional field''))"
| "classify_path (Some old) (Some new) = classify_both old new"
| "classify_path None None = Inr (''SAFE'', ''no compatibility risk'')"

section \<open>Diffing two schemas\<close>

record diff_item =
  di_path :: string
  di_old_type :: "string option"
  di_new_type :: "string option"
  di_old_nullable :: "bool option"
  di_new_nullable :: "bool option"
  di_classification :: string
  di_reason :: string

fun opt_eq :: "json option \<Rightarrow> json option \<Rightarrow> bool" where
  "opt_eq None None = True"
| "opt_eq (Some x) (Some y) = py_eq x y"
| "opt_eq _ _ = False"

definition mk_item :: "string \<Rightarrow> json option \<Rightarrow> json option \<Rightarrow> py_exc + diff_item" where
  "mk_item p old new =
     (case classify_path old new of
        Inl e \<Rightarrow> Inl e
      | Inr (cls, reason) \<Rightarrow>
          Inr \<lparr>di_path = p, di_old_type = map_option type_of old,
               di_new_type = map_option type_of new, di_old_nullable = nullable_of old,
               di_new_nullable = nullable_of new, di_classification = cls, di_reason = reason\<rparr>)"

definition diff_and_classify :: "json \<Rightarrow> json \<Rightarrow> py_exc + diff_item list" where
  "diff_and_classify old_schema new_schema =
     (let old_flat = flatten old_schema []; new_flat = flatten new_schema [] in
      map_exc (\<lambda>p. mk_item p (map_of old_flat p) (map_of new_flat p))
        (filter (\<lambda>p. \<not> opt_eq (map_of old_flat p) (map_of new_flat p))
          (sorted_set (keys old_flat @ keys new_flat))))"

text \<open>\<open>max(xs, key=f)\<close>: the first element of the largest key.\<close>

fun max_key :: "('a \<Rightarrow> int) \<Rightarrow> 'a \<Rightarrow> 'a list \<Rightarrow> 'a" where
  "max_key f m [] = m"
| "max_key f m (x # xs) = (if f m < f x then max_key f x xs else max_key f m xs)"

definition summarize_classification :: "diff_item list \<Rightarrow> string" where
  "summarize_classification diffs =
     (case diffs of
        [] \<Rightarrow> ''SAFE''
      | d # ds \<Rightarrow> max_key severity_rank (di_classification d) (map di_classification ds))"

section \<open>Flattened schemas\<close>

lemma distinct_flatten:
  "distinct (keys (flatten j p))"
  "distinct (keys flat) \<Longrightarrow> distinct (keys (flatten_items kvs p flat))"
  "distinct (keys flat) \<Longrightarrow> distinct (keys (flatten_elems i xs p flat))"
  by (induction j p and kvs p flat and i xs p flat rule: flatten_flatten_items_flatten_elems.induct)
     (auto simp: distinct_dict_update)

lemma ran_dict_update: "set (dict_update d e) \<subseteq> set d \<union> set e"
proof (induction d e rule: dict_update.induct)
  case (2 d k v e)
  have "set (AList.update k v d) \<subseteq> insert (k, v) (set d)" by (induction d) auto
  with 2 show ?case by auto
qed simp

lemma list_all_dict_update:
  "list_all (\<lambda>(k, v). Q v) d \<Longrightarrow> list_all (\<lambda>(k, v). Q v) e \<Longrightarrow> list_all (\<lambda>(k, v). Q v) (dict_update d e)"
  using ran_dict_update [of d e] by (fastforce simp: list_all_iff)

lemma wf_flatten_all:
  "wf_json j \<Longrightarrow> list_all (\<lambda>(k, v). wf_json v) (flatten j p)"
  "list_all (\<lambda>(k, v). wf_json v) kvs \<Longrightarrow> list_all (\<lambda>(k, v). wf_json v) flat \<Longrightarrow>
     list_all (\<lambda>(k, v). wf_json v) (flatten_items kvs p flat)"
  "list_all wf_json xs \<Longrightarrow> list_all (\<lambda>(k, v). wf_json v) flat \<Longrightarrow>
     list_all (\<lambda>(k, v). wf_json v) (flatten_elems i xs p flat)"
  by (induction j p and kvs p flat and i xs p flat rule: flatten_flatten_items_flatten_elems.induct)
     (auto simp: leaf_def intro: list_all_dict_update)

lemma wf_flatten: "wf_json j \<Longrightarrow> map_of (flatten j p) q = Some v \<Longrightarrow> wf_json v"
  using wf_flatten_all(1) [of j p] by (auto simp: list_all_iff dest: map_of_SomeD)

lemma diff_and_classify_paths:
  assumes "diff_and_classify a b = Inr ds"
  shows "map di_path ds = filter (\<lambda>p. \<not> opt_eq (map_of (flatten a []) p) (map_of (flatten b []) p))
           (sorted_set (keys (flatten a []) @ keys (flatten b [])))"
proof -
  have "map di_path ds = map id (filter (\<lambda>p. \<not> opt_eq (map_of (flatten a []) p) (map_of (flatten b []) p))
           (sorted_set (keys (flatten a []) @ keys (flatten b []))))"
    using assms unfolding diff_and_classify_def Let_def
    by (rule map_exc_keys) (auto simp: mk_item_def split: sum.splits)
  then show ?thesis by simp
qed

lemma opt_eq_present: "\<not> opt_eq (map_of d p) (map_of e p) \<Longrightarrow> p \<in> fst ` set d \<union> fst ` set e"
  by (cases "map_of d p"; cases "map_of e p") (force dest: map_of_SomeD)+

lemma opt_eq_refl: "(\<And>v. x = Some v \<Longrightarrow> wf_json v) \<Longrightarrow> opt_eq x x"
  by (cases x) (auto intro: py_eq_refl)

interpretation classifier: keyed_diff diff_and_classify di_path
  "\<lambda>s. map_of (flatten s [])" "\<lambda>x y. \<not> opt_eq x y" wf_json
proof unfold_locales
  fix a b ds assume "diff_and_classify a b = Inr ds"
  note paths = diff_and_classify_paths [OF this]
  show "distinct (map di_path ds)" by (simp add: paths)
  have "di_path ` set ds = set (map di_path ds)" by simp
  also have "\<dots> = {p. \<not> opt_eq (map_of (flatten a []) p) (map_of (flatten b []) p)}"
    unfolding paths by (auto dest: opt_eq_present)
  finally show "di_path ` set ds = {p. \<not> opt_eq (map_of (flatten a []) p) (map_of (flatten b []) p)}" .
next
  fix a p assume "wf_json a"
  then show "\<not> \<not> opt_eq (map_of (flatten a []) p) (map_of (flatten a []) p)"
    by (auto intro!: opt_eq_refl dest: wf_flatten)
qed

lemma diff_and_classify_sorted: "diff_and_classify a b = Inr ds \<Longrightarrow> sorted (map di_path ds)"
  by (simp add: diff_and_classify_paths sorted_filter [of id, simplified])

section \<open>The overall verdict\<close>

lemma max_key_in: "max_key f m xs \<in> insert m (set xs)"
  by (induction f m xs rule: max_key.induct) auto

lemma max_key_ge: "x \<in> insert m (set xs) \<Longrightarrow> f x \<le> f (max_key f m xs)"
proof (induction f m xs arbitrary: x rule: max_key.induct)
  case (2 f m y xs)
  then show ?case by (cases "f m < f y") (force, force)
qed simp

lemma summarize_in: "ds \<noteq> [] \<Longrightarrow> summarize_classification ds \<in> di_classification ` set ds"
  using max_key_in [of severity_rank "di_classification (hd ds)" "map di_classification (tl ds)"]
  by (cases ds) (auto simp: summarize_classification_def)

lemma summarize_ge:
  "d \<in> set ds \<Longrightarrow> severity_rank (di_classification d) \<le> severity_rank (summarize_classification ds)"
  using max_key_ge [of "di_classification d" "di_classification (hd ds)" "map di_classification (tl ds)" severity_rank]
  by (cases ds) (auto simp: summarize_classification_def)

lemma severity_rank_names [simp]:
  "severity_rank ''SAFE'' = 0" "severity_rank ''BACKWARD_COMPATIBLE'' = 1"
  "severity_rank ''FORWARD_COMPATIBLE'' = 2" "severity_rank ''RISKY'' = 3" "severity_rank ''BREAKING'' = 4"
  by (simp_all add: severity_rank_def members_def)

lemma severity_rank_bounds: "0 \<le> severity_rank v \<and> severity_rank v \<le> 4"
proof (cases "map_of members v")
  case (Some r)
  then show ?thesis by (cases r) (simp_all add: severity_rank_def)
qed (simp add: severity_rank_def)

lemma severity_rank_4: "severity_rank v = 4 \<longleftrightarrow> v = ''BREAKING''"
  by (auto simp: severity_rank_def members_def)

section \<open>Schemas of observed payloads\<close>

text \<open>
  A payload none of whose dictionaries uses the key \<open>type\<close>. Its canonical schema mentions
  \<open>type\<close> in leaves only, which is what \<open>_flatten\<close> and \<open>_type_of\<close> take for granted.
\<close>

fun no_key :: "string \<Rightarrow> json \<Rightarrow> bool" where
  "no_key k (JObj kvs) = (k \<notin> set (keys kvs) \<and> list_all (\<lambda>(l, v). no_key k v) kvs)"
| "no_key k (JList xs) = list_all (no_key k) xs"
| "no_key k _ = True"

definition leaf_types :: "(string \<times> bool) list" where
  "leaf_types = [(''null'', True), (''boolean'', False), (''integer'', False), (''number'', False),
     (''string'', False), (''array'', False)]"

definition is_leaf :: "json \<Rightarrow> bool" where
  "is_leaf v = list_ex (\<lambda>(t, n). v = leaf t n) leaf_types"

fun plain :: "json \<Rightarrow> bool" where
  "plain (JObj kvs) =
     (is_leaf (JObj kvs) \<or> ''type'' \<notin> set (keys kvs) \<and> list_all (\<lambda>(k, v). plain v) kvs)"
| "plain (JList xs) = list_all plain xs"
| "plain _ = False"

lemma is_leaf_leaf [simp]: "is_leaf (leaf t n) \<longleftrightarrow> (t, n) \<in> set leaf_types"
  by (auto simp: is_leaf_def list_ex_iff)

lemma is_leafE: "is_leaf v \<Longrightarrow> (\<And>t n. (t, n) \<in> set leaf_types \<Longrightarrow> v = leaf t n \<Longrightarrow> P) \<Longrightarrow> P"
  by (auto simp: is_leaf_def list_ex_iff)

lemma plain_leaf: "(t, n) \<in> set leaf_types \<Longrightarrow> plain (leaf t n)"
  using is_leaf_leaf [of t n] by (simp only: leaf_def plain.simps) simp

lemma plain_canonicalize: "no_key ''type'' j \<Longrightarrow> plain (canonicalize j)"
proof (induction j)
  case (JObj kvs)
  then show ?case by (auto simp: list_all_iff)
qed (auto simp: list_all_iff leaf_types_def intro!: plain_leaf)

lemma flatten_leaf: "flatten (leaf t n) p = [(or_root p, leaf t n)]"
  by (simp add: leaf_def)

lemma plain_flatten:
  "plain j \<Longrightarrow> list_all (\<lambda>(k, v). is_leaf v) (flatten j p)"
  "list_all (\<lambda>(k, v). plain v) kvs \<Longrightarrow> list_all (\<lambda>(k, v). is_leaf v) flat \<Longrightarrow>
     list_all (\<lambda>(k, v). is_leaf v) (flatten_items kvs p flat)"
  "list_all plain xs \<Longrightarrow> list_all (\<lambda>(k, v). is_leaf v) flat \<Longrightarrow>
     list_all (\<lambda>(k, v). is_leaf v) (flatten_elems i xs p flat)"
proof (induction j p and kvs p flat and i xs p flat rule: flatten_flatten_items_flatten_elems.induct)
  case (1 kvs p)
  show ?case
  proof (cases "is_leaf (JObj kvs)")
    case True
    then obtain t n where "(t, n) \<in> set leaf_types" "JObj kvs = leaf t n" by (rule is_leafE)
    then show ?thesis by (simp add: flatten_leaf)
  next
    case False
    with 1 show ?thesis by auto
  qed
qed (auto simp: leaf_types_def intro: list_all_dict_update)

text \<open>Leaves compare, and classify, by their type alone.\<close>

lemma py_eq_leaf [simp]: "py_eq (leaf t n) (leaf t' n') \<longleftrightarrow> t = t' \<and> n = n'"
  by (auto simp: leaf_def scalar_eq_def float_eq_def)

lemma type_of_leaf [simp]: "type_of (leaf t n) = t"
  by (simp add: leaf_def type_of_def py_str_def)

lemma nullable_of_leaf [simp]: "nullable_of (Some (leaf t n)) = Some n"
  by (simp add: leaf_def nullable_of_def)

lemma leaf_fields [simp]:
  "jget (leaf t n) ''required'' = None" "jget (leaf t n) ''enum'' = None" "is_obj (leaf t n)"
  by (simp_all add: leaf_def is_obj_def)

lemma leaf_types_fun:
  "(t, n) \<in> set leaf_types \<Longrightarrow> (t, n') \<in> set leaf_types \<Longrightarrow> n = n'"
  by (auto simp: leaf_types_def)

text \<open>The compatibility table over type names; \<open>None\<close> is a path that side does not have.\<close>

definition compat_table :: "string option \<Rightarrow> string option \<Rightarrow> string" where
  "compat_table old new =
     (case (old, new) of
        (None, _) \<Rightarrow> ''SAFE''
      | (Some _, None) \<Rightarrow> ''BREAKING''
      | (Some t, Some u) \<Rightarrow>
          if t = u then ''SAFE''
          else if t = ''integer'' \<and> u = ''number'' then ''RISKY''
          else ''BREAKING'')"

definition shape :: "json \<Rightarrow> string \<Rightarrow> string option" where
  "shape s p = map_option type_of (map_of (flatten s []) p)"

lemma plain_lookup:
  assumes "plain s" and "map_of (flatten s []) p = Some v"
  shows "\<exists>t n. (t, n) \<in> set leaf_types \<and> v = leaf t n"
proof -
  from assms(2) have "(p, v) \<in> set (flatten s [])" by (rule map_of_SomeD)
  with plain_flatten(1) [OF assms(1), of "[]"] have "is_leaf v" by (auto simp: list_all_iff)
  then show ?thesis by (auto elim: is_leafE)
qed

lemma plain_opt_eq:
  assumes "plain a" and "plain b"
  shows "opt_eq (map_of (flatten a []) p) (map_of (flatten b []) p) \<longleftrightarrow> shape a p = shape b p"
  using plain_lookup [OF assms(1), of p] plain_lookup [OF assms(2), of p]
  by (cases "map_of (flatten a []) p"; cases "map_of (flatten b []) p")
     (auto simp: shape_def dest: leaf_types_fun)

lemma plain_classify:
  assumes "plain a" and "plain b"
  shows "\<exists>r. classify_path (map_of (flatten a []) p) (map_of (flatten b []) p) =
           Inr (compat_table (shape a p) (shape b p), r)"
proof (cases "map_of (flatten a []) p")
  case None
  then show ?thesis using plain_lookup [OF assms(2), of p]
    by (cases "map_of (flatten b []) p") (auto simp: shape_def compat_table_def)
next
  case (Some x)
  then obtain t n where x: "(t, n) \<in> set leaf_types" "x = leaf t n" using plain_lookup [OF assms(1)] by blast
  show ?thesis
  proof (cases "map_of (flatten b []) p")
    case None
    with Some x show ?thesis by (auto simp: shape_def compat_table_def)
  next
    case (Some y)
    then obtain u m where y: "(u, m) \<in> set leaf_types" "y = leaf u m" using plain_lookup [OF assms(2)] by blast
    with x have "t = u \<Longrightarrow> n = m" by (blast dest: leaf_types_fun)
    with x y Some \<open>map_of (flatten a []) p = Some x\<close> show ?thesis
      by (auto simp: shape_def compat_table_def classify_both_def Let_def)
  qed
qed

lemma plain_diff:
  assumes "plain a" and "plain b"
  shows "\<exists>ds. diff_and_classify a b = Inr ds \<and>
           (\<forall>d \<in> set ds. di_old_type d = shape a (di_path d) \<and> di_new_type d = shape b (di_path d) \<and>
              di_classification d = compat_table (shape a (di_path d)) (shape b (di_path d)))"
proof -
  define item where "item p = projr (mk_item p (map_of (flatten a []) p) (map_of (flatten b []) p))" for p
  have mk: "mk_item p (map_of (flatten a []) p) (map_of (flatten b []) p) = Inr (item p)"
    and item: "di_path (item p) = p" "di_old_type (item p) = shape a p" "di_new_type (item p) = shape b p"
      "di_classification (item p) = compat_table (shape a p) (shape b p)" for p
    using plain_classify [OF assms, of p] by (auto simp: item_def mk_item_def shape_def)
  have "diff_and_classify a b = Inr (map item (filter (\<lambda>p. \<not> opt_eq (map_of (flatten a []) p) (map_of (flatten b []) p))
      (sorted_set (keys (flatten a []) @ keys (flatten b [])))))"
    unfolding diff_and_classify_def Let_def by (rule map_exc_total) (rule mk)
  with item show ?thesis by auto
qed


text \<open>What the caller sees of two plain schemas, in one elimination rule.\<close>

lemma plain_diffE:
  assumes "plain a" and "plain b"
  obtains ds where "diff_and_classify a b = Inr ds"
    and "di_path ` set ds = {p. shape a p \<noteq> shape b p}"
    and "\<And>d. d \<in> set ds \<Longrightarrow>
          di_old_type d = shape a (di_path d) \<and> di_new_type d = shape b (di_path d) \<and>
          di_classification d = compat_table (shape a (di_path d)) (shape b (di_path d))"
proof -
  from plain_diff [OF assms] obtain ds where ds: "diff_and_classify a b = Inr ds"
    "\<forall>d \<in> set ds. di_old_type d = shape a (di_path d) \<and> di_new_type d = shape b (di_path d) \<and>
       di_classification d = compat_table (shape a (di_path d)) (shape b (di_path d))" by blast
  from classifier.diff_paths [OF ds(1)] have "di_path ` set ds = {p. shape a p \<noteq> shape b p}"
    by (simp add: plain_opt_eq [OF assms])
  with ds that show ?thesis by blast
qed

lemma summarize_breaking:
  assumes "d \<in> set ds" and "di_classification d = ''BREAKING''"
  shows "summarize_classification ds = ''BREAKING''"
proof -
  from summarize_ge [OF assms(1)] assms(2) have "4 \<le> severity_rank (summarize_classification ds)" by simp
  with severity_rank_bounds [of "summarize_classification ds"] show ?thesis
    by (simp add: flip: severity_rank_4)
qed

lemma plain_removed_breaking:
  assumes "plain a" and "plain b" and "shape a p = Some t" and "shape b p = None"
  shows "\<exists>ds. diff_and_classify a b = Inr ds \<and> summarize_classification ds = ''BREAKING''"
proof (rule plain_diffE [OF assms(1,2)])
  fix ds assume ds: "diff_and_classify a b = Inr ds" "di_path ` set ds = {p. shape a p \<noteq> shape b p}"
    and cls: "\<And>d. d \<in> set ds \<Longrightarrow> di_old_type d = shape a (di_path d) \<and> di_new_type d = shape b (di_path d) \<and>
      di_classification d = compat_table (shape a (di_path d)) (shape b (di_path d))"
  have "p \<in> di_path ` set ds" using ds(2) assms(3,4) by simp
  then obtain d where d: "d \<in> set ds" "di_path d = p" by blast
  with cls have "di_classification d = ''BREAKING''" by (simp add: assms(3,4) compat_table_def)
  with d(1) ds(1) show ?thesis by (blast intro: summarize_breaking)
qed

section \<open>Array indices in paths\<close>

lemma show_nat_digits: "c \<in> set (show_nat n) \<Longrightarrow> 48 \<le> code_of c \<and> code_of c \<le> 57"
proof (induction n arbitrary: c rule: show_nat.induct)
  case (1 n)
  then show ?case
    by (subst (asm) show_nat.simps) (auto simp: code_of_digit split: if_splits)
qed

lemma show_nat_neq_Nil [simp]: "show_nat n \<noteq> []" "[] \<noteq> show_nat n"
  by (subst show_nat.simps, simp)+

lemma show_nat_inj: "show_nat m = show_nat n \<Longrightarrow> m = n"
proof (induction m arbitrary: n rule: show_nat.induct)
  case (1 m)
  have *: "show_nat k = (if k < 10 then [digit k] else show_nat (k div 10) @ [digit (k mod 10)])" for k
    by (rule show_nat.simps)
  show ?case
  proof (cases "m < 10")
    case True
    with 1(2) * [of m] * [of n] show ?thesis by (auto split: if_splits intro: digit_inj)
  next
    case False
    with 1(2) * [of m] * [of n] have "\<not> n < 10" by (auto split: if_splits)
    with False 1(2) * [of m] * [of n] have "show_nat (m div 10) = show_nat (n div 10)"
      "digit (m mod 10) = digit (n mod 10)" by auto
    with False 1(1) have "m div 10 = n div 10" "m mod 10 = n mod 10" by (auto intro: digit_inj)
    then show ?thesis by (metis div_mult_mod_eq)
  qed
qed

lemma index_path_inj [simp]: "index_path p i = index_path p j \<longleftrightarrow> i = j"
  by (auto simp: index_path_def dest: show_nat_inj)

lemma index_path_neq [simp]: "index_path p i \<noteq> p" "p \<noteq> index_path p i" "index_path p i \<noteq> []"
  "or_root (index_path p i) = index_path p i"
  by (auto simp: index_path_def or_root_def)

lemma or_root_neq_index: "or_root p \<noteq> index_path p i"
proof (cases p)
  case Nil
  show ?thesis
  proof
    assume "or_root p = index_path p i"
    with Nil have "CHR ''r'' = CHR ''*''" by (simp add: or_root_def index_path_def)
    then show False by simp
  qed
qed (auto simp: or_root_def index_path_def)

lemma flatten_elems_scalars:
  assumes "list_all scalar xs"
  shows "flatten_elems i (map canonicalize xs) p flat =
    dict_update flat (map (\<lambda>(j, x). (index_path p j, canonicalize x)) (enumerate i xs))"
  using assms
proof (induction xs arbitrary: i flat)
  case (Cons x xs)
  then obtain t n where "canonicalize x = leaf t n" using canonicalize_scalar [of x] by auto
  with Cons show ?case by (simp add: flatten_leaf)
qed simp

lemma lookup_scalar_array:
  assumes "list_all scalar xs"
  shows "index_path p j \<in> fst ` set (flatten (JList (map canonicalize xs)) p) \<longleftrightarrow> j < length xs"
proof -
  have "index_path p j \<noteq> or_root p" using or_root_neq_index [of p j] by metis
  moreover have "fst ` set (map (\<lambda>(j, x). (index_path p j, canonicalize x)) (enumerate 0 xs)) =
      index_path p ` fst ` set (enumerate 0 xs)"
    by (simp add: image_image case_prod_beta)
  moreover have "fst ` set (enumerate 0 xs) = {..<length xs}"
    by (metis atLeast0LessThan atLeastLessThan_upt list.set_map map_fst_enumerate plus_nat.add_0)
  ultimately show ?thesis
    by (simp add: flatten_elems_scalars [OF assms] keys_dict_update image_iff)
qed

section \<open>Single-field payloads\<close>

lemma canonicalize_single: "canonicalize (JObj [(k, v)]) = JObj [(k, canonicalize v)]"
  by (simp add: sort_items_def)

lemma flatten_single:
  assumes "k \<noteq> ''type''"
  shows "flatten (JObj [(k, v)]) [] = flatten v k"
proof -
  have "dict_update [] (flatten v k) = flatten v k"
    using dict_update_fresh [of "flatten v k" "[]"] by (simp add: distinct_flatten)
  with assms show ?thesis by (simp add: child_path_def)
qed

lemma scalar_no_key: "scalar j \<Longrightarrow> no_key k j"
  by (cases j) simp_all

lemma shape_array_field:
  assumes "k \<noteq> ''type''" and "list_all scalar xs"
  shows "shape (canonicalize (JObj [(k, JList xs)])) (index_path k j) \<noteq> None \<longleftrightarrow> j < length xs"
  using lookup_scalar_array [OF assms(2), of k j]
  by (simp add: shape_def canonicalize_single flatten_single [OF assms(1)] map_of_eq_None_iff
      del: canonicalize.simps(1) flatten.simps)

lemma flatten_dotted:
  assumes "a \<noteq> []" and "a \<noteq> ''type''" and "b \<noteq> ''type''" and "a @ ''.'' @ b \<noteq> ''type''"
  shows "flatten (canonicalize (JObj [(a, JObj [(b, v)])])) [] =
         flatten (canonicalize (JObj [(a @ ''.'' @ b, v)])) []"
proof -
  have "flatten (JObj [(b, canonicalize v)]) a = flatten (canonicalize v) (a @ ''.'' @ b)"
    using dict_update_fresh [of "flatten (canonicalize v) (a @ ''.'' @ b)" "[]"] assms(1,3)
    by (simp add: distinct_flatten child_path_def)
  with assms(2,4) show ?thesis
    by (simp only: canonicalize_single flatten_single not_False_eq_True)
qed

section \<open>Payloads with a field named type\<close>

lemma flatten_typed: "''type'' \<in> set (keys kvs) \<Longrightarrow> flatten (JObj kvs) [] = [(''[root]'', JObj kvs)]"
  by (simp add: or_root_def)

lemma diff_typed:
  assumes "''type'' \<in> set (keys kvs)" and "''type'' \<in> set (keys kws)"
  shows "diff_and_classify (JObj kvs) (JObj kws) =
    (if py_eq (JObj kvs) (JObj kws) then Inr []
     else case mk_item ''[root]'' (Some (JObj kvs)) (Some (JObj kws)) of Inl e \<Rightarrow> Inl e | Inr d \<Rightarrow> Inr [d])"
  using assms
  by (simp add: diff_and_classify_def flatten_typed Let_def sorted_set_def
      del: flatten.simps py_eq.simps split: sum.split)

lemma map_of_canonical:
  "distinct (keys kvs) \<Longrightarrow>
   map_of (map (\<lambda>(k, v). (k, canonicalize v)) (sort_items kvs)) k = map_option canonicalize (map_of kvs k)"
  by (simp add: map_of_map)

lemma canonical_has_key:
  "map_of kvs k = Some v \<Longrightarrow> k \<in> set (keys (map (\<lambda>(k, v). (k, canonicalize v)) (sort_items kvs)))"
  by (force dest: map_of_SomeD)

lemma classify_both_typed:
  assumes "wf_json (JObj kvs)" and "wf_json (JObj kws)"
    and "map_of kvs ''type'' = Some (JStr s)" and "map_of kws ''type'' = Some (JStr t)"
    and "map_of kvs ''nullable'' = None" and "map_of kws ''nullable'' = None"
  shows "classify_both (canonicalize (JObj kvs)) (canonicalize (JObj kws)) =
    (case classify_enums (map_option canonicalize (map_of kvs ''enum'')) (map_option canonicalize (map_of kws ''enum'')) of
       Inl e \<Rightarrow> Inl e
     | Inr (Some r) \<Rightarrow> Inr r
     | Inr None \<Rightarrow> Inr (''SAFE'', ''no compatibility risk''))"
  using assms by (simp add: classify_both_def type_of_def nullable_of_def map_of_map Let_def)

lemma diff_typed_canonical:
  assumes "map_of kvs ''type'' = Some v" and "map_of kws ''type'' = Some w"
    and "\<not> py_eq (canonicalize (JObj kvs)) (canonicalize (JObj kws))"
  shows "diff_and_classify (canonicalize (JObj kvs)) (canonicalize (JObj kws)) =
    (case mk_item ''[root]'' (Some (canonicalize (JObj kvs))) (Some (canonicalize (JObj kws))) of
       Inl e \<Rightarrow> Inl e | Inr d \<Rightarrow> Inr [d])"
  using diff_typed [OF canonical_has_key [OF assms(1)] canonical_has_key [OF assms(2)]] assms(3) by (simp del: py_eq.simps)

lemma py_set_canonical: "\<exists>m. py_set (map canonicalize (x # xs)) = Inl (TypeError m)"
  using canonicalize_not_scalar [of x] by (cases "canonicalize x") auto

lemma diff_self: "wf_json s \<Longrightarrow> diff_and_classify s s = Inr []"
  using classifier.differs_refl [of s] by (simp add: diff_and_classify_def Let_def filter_empty_conv)

lemma diff_self_canonical: "wf_json j \<Longrightarrow> diff_and_classify (canonicalize j) (canonicalize j) = Inr []"
  by (intro diff_self wf_canonical)

section \<open>Properties\<close>

text \<open>
  C9. For payloads that use no key named \<open>type\<close>, the classifier never raises, reports exactly the
  paths whose type differs between the two canonical schemas, and classifies each by the table:
  added is SAFE, removed is BREAKING, integer to number is RISKY, every other type change BREAKING.
\<close>
theorem classify_observed_payloads:
  assumes "no_key ''type'' a" and "no_key ''type'' b"
  shows "\<exists>ds. diff_and_classify (canonicalize a) (canonicalize b) = Inr ds \<and>
    di_path ` set ds = {p. shape (canonicalize a) p \<noteq> shape (canonicalize b) p} \<and>
    (\<forall>d \<in> set ds. di_classification d =
       compat_table (shape (canonicalize a) (di_path d)) (shape (canonicalize b) (di_path d)))"
  by (rule plain_diffE [OF plain_canonicalize [OF assms(1)] plain_canonicalize [OF assms(2)]]) blast

theorem classify_observed_payloads_witness:
  "\<exists>ds. diff_and_classify (canonicalize (JObj [(''score'', JInt 1)]))
      (canonicalize (JObj [(''score'', JFloat FInf)])) = Inr ds \<and>
    di_path ` set ds = {p. shape (canonicalize (JObj [(''score'', JInt 1)])) p \<noteq>
      shape (canonicalize (JObj [(''score'', JFloat FInf)])) p} \<and>
    (\<forall>d \<in> set ds. di_classification d =
       compat_table (shape (canonicalize (JObj [(''score'', JInt 1)])) (di_path d))
         (shape (canonicalize (JObj [(''score'', JFloat FInf)])) (di_path d)))"
  by (rule classify_observed_payloads) simp_all

text \<open>
  A diff that returns lists the paths in strictly increasing order, one item per path, and a
  path is listed exactly when its two sides are not equal.
\<close>
theorem diff_lists_changed_paths_once:
  assumes "diff_and_classify a b = Inr ds"
  shows "sorted (map di_path ds) \<and> distinct (map di_path ds) \<and>
    (p \<in> di_path ` set ds \<longleftrightarrow> \<not> opt_eq (map_of (flatten a []) p) (map_of (flatten b []) p))"
  using diff_and_classify_sorted [OF assms] classifier.diff_distinct [OF assms]
    classifier.reported_iff [OF assms, of p] by simp

theorem diff_lists_changed_paths_once_witness:
  "\<exists>ds. diff_and_classify (leaf ''string'' False) (leaf ''integer'' False) = Inr ds \<and>
    sorted (map di_path ds) \<and> distinct (map di_path ds) \<and>
    (''[root]'' \<in> di_path ` set ds \<longleftrightarrow>
      \<not> opt_eq (map_of (flatten (leaf ''string'' False) []) ''[root]'')
              (map_of (flatten (leaf ''integer'' False) []) ''[root]''))"
proof -
  have "plain (leaf ''string'' False)" "plain (leaf ''integer'' False)"
    by (rule plain_leaf, simp add: leaf_types_def)+
  from plain_diff [OF this] obtain ds
    where ds: "diff_and_classify (leaf ''string'' False) (leaf ''integer'' False) = Inr ds" by blast
  from diff_lists_changed_paths_once [OF ds, of "''[root]''"] ds show ?thesis by blast
qed

text \<open>
  A schema compared with itself has no drift: nothing is reported, nothing raises, and the
  verdict is SAFE.
\<close>
theorem unchanged_schema_is_safe:
  assumes "wf_json s"
  shows "diff_and_classify s s = Inr [] \<and> summarize_classification [] = ''SAFE''"
  by (simp add: diff_self [OF assms] summarize_classification_def)

theorem unchanged_schema_is_safe_witness:
  "diff_and_classify (canonicalize (JObj [(''a'', JList [JNull])])) (canonicalize (JObj [(''a'', JList [JNull])])) = Inr [] \<and>
   summarize_classification [] = ''SAFE''"
  by (rule unchanged_schema_is_safe) (rule wf_canonical, simp)

text \<open>
  The verdict of a non-empty diff is the classification of one of its items, and no item
  ranks above it.
\<close>
theorem verdict_is_the_worst_item:
  assumes "ds \<noteq> []"
  shows "summarize_classification ds \<in> di_classification ` set ds \<and>
    (\<forall>d \<in> set ds. severity_rank (di_classification d) \<le> severity_rank (summarize_classification ds))"
  using summarize_in [OF assms] summarize_ge by blast

theorem verdict_is_the_worst_item_witness:
  "\<exists>ds. ds \<noteq> [] \<and> summarize_classification ds \<in> di_classification ` set ds \<and>
    (\<forall>d \<in> set ds. severity_rank (di_classification d) \<le> severity_rank (summarize_classification ds))"
proof -
  let ?d = "\<lparr>di_path = ''a'', di_old_type = None, di_new_type = Some ''string'', di_old_nullable = None,
    di_new_nullable = Some False, di_classification = ''SAFE'', di_reason = ''added optional field''\<rparr>"
  have "[?d, ?d\<lparr>di_classification := ''RISKY''\<rparr>] \<noteq> []" by simp
  from verdict_is_the_worst_item [OF this] show ?thesis by blast
qed

text \<open>
  A shorter array is a breaking change: elements are compared index by index, so an array field
  observed with fewer scalar elements than before is reported as a removed required field, whatever
  the element types.
\<close>
theorem shorter_array_is_breaking:
  assumes "k \<noteq> ''type''" and "list_all scalar xs" and "list_all scalar ys" and "length ys < length xs"
  shows "\<exists>ds. diff_and_classify (canonicalize (JObj [(k, JList xs)])) (canonicalize (JObj [(k, JList ys)])) = Inr ds \<and>
           summarize_classification ds = ''BREAKING''"
proof -
  let ?a = "canonicalize (JObj [(k, JList xs)])" and ?b = "canonicalize (JObj [(k, JList ys)])"
  let ?p = "index_path k (length ys)"
  have plain: "plain ?a" "plain ?b"
    by (rule plain_canonicalize; use assms in \<open>auto simp: list_all_iff scalar_no_key\<close>)+
  have sh: "shape ?a ?p \<noteq> None" "shape ?b ?p = None"
    using shape_array_field [OF assms(1,2), of "length ys"] shape_array_field [OF assms(1,3), of "length ys"] assms(4)
    by auto
  from sh(1) obtain t where "shape ?a ?p = Some t" by blast
  with sh(2) show ?thesis using plain_removed_breaking [OF plain] by blast
qed

theorem shorter_array_is_breaking_witness:
  "\<exists>ds. diff_and_classify (canonicalize (JObj [(''tags'', JList [JInt 1, JInt 2])]))
      (canonicalize (JObj [(''tags'', JList [JInt 1])])) = Inr ds \<and>
    summarize_classification ds = ''BREAKING''"
  by (rule shorter_array_is_breaking) simp_all

text \<open>
  A field named \<open>type\<close> hides drift: when both payloads have a string field \<open>type\<close> (and no
  field \<open>nullable\<close> or \<open>enum\<close>), the flattening takes the payload for a leaf, so any change beside
  that field (a removed field, a changed type) is summarised as SAFE.
\<close>
theorem type_field_masks_drift:
  assumes "wf_json (JObj kvs)" and "wf_json (JObj kws)"
    and "map_of kvs ''type'' = Some (JStr s)" and "map_of kws ''type'' = Some (JStr t)"
    and "map_of kvs ''nullable'' = None" and "map_of kws ''nullable'' = None"
    and "map_of kvs ''enum'' = None"
  shows "\<exists>ds. diff_and_classify (canonicalize (JObj kvs)) (canonicalize (JObj kws)) = Inr ds \<and>
           summarize_classification ds = ''SAFE''"
proof (cases "py_eq (canonicalize (JObj kvs)) (canonicalize (JObj kws))")
  case True
  then show ?thesis
    using diff_typed [OF canonical_has_key [OF assms(3)] canonical_has_key [OF assms(4)]]
    by (simp add: summarize_classification_def del: py_eq.simps)
next
  case False
  show ?thesis
    unfolding diff_typed_canonical [OF assms(3,4) False] mk_item_def classify_path.simps
      classify_both_typed [OF assms(1-6)]
    by (simp add: assms(7) summarize_classification_def)
qed

theorem type_field_masks_drift_witness:
  "\<exists>ds. diff_and_classify (canonicalize (JObj [(''type'', JStr ''order''), (''id'', JInt 1)]))
      (canonicalize (JObj [(''type'', JStr ''order'')])) = Inr ds \<and>
    summarize_classification ds = ''SAFE''"
  by (rule type_field_masks_drift) simp_all

text \<open>
  Payloads with a string field \<open>type\<close> and an array field \<open>enum\<close> can make the classifier raise:
  the elements of a canonical array are dictionaries or lists, and building a set of them is a
  TypeError.
\<close>
theorem enum_field_raises:
  assumes "wf_json (JObj kvs)" and "wf_json (JObj kws)"
    and "map_of kvs ''type'' = Some (JStr s)" and "map_of kws ''type'' = Some (JStr t)"
    and "map_of kvs ''nullable'' = None" and "map_of kws ''nullable'' = None"
    and "map_of kvs ''enum'' = Some (JList (x # xs))" and "map_of kws ''enum'' = Some (JList ys)"
    and "\<not> py_eq (canonicalize (JObj kvs)) (canonicalize (JObj kws))"
  shows "\<exists>m. diff_and_classify (canonicalize (JObj kvs)) (canonicalize (JObj kws)) = Inl (TypeError m)"
proof -
  obtain m where "py_set (map canonicalize (x # xs)) = Inl (TypeError m)" using py_set_canonical by blast
  then show ?thesis
    unfolding diff_typed_canonical [OF assms(3,4,9)] mk_item_def classify_path.simps
      classify_both_typed [OF assms(1-6)]
    by (simp add: assms(7,8))
qed

theorem enum_field_raises_witness:
  "\<exists>m. diff_and_classify (canonicalize (JObj [(''type'', JStr ''a''), (''enum'', JList [JInt 1])]))
      (canonicalize (JObj [(''type'', JStr ''a''), (''enum'', JList [])])) = Inl (TypeError m)"
  by (rule enum_field_raises) (simp_all add: sort_items_def leaf_def scalar_eq_def)

text \<open>
  Dotted keys are ambiguous: a field \<open>a.b\<close> and a field \<open>b\<close> inside an object \<open>a\<close> flatten to the
  same path, so the classifier reports nothing between the two although the canonical schemas, and
  with them the fingerprinted texts, differ.
\<close>
theorem dotted_key_drift_unreported:
  assumes "a \<noteq> []" and "a \<noteq> ''type''" and "b \<noteq> ''type''" and "a @ ''.'' @ b \<noteq> ''type''" and "wf_json v"
  shows "diff_and_classify (canonicalize (JObj [(a, JObj [(b, v)])]))
           (canonicalize (JObj [(a @ ''.'' @ b, v)])) = Inr [] \<and>
         dumps True (canonicalize (JObj [(a, JObj [(b, v)])])) \<noteq>
           dumps True (canonicalize (JObj [(a @ ''.'' @ b, v)]))"
proof
  let ?x = "JObj [(a, JObj [(b, v)])]" and ?y = "JObj [(a @ ''.'' @ b, v)]"
  have "wf_json ?y" using assms(5) by simp
  from diff_self_canonical [OF this]
  show "diff_and_classify (canonicalize ?x) (canonicalize ?y) = Inr []"
    by (simp only: diff_and_classify_def flatten_dotted [OF assms(1-4)])
  show "dumps True (canonicalize ?x) \<noteq> dumps True (canonicalize ?y)"
    by (rule notI, drule blob_inject) (simp add: sort_items_def)
qed

theorem dotted_key_drift_unreported_witness:
  "diff_and_classify (canonicalize (JObj [(''a'', JObj [(''b'', JInt 1)])]))
           (canonicalize (JObj [(''a'' @ ''.'' @ ''b'', JInt 1)])) = Inr [] \<and>
         dumps True (canonicalize (JObj [(''a'', JObj [(''b'', JInt 1)])])) \<noteq>
           dumps True (canonicalize (JObj [(''a'' @ ''.'' @ ''b'', JInt 1)]))"
  by (rule dotted_key_drift_unreported) simp_all

end
