(* ===== verification/Engine.thy ===== *)
theory Engine
  imports Keyed_Diff Parser Classifier Database
begin

text \<open>
  \<open>app/core/engine.py\<close>, the older contract guard: the diff of two type skeletons, the three
  passes that grade it, the violations it logs, and the snapshot store behind it. The passes are
  shown equal to one table (\<open>drift_severity\<close>), the diff is an instance of the diff contract,
  and the two lookups that create what they do not find are instances of get-or-create.
\<close>

section \<open>Route locks\<close>

text \<open>\<open>int(s, 16)\<close> on what \<open>hexdigest()\<close> returns: lower case hexadecimal digits.\<close>

definition hex_digit :: "char \<Rightarrow> int option" where
  "hex_digit c =
     (let n = code_of c in
      if 48 \<le> n \<and> n \<le> 57 then Some (int n - 48)
      else if 97 \<le> n \<and> n \<le> 102 then Some (int n - 87) else None)"

fun int_of_hex :: "int \<Rightarrow> string \<Rightarrow> int option" where
  "int_of_hex acc [] = Some acc"
| "int_of_hex acc (c # cs) =
     (case hex_digit c of None \<Rightarrow> None | Some d \<Rightarrow> int_of_hex (16 * acc + d) cs)"

definition route_lock_id :: "(string \<Rightarrow> string) \<Rightarrow> string \<Rightarrow> int option" where
  "route_lock_id sha route_path = int_of_hex 0 (take 15 (sha route_path))"

section \<open>The structural diff\<close>

fun flatten_schema :: "json \<Rightarrow> string \<Rightarrow> string dict"
  and flatten_schema_items :: "(string \<times> json) list \<Rightarrow> string \<Rightarrow> string dict \<Rightarrow> string dict"
  and flatten_schema_elems :: "nat \<Rightarrow> json list \<Rightarrow> string \<Rightarrow> string dict \<Rightarrow> string dict" where
  "flatten_schema (JObj kvs) prefix = flatten_schema_items kvs prefix []"
| "flatten_schema (JList xs) prefix = flatten_schema_elems 0 xs prefix [(prefix, ''array'')]"
| "flatten_schema j prefix = [(prefix, py_str j)]"
| "flatten_schema_items [] prefix out = out"
| "flatten_schema_items ((k, v) # kvs) prefix out =
     flatten_schema_items kvs prefix (dict_update out (flatten_schema v (child_path prefix k)))"
| "flatten_schema_elems i [] prefix out = out"
| "flatten_schema_elems i (x # xs) prefix out =
     flatten_schema_elems (Suc i) xs prefix (dict_update out (flatten_schema x (index_path prefix i)))"

record drift_item =
  dr_path :: string
  dr_old :: "string option"
  dr_new :: "string option"
  dr_severity :: "string option"

definition structural_diff :: "json \<Rightarrow> json \<Rightarrow> drift_item list" where
  "structural_diff baseline_schema incoming_schema =
     (let baseline_flat = flatten_schema baseline_schema []; incoming_flat = flatten_schema incoming_schema [] in
      map (\<lambda>p. \<lparr>dr_path = p, dr_old = map_of baseline_flat p, dr_new = map_of incoming_flat p,
                dr_severity = None\<rparr>)
        (filter (\<lambda>p. map_of baseline_flat p \<noteq> map_of incoming_flat p)
          (sorted_set (keys baseline_flat @ keys incoming_flat))))"

section \<open>The three passes\<close>

definition safe_change :: "drift_item \<Rightarrow> drift_item" where
  "safe_change item =
     (if dr_old item = None \<and> dr_new item \<noteq> None then item\<lparr>dr_severity := Some ''SAFE''\<rparr> else item)"

definition classify_safe_changes :: "drift_item list \<Rightarrow> drift_item list" where
  "classify_safe_changes diffs = map safe_change diffs"

definition primitive_types :: "string list" where
  "primitive_types = [''int'', ''float'', ''string'', ''bool'']"

definition in_primitive :: "string option \<Rightarrow> bool" where
  "in_primitive t = (case t of None \<Rightarrow> False | Some s \<Rightarrow> s \<in> set primitive_types)"

definition risky_mutation :: "drift_item \<Rightarrow> drift_item" where
  "risky_mutation item =
     (if dr_severity item \<noteq> None then item
      else if in_primitive (dr_old item) \<and> in_primitive (dr_new item) \<and> dr_old item \<noteq> dr_new item then
        (if dr_old item = Some ''int'' \<and> dr_new item = Some ''float'' then item\<lparr>dr_severity := Some ''RISKY''\<rparr>
         else if dr_old item = Some ''float'' \<and> dr_new item = Some ''int''
           then item\<lparr>dr_severity := Some ''BREAKING''\<rparr>
         else item\<lparr>dr_severity := Some ''BREAKING''\<rparr>)
      else item)"

definition classify_risky_mutations :: "drift_item list \<Rightarrow> drift_item list" where
  "classify_risky_mutations diffs = map risky_mutation diffs"

text \<open>\<open>s.startswith(p)\<close>, with what is left of \<open>s\<close>.\<close>

definition strip_prefix :: "string \<Rightarrow> string \<Rightarrow> string option" where
  "strip_prefix p s = (if take (length p) s = p then Some (drop (length p) s) else None)"

definition breaking_change :: "drift_item \<Rightarrow> drift_item" where
  "breaking_change item =
     (if dr_severity item \<noteq> None then item
      else if dr_old item \<noteq> None \<and> dr_new item = None then item\<lparr>dr_severity := Some ''BREAKING''\<rparr>
      else case dr_old item of
          None \<Rightarrow> item
        | Some old \<Rightarrow>
            (case strip_prefix ''nullable_'' old of
               None \<Rightarrow> item
             | Some required_old \<Rightarrow>
                 if dr_new item = Some required_old then item\<lparr>dr_severity := Some ''BREAKING''\<rparr> else item))"

definition classify_breaking_changes :: "drift_item list \<Rightarrow> drift_item list" where
  "classify_breaking_changes diffs = map breaking_change diffs"

definition classify_contract_drift :: "drift_item list \<Rightarrow> drift_item list" where
  "classify_contract_drift diffs =
     classify_breaking_changes (classify_risky_mutations (classify_safe_changes diffs))"

section \<open>The snapshot store\<close>

definition api_endpoint_key :: "string \<times> string \<times> string \<Rightarrow> api_endpoint_row \<Rightarrow> bool" where
  "api_endpoint_key k r \<longleftrightarrow> (ae_service r, ae_method r, ae_route r) = k"

definition find_api_endpoint :: "database \<Rightarrow> string \<times> string \<times> string \<Rightarrow> uuid option" where
  "find_api_endpoint db k = map_option ae_id (first_row (filter (api_endpoint_key k) (db_api_endpoints db)))"

text \<open>\<open>ensure_endpoint\<close>; the test \<open>if endpoint_id\<close> is met by every uuid.\<close>

fun legacy_ensure_endpoint :: "string \<times> string \<times> string \<Rightarrow> database \<Rightarrow> uuid \<times> database" where
  "legacy_ensure_endpoint (service_name, http_method, route_path) db =
     (case find_api_endpoint db (service_name, http_method, route_path) of
        Some endpoint_id \<Rightarrow> (endpoint_id, db)
      | None \<Rightarrow>
          (new_uuid db, (used_uuid db)\<lparr>db_api_endpoints := db_api_endpoints db @
             [\<lparr>ae_id = new_uuid db, ae_service = service_name, ae_method = http_method,
               ae_route = route_path\<rparr>]\<rparr>))"

definition snapshot_key :: "uuid \<times> string \<Rightarrow> snapshot_row \<Rightarrow> bool" where
  "snapshot_key k r \<longleftrightarrow> (sn_endpoint_id r, sn_fingerprint r) = k"

definition find_snapshot :: "database \<Rightarrow> uuid \<times> string \<Rightarrow> snapshot_row option" where
  "find_snapshot db k = first_row (filter (snapshot_key k) (db_snapshots db))"

text \<open>The flag says whether the snapshot is new.\<close>

definition register_snapshot :: "uuid \<Rightarrow> string \<Rightarrow> json \<Rightarrow> database \<Rightarrow> bool \<times> database" where
  "register_snapshot endpoint_id fp normalized_schema db =
     (if find_snapshot db (endpoint_id, fp) \<noteq> None then (False, db)
      else (True, (used_uuid db)\<lparr>db_snapshots := db_snapshots db @
         [\<lparr>sn_id = new_uuid db, sn_endpoint_id = endpoint_id, sn_fingerprint = fp,
           sn_schema = db_jsonb db normalized_schema, sn_active = False, sn_created_at = db_now db\<rparr>]\<rparr>))"

definition register_payload_snapshot ::
  "string \<Rightarrow> string \<Rightarrow> string \<Rightarrow> string \<Rightarrow> json \<Rightarrow> database \<Rightarrow> (uuid \<times> bool) \<times> database" where
  "register_payload_snapshot service_name http_method route_path fp normalized_schema db =
     (let (endpoint_id, db1) = legacy_ensure_endpoint (service_name, http_method, route_path) db;
          (inserted, db2) = register_snapshot endpoint_id fp normalized_schema db1
      in ((endpoint_id, inserted), db2))"

definition get_active_baseline_snapshot :: "database \<Rightarrow> uuid \<Rightarrow> (string \<times> json) option" where
  "get_active_baseline_snapshot db endpoint_id =
     map_option (\<lambda>r. (sn_fingerprint r, sn_schema r))
       (first_row (order_desc sn_created_at
         (filter (\<lambda>r. sn_endpoint_id r = endpoint_id \<and> sn_active r) (db_snapshots db))))"

definition get_active_baseline :: "database \<Rightarrow> uuid \<Rightarrow> json option" where
  "get_active_baseline db endpoint_id =
     map_option sn_schema
       (first_row (order_desc sn_created_at
         (filter (\<lambda>r. sn_endpoint_id r = endpoint_id \<and> sn_active r) (db_snapshots db))))"

definition json_opt :: "string option \<Rightarrow> json" where
  "json_opt x = (case x of None \<Rightarrow> JNull | Some s \<Rightarrow> JStr s)"

fun log_drift_violations :: "uuid \<Rightarrow> string \<Rightarrow> drift_item list \<Rightarrow> database \<Rightarrow> database" where
  "log_drift_violations endpoint_id fp [] db = db"
| "log_drift_violations endpoint_id fp (item # diffs) db =
     (case dr_severity item of
        None \<Rightarrow> log_drift_violations endpoint_id fp diffs db
      | Some severity \<Rightarrow>
          log_drift_violations endpoint_id fp diffs
            ((used_uuid db)\<lparr>db_violations := db_violations db @
              [\<lparr>vi_id = new_uuid db, vi_endpoint_id = endpoint_id, vi_fingerprint = fp,
                vi_severity = severity,
                vi_payload = db_jsonb db (JObj [(''path'', JStr (dr_path item)),
                  (''old'', json_opt (dr_old item)), (''new'', json_opt (dr_new item))])\<rparr>]\<rparr>))"

text \<open>\<open>get_runtime_metrics\<close>: endpoints, snapshots, violations per severity.\<close>

definition get_runtime_metrics :: "database \<Rightarrow> nat \<times> nat \<times> (string \<times> nat) list" where
  "get_runtime_metrics db =
     (length (db_api_endpoints db), length (db_snapshots db),
      map (\<lambda>s. (s, length (filter (\<lambda>r. vi_severity r = s) (db_violations db))))
        (remdups (map vi_severity (db_violations db))))"

section \<open>The diff is an instance of the contract\<close>

lemma distinct_flatten_schema:
  "distinct (keys (flatten_schema j p))"
  "distinct (keys out) \<Longrightarrow> distinct (keys (flatten_schema_items kvs p out))"
  "distinct (keys out) \<Longrightarrow> distinct (keys (flatten_schema_elems i xs p out))"
  by (induction j p and kvs p out and i xs p out rule: flatten_schema_flatten_schema_items_flatten_schema_elems.induct)
     (auto simp: distinct_dict_update)

lemma structural_diff_paths:
  "map dr_path (structural_diff a b) =
     filter (\<lambda>p. map_of (flatten_schema a []) p \<noteq> map_of (flatten_schema b []) p)
       (sorted_set (keys (flatten_schema a []) @ keys (flatten_schema b [])))"
  by (simp add: structural_diff_def Let_def comp_def)

lemma structural_diff_item:
  "d \<in> set (structural_diff a b) \<Longrightarrow>
     dr_old d = map_of (flatten_schema a []) (dr_path d) \<and> dr_new d = map_of (flatten_schema b []) (dr_path d)
     \<and> dr_old d \<noteq> dr_new d \<and> dr_severity d = None"
  by (auto simp: structural_diff_def Let_def)

lemma map_of_neq_present: "map_of d p \<noteq> map_of e p \<Longrightarrow> p \<in> fst ` set d \<union> fst ` set e"
  by (metis UnI1 UnI2 map_of_eq_None_iff)

interpretation engine: symmetric_diff "\<lambda>a b. Inr (structural_diff a b)" dr_path
  "\<lambda>s. map_of (flatten_schema s [])" "(\<noteq>)" "\<lambda>_. True"
proof unfold_locales
  fix a b :: json and ds
  assume "(Inr (structural_diff a b) :: py_exc + drift_item list) = Inr ds"
  then have ds: "ds = structural_diff a b" by simp
  show "distinct (map dr_path ds)" unfolding ds structural_diff_paths by simp
  have "dr_path ` set ds = set (map dr_path ds)" by simp
  also have "\<dots> = {p. map_of (flatten_schema a []) p \<noteq> map_of (flatten_schema b []) p}"
    unfolding ds structural_diff_paths by (auto dest: map_of_neq_present)
  finally show "dr_path ` set ds = {p. map_of (flatten_schema a []) p \<noteq> map_of (flatten_schema b []) p}" .
qed auto

section \<open>The passes as one table\<close>

definition drift_severity :: "string option \<Rightarrow> string option \<Rightarrow> string option" where
  "drift_severity old new =
     (case (old, new) of
        (None, None) \<Rightarrow> None
      | (None, Some _) \<Rightarrow> Some ''SAFE''
      | (Some _, None) \<Rightarrow> Some ''BREAKING''
      | (Some t, Some u) \<Rightarrow>
          if t \<in> set primitive_types \<and> u \<in> set primitive_types \<and> t \<noteq> u
          then Some (if t = ''int'' \<and> u = ''float'' then ''RISKY'' else ''BREAKING'')
          else if strip_prefix ''nullable_'' t = Some u then Some ''BREAKING'' else None)"

lemma passes_item:
  assumes "dr_severity d = None"
  shows "breaking_change (risky_mutation (safe_change d)) = d\<lparr>dr_severity := drift_severity (dr_old d) (dr_new d)\<rparr>"
proof (cases "\<exists>t u. dr_old d = Some t \<and> dr_new d = Some u")
  case True
  then obtain t u where tu: "dr_old d = Some t" "dr_new d = Some u" by blast
  then have safe: "safe_change d = d" by (simp add: safe_change_def)
  show ?thesis
  proof (cases "t \<in> set primitive_types \<and> u \<in> set primitive_types \<and> t \<noteq> u")
    case True
    with tu assms show ?thesis
      unfolding safe by (simp add: risky_mutation_def in_primitive_def breaking_change_def drift_severity_def)
  next
    case False
    then have "risky_mutation d = d" by (auto simp: risky_mutation_def in_primitive_def tu assms)
    then show ?thesis
      using False tu assms unfolding safe breaking_change_def drift_severity_def
      by (cases "strip_prefix ''nullable_'' t") auto
  qed
next
  case False
  with assms show ?thesis
    by (cases "dr_old d"; cases "dr_new d")
       (simp_all add: safe_change_def risky_mutation_def in_primitive_def breaking_change_def
          drift_severity_def split: option.split)
qed

lemma classify_contract_drift_map:
  "\<forall>d \<in> set diffs. dr_severity d = None \<Longrightarrow>
     classify_contract_drift diffs = map (\<lambda>d. d\<lparr>dr_severity := drift_severity (dr_old d) (dr_new d)\<rparr>) diffs"
  by (simp add: classify_contract_drift_def classify_breaking_changes_def classify_risky_mutations_def
      classify_safe_changes_def passes_item)

section \<open>Type skeletons\<close>

text \<open>\<open>normalize_types\<close> leaves these names at the leaves; \<open>_flatten_schema\<close> adds \<open>array\<close>.\<close>

definition leaf_names :: "string list" where
  "leaf_names = [''null'', ''bool'', ''int'', ''float'', ''string'']"

fun skeleton :: "json \<Rightarrow> bool" where
  "skeleton (JObj kvs) = list_all (\<lambda>(k, v). skeleton v) kvs"
| "skeleton (JList xs) = list_all skeleton xs"
| "skeleton (JStr s) = (s \<in> set leaf_names)"
| "skeleton _ = False"

lemma skeleton_normalize: "skeleton (normalize_types j)"
  by (induction j) (auto simp: list_all_iff leaf_names_def)

lemma skeleton_flatten:
  "skeleton j \<Longrightarrow> list_all (\<lambda>(k, v). v \<in> set (''array'' # leaf_names)) (flatten_schema j p)"
  "list_all (\<lambda>(k, v). skeleton v) kvs \<Longrightarrow> list_all (\<lambda>(k, v). v \<in> set (''array'' # leaf_names)) out \<Longrightarrow>
     list_all (\<lambda>(k, v). v \<in> set (''array'' # leaf_names)) (flatten_schema_items kvs p out)"
  "list_all skeleton xs \<Longrightarrow> list_all (\<lambda>(k, v). v \<in> set (''array'' # leaf_names)) out \<Longrightarrow>
     list_all (\<lambda>(k, v). v \<in> set (''array'' # leaf_names)) (flatten_schema_elems i xs p out)"
  by (induction j p and kvs p out and i xs p out rule: flatten_schema_flatten_schema_items_flatten_schema_elems.induct)
     (auto simp: py_str_def simp del: list.set intro: list_all_dict_update, simp_all)

definition legacy_types :: "json \<Rightarrow> string \<Rightarrow> string option" where
  "legacy_types payload p = map_of (flatten_schema (normalize_types payload) []) p"

lemma legacy_types_names: "legacy_types j p = Some t \<Longrightarrow> t \<in> set (''array'' # leaf_names)"
  using skeleton_flatten(1) [OF skeleton_normalize, of j "[]"] unfolding legacy_types_def
  by (fastforce simp: list_all_iff dest: map_of_SomeD)

lemma primitive_iff: "t \<in> set (''array'' # leaf_names) \<Longrightarrow> t \<in> set primitive_types \<longleftrightarrow> t \<notin> {''null'', ''array''}"
  by (auto simp: leaf_names_def primitive_types_def)

lemma not_nullable_prefix: "t \<in> set (''array'' # leaf_names) \<Longrightarrow> strip_prefix ''nullable_'' t \<noteq> Some u"
  by (auto simp: leaf_names_def strip_prefix_def)

text \<open>How a change between two observed types is graded; \<open>None\<close> as the result: not at all.\<close>

definition legacy_grade :: "string option \<Rightarrow> string option \<Rightarrow> string option" where
  "legacy_grade old new =
     (case (old, new) of
        (None, _) \<Rightarrow> Some ''SAFE''
      | (Some _, None) \<Rightarrow> Some ''BREAKING''
      | (Some t, Some u) \<Rightarrow>
          if t \<in> {''null'', ''array''} \<or> u \<in> {''null'', ''array''} then None
          else if t = ''int'' \<and> u = ''float'' then Some ''RISKY'' else Some ''BREAKING'')"

lemma drift_severity_grade:
  assumes "old \<noteq> new" and "\<And>t. old = Some t \<Longrightarrow> t \<in> set (''array'' # leaf_names)"
    and "\<And>t. new = Some t \<Longrightarrow> t \<in> set (''array'' # leaf_names)"
  shows "drift_severity old new = legacy_grade old new"
proof (cases old)
  case None
  with assms(1) show ?thesis by (cases new) (simp_all add: drift_severity_def legacy_grade_def)
next
  case old: (Some t)
  show ?thesis
  proof (cases new)
    case None
    with old show ?thesis by (simp add: drift_severity_def legacy_grade_def)
  next
    case (Some u)
    from old Some assms have "t \<noteq> u" "t \<in> set (''array'' # leaf_names)" "u \<in> set (''array'' # leaf_names)"
      by simp_all
    moreover from this(2) have "strip_prefix ''nullable_'' t \<noteq> Some u" by (rule not_nullable_prefix)
    ultimately show ?thesis using old Some primitive_iff [of t] primitive_iff [of u]
      by (simp add: drift_severity_def legacy_grade_def del: set_simps insert_iff append_Cons)
  qed
qed

text \<open>The diff \<open>/track\<close> computes between two observed payloads, graded.\<close>

definition legacy_drift :: "json \<Rightarrow> json \<Rightarrow> drift_item list" where
  "legacy_drift a b = classify_contract_drift (structural_diff (normalize_types a) (normalize_types b))"

lemma legacy_drift_map:
  "legacy_drift a b = map (\<lambda>d. d\<lparr>dr_severity := drift_severity (dr_old d) (dr_new d)\<rparr>)
     (structural_diff (normalize_types a) (normalize_types b))"
  unfolding legacy_drift_def
  by (rule classify_contract_drift_map) (auto dest: structural_diff_item)

lemma legacy_drift_item:
  assumes "d \<in> set (legacy_drift a b)"
  shows "dr_old d = legacy_types a (dr_path d) \<and> dr_new d = legacy_types b (dr_path d)
    \<and> dr_old d \<noteq> dr_new d \<and> dr_severity d = legacy_grade (dr_old d) (dr_new d)"
proof -
  obtain e where e: "e \<in> set (structural_diff (normalize_types a) (normalize_types b))"
    and d: "d = e\<lparr>dr_severity := drift_severity (dr_old e) (dr_new e)\<rparr>"
    using assms by (auto simp: legacy_drift_map)
  from structural_diff_item [OF e]
  have eq: "dr_old e = legacy_types a (dr_path e)" "dr_new e = legacy_types b (dr_path e)" "dr_old e \<noteq> dr_new e"
    unfolding legacy_types_def by blast+
  have "drift_severity (dr_old e) (dr_new e) = legacy_grade (dr_old e) (dr_new e)"
    by (rule drift_severity_grade [OF eq(3)]) (use eq in \<open>auto dest: legacy_types_names\<close>)
  with eq d show ?thesis by simp
qed

lemma legacy_drift_paths:
  "map dr_path (legacy_drift a b) = map dr_path (structural_diff (normalize_types a) (normalize_types b))"
  by (simp add: legacy_drift_map comp_def)

section \<open>The snapshot store keeps its keys unique\<close>

interpretation legacy_endpoints: get_or_create find_api_endpoint legacy_ensure_endpoint
proof unfold_locales
  fix db k i assume "find_api_endpoint db k = Some i"
  then show "legacy_ensure_endpoint k db = (i, db)" by (cases k) simp
next
  fix db db' k i assume "find_api_endpoint db k = None" "legacy_ensure_endpoint k db = (i, db')"
  then show "find_api_endpoint db' k = Some i"
    by (cases k) (auto simp: find_api_endpoint_def api_endpoint_key_def first_row_append)
next
  fix db db' k l i assume "legacy_ensure_endpoint k db = (i, db')" "l \<noteq> k"
  then show "find_api_endpoint db' l = find_api_endpoint db l"
    by (cases k)
       (auto simp: find_api_endpoint_def api_endpoint_key_def first_row_append
          split: option.splits)
qed

interpretation legacy_snapshots: get_or_create "\<lambda>db k. map_option (\<lambda>_. ()) (find_snapshot db k)"
  "\<lambda>k db. ((), snd (register_snapshot (fst k) (snd k) schema db))" for schema
proof unfold_locales
  fix db db' k i assume "((), snd (register_snapshot (fst k) (snd k) schema db)) = (i, db')"
  then show "map_option (\<lambda>_. ()) (find_snapshot db' k) = Some i"
    by (auto simp: register_snapshot_def find_snapshot_def snapshot_key_def first_row_append
        split: option.splits)
next
  fix db db' k l i
  assume "((), snd (register_snapshot (fst k) (snd k) schema db)) = (i, db')" "l \<noteq> k"
  then show "map_option (\<lambda>_. ()) (find_snapshot db' l) = map_option (\<lambda>_. ()) (find_snapshot db l)"
    by (auto simp: register_snapshot_def find_snapshot_def snapshot_key_def first_row_append
        split: option.splits)
qed (auto simp: register_snapshot_def)

text \<open>The unique constraints and the foreign key of the two tables.\<close>

definition snapshot_tables_ok :: "database \<Rightarrow> bool" where
  "snapshot_tables_ok db \<longleftrightarrow>
     distinct (map (\<lambda>r. (ae_service r, ae_method r, ae_route r)) (db_api_endpoints db)) \<and>
     distinct (map ae_id (db_api_endpoints db)) \<and>
     distinct (map (\<lambda>r. (sn_endpoint_id r, sn_fingerprint r)) (db_snapshots db)) \<and>
     distinct (map sn_id (db_snapshots db)) \<and>
     list_all (\<lambda>r. issued db (ae_id r)) (db_api_endpoints db) \<and>
     list_all (\<lambda>r. issued db (sn_id r) \<and> sn_endpoint_id r \<in> ae_id ` set (db_api_endpoints db)) (db_snapshots db)"

lemma snapshot_tables_endpoint:
  assumes "snapshot_tables_ok db" "inj (db_uuid db)" "legacy_ensure_endpoint k db = (i, db')"
  shows "snapshot_tables_ok db' \<and> i \<in> ae_id ` set (db_api_endpoints db') \<and> db_uuid db' = db_uuid db"
proof (cases "find_api_endpoint db k")
  case (Some j)
  then have "j \<in> ae_id ` set (db_api_endpoints db)"
    by (auto simp: find_api_endpoint_def dest: first_row_filter_SomeD)
  with Some assms legacy_endpoints.hit [OF Some] show ?thesis by simp
next
  case None
  obtain s m r where k: "k = (s, m, r)" by (cases k)
  from None have "k \<notin> (\<lambda>r. (ae_service r, ae_method r, ae_route r)) ` set (db_api_endpoints db)"
    by (auto simp: find_api_endpoint_def first_row_filter_None api_endpoint_key_def)
  moreover have "new_uuid db \<notin> ae_id ` set (db_api_endpoints db)"
    using assms(1) new_uuid_fresh [OF assms(2)] by (auto simp: snapshot_tables_ok_def list_all_iff)
  ultimately show ?thesis
    using assms None k
    by (auto simp: snapshot_tables_ok_def list_all_iff issued_used_uuid)
qed

lemma snapshot_tables_snapshot:
  assumes "snapshot_tables_ok db" "inj (db_uuid db)" "i \<in> ae_id ` set (db_api_endpoints db)"
    and "register_snapshot i fp schema db = (b, db')"
  shows "snapshot_tables_ok db'"
proof (cases "find_snapshot db (i, fp)")
  case (Some r)
  with assms show ?thesis by (simp add: register_snapshot_def)
next
  case None
  then have "(i, fp) \<notin> (\<lambda>r. (sn_endpoint_id r, sn_fingerprint r)) ` set (db_snapshots db)"
    by (auto simp: find_snapshot_def first_row_filter_None snapshot_key_def)
  moreover have "new_uuid db \<notin> sn_id ` set (db_snapshots db)"
    using assms(1) new_uuid_fresh [OF assms(2)] by (auto simp: snapshot_tables_ok_def list_all_iff)
  ultimately show ?thesis
    using assms None
    by (auto simp: register_snapshot_def snapshot_tables_ok_def list_all_iff issued_used_uuid)
qed

section \<open>Properties\<close>

text \<open>
  C27. The legacy drift report between two observed payloads lists exactly the paths at which their
  types differ, sorted, once each, and the three passes together grade every item by one table:
  an added path is SAFE, a removed one BREAKING, a change between two scalar types RISKY for int
  to float and BREAKING otherwise, and a change from or to null or an array gets no grade.
\<close>

theorem legacy_drift_report:
  "map dr_path (legacy_drift a b) = filter (\<lambda>p. legacy_types a p \<noteq> legacy_types b p)
      (sorted_set (keys (flatten_schema (normalize_types a) []) @ keys (flatten_schema (normalize_types b) [])))
   \<and> set (map dr_path (legacy_drift a b)) = {p. legacy_types a p \<noteq> legacy_types b p}
   \<and> (\<forall>d \<in> set (legacy_drift a b). dr_old d = legacy_types a (dr_path d) \<and>
      dr_new d = legacy_types b (dr_path d) \<and> dr_severity d = legacy_grade (dr_old d) (dr_new d))"
proof (intro conjI)
  show "map dr_path (legacy_drift a b) = filter (\<lambda>p. legacy_types a p \<noteq> legacy_types b p)
      (sorted_set (keys (flatten_schema (normalize_types a) []) @ keys (flatten_schema (normalize_types b) [])))"
    by (simp add: legacy_drift_paths structural_diff_paths legacy_types_def)
  show "set (map dr_path (legacy_drift a b)) = {p. legacy_types a p \<noteq> legacy_types b p}"
    using engine.diff_paths [OF refl] unfolding legacy_drift_paths by (simp add: legacy_types_def)
  show "\<forall>d \<in> set (legacy_drift a b). dr_old d = legacy_types a (dr_path d) \<and>
      dr_new d = legacy_types b (dr_path d) \<and> dr_severity d = legacy_grade (dr_old d) (dr_new d)"
    using legacy_drift_item by blast
qed

theorem legacy_drift_report_witness:
  "dr_severity (hd (legacy_drift (JObj [(''a'', JInt 1)]) (JObj [(''a'', JFloat FInf)]))) = Some ''RISKY''"
proof -
  have eq: "legacy_drift (JObj [(''a'', JInt 1)]) (JObj [(''a'', JFloat FInf)])
      = [\<lparr>dr_path = ''a'', dr_old = Some ''int'', dr_new = Some ''float'', dr_severity = Some ''RISKY''\<rparr>]"
    by code_simp
  show ?thesis
    using legacy_drift_report [of "JObj [(''a'', JInt 1)]" "JObj [(''a'', JFloat FInf)]"]
    unfolding eq by simp
qed

text \<open>
  The older guard does not care which of two schemas is the baseline when it lists the changed
  paths: both directions report the same paths in the same order.
\<close>

theorem structural_diff_symmetric:
  "map dr_path (structural_diff a b) = map dr_path (structural_diff b a)"
proof (rule sorted_distinct_set_unique)
  show "set (map dr_path (structural_diff a b)) = set (map dr_path (structural_diff b a))"
    using engine.swap_paths [OF refl refl, of a b] by simp
qed (simp_all add: structural_diff_paths sorted_filter [of id, simplified])

text \<open>
  Drift through null or arrays is lost: when every changed path is present on both sides and
  null or an array on one of them, logging the graded report leaves the violations table, and the
  whole database, as it was.
\<close>

theorem null_and_array_drift_not_logged:
  assumes "\<And>p. legacy_types a p \<noteq> legacy_types b p \<Longrightarrow>
    \<exists>t u. legacy_types a p = Some t \<and> legacy_types b p = Some u \<and> (t \<in> {''null'', ''array''} \<or> u \<in> {''null'', ''array''})"
  shows "log_drift_violations endpoint_id fp (legacy_drift a b) db = db"
proof -
  have none: "\<forall>d \<in> set ds. dr_severity d = None \<Longrightarrow> log_drift_violations endpoint_id fp ds db = db" for ds
    by (induction ds) auto
  show ?thesis
  proof (rule none, rule ballI)
    fix d assume "d \<in> set (legacy_drift a b)"
    note d = legacy_drift_item [OF this]
    then obtain t u where "dr_old d = Some t" "dr_new d = Some u" "t \<in> {''null'', ''array''} \<or> u \<in> {''null'', ''array''}"
      using assms [of "dr_path d"] by auto
    with d show "dr_severity d = None" by (auto simp: legacy_grade_def)
  qed
qed

theorem null_and_array_drift_not_logged_witness:
  "log_drift_violations ''e'' ''f''
     (legacy_drift (JObj [(''id'', JInt 1)]) (JObj [(''id'', JNull)])) (empty_db show_nat 0 sort_keys)
   = empty_db show_nat 0 sort_keys
   \<and> map dr_path (legacy_drift (JObj [(''id'', JInt 1)]) (JObj [(''id'', JNull)])) = [''id'']"
proof
  have t: "legacy_types (JObj [(''id'', JInt 1)]) p = (if p = ''id'' then Some ''int'' else None)"
    "legacy_types (JObj [(''id'', JNull)]) p = (if p = ''id'' then Some ''null'' else None)" for p
    by (simp_all add: legacy_types_def sort_items_def child_path_def py_str_def)
  show "log_drift_violations ''e'' ''f''
     (legacy_drift (JObj [(''id'', JInt 1)]) (JObj [(''id'', JNull)])) (empty_db show_nat 0 sort_keys)
   = empty_db show_nat 0 sort_keys"
    by (rule null_and_array_drift_not_logged)
       (auto simp: t split: if_splits)
  show "map dr_path (legacy_drift (JObj [(''id'', JInt 1)]) (JObj [(''id'', JNull)])) = [''id'']"
    by code_simp
qed

lemma register_payload_snapshot_ok:
  assumes "snapshot_tables_ok db" "inj (db_uuid db)"
    and "register_payload_snapshot service http_method route fp schema db = ((endpoint_id, inserted), db')"
  shows "snapshot_tables_ok db'"
proof -
  obtain db1 where 1: "legacy_ensure_endpoint (service, http_method, route) db = (endpoint_id, db1)"
    and 2: "register_snapshot endpoint_id fp schema db1 = (inserted, db')"
    using assms(3) by (auto simp: register_payload_snapshot_def Let_def split: prod.splits)
  from snapshot_tables_endpoint [OF assms(1,2) 1] assms(2) show ?thesis
    by (intro snapshot_tables_snapshot [OF _ _ _ 2]) simp_all
qed

text \<open>
  Registering a payload keeps the unique constraints and the foreign key of both tables, so the
  inserts cannot fail, and is idempotent: the same request again returns the same endpoint, reports
  nothing new and changes nothing.
\<close>

theorem register_payload_snapshot_keeps_keys:
  assumes "snapshot_tables_ok db" "inj (db_uuid db)"
    and "register_payload_snapshot service http_method route fp schema db = ((endpoint_id, inserted), db')"
  shows "snapshot_tables_ok db'
    \<and> register_payload_snapshot service http_method route fp schema db' = ((endpoint_id, False), db')
    \<and> (inserted \<longleftrightarrow> (case find_api_endpoint db (service, http_method, route) of None \<Rightarrow> True
           | Some i \<Rightarrow> find_snapshot db (i, fp) = None))"
proof (intro conjI)
  obtain db1 where 1: "legacy_ensure_endpoint (service, http_method, route) db = (endpoint_id, db1)"
    and 2: "register_snapshot endpoint_id fp schema db1 = (inserted, db')"
    using assms(3) by (auto simp: register_payload_snapshot_def Let_def split: prod.splits)
  from snapshot_tables_endpoint [OF assms(1,2) 1]
  have ok1: "snapshot_tables_ok db1" "inj (db_uuid db1)" "endpoint_id \<in> ae_id ` set (db_api_endpoints db1)"
    using assms(2) by simp_all
  show "snapshot_tables_ok db'" by (rule snapshot_tables_snapshot [OF ok1 2])
  have "find_api_endpoint db1 (service, http_method, route) = Some endpoint_id"
    by (rule legacy_endpoints.found [OF 1])
  moreover have "db_api_endpoints db' = db_api_endpoints db1"
    using 2 by (auto simp: register_snapshot_def split: if_splits)
  ultimately have f: "find_api_endpoint db' (service, http_method, route) = Some endpoint_id"
    by (simp add: find_api_endpoint_def)
  have "map_option (\<lambda>_. ()) (find_snapshot db' (endpoint_id, fp)) = Some ()"
    using legacy_snapshots.found [where schema = schema and k = "(endpoint_id, fp)" and db = db1] 2 by simp
  then have "find_snapshot db' (endpoint_id, fp) \<noteq> None" by auto
  then show "register_payload_snapshot service http_method route fp schema db' = ((endpoint_id, False), db')"
    using legacy_endpoints.hit [OF f] by (simp add: register_payload_snapshot_def register_snapshot_def)
  show "inserted \<longleftrightarrow> (case find_api_endpoint db (service, http_method, route) of None \<Rightarrow> True
           | Some i \<Rightarrow> find_snapshot db (i, fp) = None)"
  proof (cases "find_api_endpoint db (service, http_method, route)")
    case None
    have "issued db (sn_endpoint_id r)" if "r \<in> set (db_snapshots db)" for r
      using assms(1) that by (fastforce simp: snapshot_tables_ok_def list_all_iff)
    then have "\<forall>r \<in> set (db_snapshots db). sn_endpoint_id r \<noteq> endpoint_id"
    proof -
      have "endpoint_id = new_uuid db" using None 1 by simp
      then show ?thesis using new_uuid_fresh [OF assms(2)] \<open>\<And>r. r \<in> set (db_snapshots db) \<Longrightarrow> issued db (sn_endpoint_id r)\<close> by metis
    qed
    then have "find_snapshot db1 (endpoint_id, fp) = None"
      using None 1 by (auto simp: find_snapshot_def first_row_filter_None snapshot_key_def)
    with None 2 show ?thesis by (simp add: register_snapshot_def)
  next
    case (Some i)
    with 1 2 show ?thesis by (auto simp: register_snapshot_def split: if_splits)
  qed
qed

theorem register_payload_snapshot_keeps_keys_witness:
  "let (r, db') = register_payload_snapshot ''users'' ''GET'' ''/v1'' ''f1'' (JStr ''int'') (empty_db show_nat 7 sort_keys)
   in r = (''0'', True) \<and> snapshot_tables_ok db' \<and>
      register_payload_snapshot ''users'' ''GET'' ''/v1'' ''f1'' (JStr ''int'') db' = ((''0'', False), db')"
proof -
  let ?db = "empty_db show_nat 7 sort_keys"
  obtain i b db' where r: "register_payload_snapshot ''users'' ''GET'' ''/v1'' ''f1'' (JStr ''int'') ?db = ((i, b), db')"
    by (metis prod.collapse)
  then have ib: "i = ''0'' \<and> b"
    by (auto simp: register_payload_snapshot_def register_snapshot_def find_api_endpoint_def find_snapshot_def
        empty_db_def new_uuid_def show_nat_0)
  have "snapshot_tables_ok ?db" "inj (db_uuid ?db)"
    by (simp_all add: snapshot_tables_ok_def empty_db_def inj_show_nat)
  from register_payload_snapshot_keeps_keys [OF this r] ib r show ?thesis by simp
qed

text \<open>
  A route's advisory lock id exists and fits PostgreSQL's 64-bit lock key, whatever the digest,
  as long as the digest is written in hexadecimal.
\<close>

theorem route_lock_id_fits_bigint:
  assumes "\<forall>c \<in> set (sha route). hex_digit c \<noteq> None"
  shows "\<exists>n. route_lock_id sha route = Some n \<and> 0 \<le> n \<and> n < 2 ^ 60"
proof -
  have digit: "0 \<le> d \<and> d < 16" if "hex_digit c = Some d" for c d
    using that by (auto simp: hex_digit_def Let_def split: if_splits)
  have step: "\<exists>n. int_of_hex acc cs = Some n \<and> 0 \<le> n \<and> n < (acc + 1) * 16 ^ length cs"
    if "\<forall>c \<in> set cs. hex_digit c \<noteq> None" "0 \<le> acc" for cs acc
    using that
  proof (induction cs arbitrary: acc)
    case (Cons c cs)
    then obtain d where d: "hex_digit c = Some d" "0 \<le> d" "d < 16" using digit by fastforce
    from Cons.IH [of "16 * acc + d"] Cons.prems d obtain n
      where n: "int_of_hex (16 * acc + d) cs = Some n" "0 \<le> n" "n < (16 * acc + d + 1) * 16 ^ length cs"
      by auto
    have "(16 * acc + d + 1) * 16 ^ length cs \<le> (16 * (acc + 1)) * (16::int) ^ length cs"
      using d by (intro mult_right_mono) auto
    moreover have "(16 * (acc + 1)) * (16::int) ^ length cs = (acc + 1) * 16 ^ length (c # cs)"
      by simp
    ultimately have "n < (acc + 1) * 16 ^ length (c # cs)" using n(3) by linarith
    with n d show ?case by simp
  qed simp
  obtain n where n: "route_lock_id sha route = Some n" "0 \<le> n" "n < 16 ^ length (take 15 (sha route))"
    using step [of "take 15 (sha route)" 0] assms by (auto simp: route_lock_id_def dest: in_set_takeD)
  moreover have "(16::int) ^ length (take 15 (sha route)) \<le> 16 ^ 15"
    by (rule power_increasing) simp_all
  ultimately show ?thesis by simp
qed

theorem route_lock_id_fits_bigint_witness:
  "\<exists>n. route_lock_id (\<lambda>_. ''0123456789abcdef'') ''/v1/users'' = Some n \<and> 0 \<le> n \<and> n < 2 ^ 60"
  by (rule route_lock_id_fits_bigint) (simp add: hex_digit_def code_of_def)

end
