(* ===== verification/Registry.thy ===== *)
theory Registry
  imports Database
begin

text \<open>
  \<open>app/runtime/registry.py\<close>: the contract registry. An endpoint owns a chain of schema versions,
  one per fingerprint ever observed, linked to its predecessor, the newest one current. The
  abstract view of an endpoint is the list of its fingerprints in order of first observation
  (\<open>history\<close>), which \<open>upsert_schema_version\<close> extends at the end or leaves alone.
\<close>

section \<open>Definitions\<close>

text \<open>\<open>hash\<close> of a text is salted per interpreter process: a parameter.\<close>

definition lock_id :: "(string \<Rightarrow> int) \<Rightarrow> string \<Rightarrow> string \<Rightarrow> string \<Rightarrow> string \<Rightarrow> int" where
  "lock_id hash namespace service_name http_method route =
     (let key = namespace @ '':'' @ service_name @ '':'' @ http_method @ '':'' @ route
      in \<bar>hash key\<bar> mod 2147483647)"

type_synonym endpoint_key = "string \<times> string \<times> string \<times> string"

definition has_key :: "endpoint_key \<Rightarrow> endpoint_row \<Rightarrow> bool" where
  "has_key k r \<longleftrightarrow> (er_namespace r, er_service r, er_method r, er_route r) = k"

definition select_endpoint :: "database \<Rightarrow> endpoint_key \<Rightarrow> (uuid \<times> string) option" where
  "select_endpoint db k = map_option (\<lambda>r. (er_id r, er_name r)) (first_row (filter (has_key k) (db_endpoints db)))"

text \<open>\<open>INSERT ... ON CONFLICT (namespace, service_name, http_method, route_path) DO NOTHING\<close>.\<close>

fun insert_endpoint :: "endpoint_key \<Rightarrow> string \<Rightarrow> database \<Rightarrow> database" where
  "insert_endpoint (namespace, service_name, http_method, route_path) endpoint_name db =
     (if select_endpoint db (namespace, service_name, http_method, route_path) \<noteq> None then db
      else (used_uuid db)\<lparr>db_endpoints := db_endpoints db @
        [\<lparr>er_id = new_uuid db, er_namespace = namespace, er_service = service_name,
          er_method = http_method, er_route = route_path, er_name = endpoint_name\<rparr>]\<rparr>)"

text \<open>\<open>created.one()\<close> always finds the row: the insert has just seen to it.\<close>

fun ensure_endpoint :: "endpoint_key \<Rightarrow> database \<Rightarrow> (uuid \<times> string) \<times> database" where
  "ensure_endpoint (namespace, service_name, http_method, route_path) db =
     (let k = (namespace, service_name, http_method, route_path);
          endpoint_name = service_name @ '' '' @ http_method @ '' '' @ route_path in
      case select_endpoint db k of
        Some row \<Rightarrow> (row, db)
      | None \<Rightarrow>
          let db1 = insert_endpoint k endpoint_name db in (the (select_endpoint db1 k), db1))"

definition get_current_schema :: "database \<Rightarrow> uuid \<Rightarrow> SchemaVersionRecord option" where
  "get_current_schema db endpoint_id =
     first_row (order_desc sv_version
       (filter (\<lambda>r. sv_endpoint_id r = endpoint_id \<and> sv_is_current r) (db_versions db)))"

definition find_version :: "database \<Rightarrow> uuid \<Rightarrow> string \<Rightarrow> SchemaVersionRecord option" where
  "find_version db endpoint_id fp =
     first_row (filter (\<lambda>r. sv_endpoint_id r = endpoint_id \<and> sv_fingerprint r = fp) (db_versions db))"

text \<open>Lines 193-235: demote the current version, insert the next one.\<close>

definition insert_version ::
  "uuid \<Rightarrow> string \<Rightarrow> json \<Rightarrow> string \<Rightarrow> SchemaVersionRecord option \<Rightarrow> database \<Rightarrow> SchemaVersionRecord \<times> database" where
  "insert_version endpoint_id fp canonical_schema classification current db =
     (let next_version = (case current of None \<Rightarrow> 1 | Some c \<Rightarrow> sv_version c + 1);
          previous_id = map_option sv_id current;
          db1 = (if current = None then db
                 else db\<lparr>db_versions := update_rows (\<lambda>r. sv_endpoint_id r = endpoint_id)
                            (\<lambda>r. r\<lparr>sv_is_current := False\<rparr>) (db_versions db)\<rparr>);
          row = \<lparr>sv_id = new_uuid db1, sv_endpoint_id = endpoint_id, sv_version = next_version,
                 sv_fingerprint = fp, sv_canonical_schema = db_jsonb db1 canonical_schema,
                 sv_classification = classification, sv_previous_version_id = previous_id,
                 sv_is_current = True\<rparr>
      in (row\<lparr>sv_canonical_schema := canonical_schema\<rparr>,
          (used_uuid db1)\<lparr>db_versions := db_versions db1 @ [row]\<rparr>))"

text \<open>Lines 167-235, what happens once the advisory lock is held.\<close>

definition upsert_locked ::
  "uuid \<Rightarrow> string \<Rightarrow> json \<Rightarrow> string \<Rightarrow> database \<Rightarrow> (SchemaVersionRecord \<times> bool) \<times> database" where
  "upsert_locked endpoint_id fp canonical_schema classification db =
     (let current = get_current_schema db endpoint_id in
      case find_version db endpoint_id fp of
        Some found \<Rightarrow> ((found, False), db)
      | None \<Rightarrow>
          let (r, db1) = insert_version endpoint_id fp canonical_schema classification current db
          in ((r, True), db1))"

definition upsert_schema_version ::
  "endpoint_key \<Rightarrow> string \<Rightarrow> json \<Rightarrow> string \<Rightarrow> database
     \<Rightarrow> (uuid \<times> string \<times> SchemaVersionRecord \<times> bool) \<times> database" where
  "upsert_schema_version k fp canonical_schema classification db =
     (let ((endpoint_id, endpoint_name), db1) = ensure_endpoint k db in
      case find_version db1 endpoint_id fp of
        Some fast_row \<Rightarrow> ((endpoint_id, endpoint_name, fast_row, False), db1)
      | None \<Rightarrow>
          let ((r, inserted), db2) = upsert_locked endpoint_id fp canonical_schema classification db1
          in ((endpoint_id, endpoint_name, r, inserted), db2))"

section \<open>Endpoints are created once\<close>

lemma select_inserted:
  "select_endpoint db (n, s, m, p) = None \<Longrightarrow>
     select_endpoint (insert_endpoint (n, s, m, p) name db) (n, s, m, p) = Some (new_uuid db, name)"
  by (simp add: select_endpoint_def first_row_append has_key_def)

lemma select_frame:
  "l \<noteq> k \<Longrightarrow> select_endpoint (insert_endpoint k name db) l = select_endpoint db l"
  by (cases k) (auto simp: select_endpoint_def first_row_append has_key_def split: option.splits)

interpretation endpoints: get_or_create select_endpoint ensure_endpoint
proof unfold_locales
  fix db k i assume "select_endpoint db k = Some i"
  then show "ensure_endpoint k db = (i, db)" by (cases k) simp
next
  fix db db' k i assume "select_endpoint db k = None" "ensure_endpoint k db = (i, db')"
  then show "select_endpoint db' k = Some i"
    by (cases k) (auto simp: Let_def select_inserted simp del: insert_endpoint.simps)
next
  fix db db' k l i assume "ensure_endpoint k db = (i, db')" "l \<noteq> k"
  then show "select_endpoint db' l = select_endpoint db l"
    by (cases k) (auto simp: Let_def select_frame simp del: insert_endpoint.simps split: option.splits)
qed

section \<open>Version chains\<close>

definition versions_of :: "database \<Rightarrow> uuid \<Rightarrow> SchemaVersionRecord list" where
  "versions_of db e = filter (\<lambda>r. sv_endpoint_id r = e) (db_versions db)"

text \<open>Consecutive versions from \<open>v\<close>, each linked to the one before, the last one current.\<close>

fun chain :: "uuid option \<Rightarrow> int \<Rightarrow> SchemaVersionRecord list \<Rightarrow> bool" where
  "chain prev v [] = True"
| "chain prev v (r # rs) =
     (sv_version r = v \<and> sv_previous_version_id r = prev \<and> sv_is_current r = (rs = []) \<and>
      chain (Some (sv_id r)) (v + 1) rs)"

definition chain_ok :: "SchemaVersionRecord list \<Rightarrow> bool" where
  "chain_ok rs \<longleftrightarrow> chain None 1 rs \<and> distinct (map sv_fingerprint rs)"

definition registry_ok :: "database \<Rightarrow> bool" where
  "registry_ok db \<longleftrightarrow>
     distinct (map (\<lambda>r. (er_namespace r, er_service r, er_method r, er_route r)) (db_endpoints db)) \<and>
     distinct (map er_id (db_endpoints db)) \<and> distinct (map sv_id (db_versions db)) \<and>
     list_all (\<lambda>r. issued db (er_id r)) (db_endpoints db) \<and>
     list_all (\<lambda>r. issued db (sv_id r) \<and> sv_endpoint_id r \<in> er_id ` set (db_endpoints db)) (db_versions db) \<and>
     (\<forall>e. chain_ok (versions_of db e))"

definition history :: "database \<Rightarrow> uuid \<Rightarrow> string list" where
  "history db e = map sv_fingerprint (versions_of db e)"

text \<open>The specification of an upsert on histories.\<close>

definition observe :: "string \<Rightarrow> string list \<Rightarrow> string list" where
  "observe fp h = (if fp \<in> set h then h else h @ [fp])"

lemma chain_current:
  "chain prev v rs \<Longrightarrow> filter sv_is_current rs = (if rs = [] then [] else [last rs])"
  by (induction prev v rs rule: chain.induct) auto

lemma chain_last: "chain prev v rs \<Longrightarrow> rs \<noteq> [] \<Longrightarrow> sv_version (last rs) = v + int (length rs) - 1"
  by (induction prev v rs rule: chain.induct) auto

lemma chain_snoc:
  assumes "chain prev v rs" "sv_version r = v + int (length rs)" "sv_is_current r"
    and "sv_previous_version_id r = (if rs = [] then prev else Some (sv_id (last rs)))"
  shows "chain prev v (map (\<lambda>q. q\<lparr>sv_is_current := False\<rparr>) rs @ [r])"
  using assms by (induction prev v rs rule: chain.induct) auto

lemma chain_versions: "chain prev v rs \<Longrightarrow> map sv_version rs = map (\<lambda>i. v + int i) [0..<length rs]"
proof (induction prev v rs rule: chain.induct)
  case (2 prev v r rs)
  then show ?case
    by (simp add: upt_conv_Cons map_Suc_upt [symmetric] algebra_simps del: upt_Suc)
qed simp

lemma current_of_chain:
  assumes "chain_ok (versions_of db e)"
  shows "get_current_schema db e = (if versions_of db e = [] then None else Some (last (versions_of db e)))"
proof -
  have "filter (\<lambda>r. sv_endpoint_id r = e \<and> sv_is_current r) (db_versions db) = filter sv_is_current (versions_of db e)"
    by (simp add: versions_of_def conj_commute)
  also have "\<dots> = (if versions_of db e = [] then [] else [last (versions_of db e)])"
    using assms by (intro chain_current [of None 1]) (simp add: chain_ok_def)
  finally show ?thesis by (simp add: get_current_schema_def order_desc_def)
qed

lemma find_version_None: "find_version db e fp = None \<longleftrightarrow> fp \<notin> set (history db e)"
  by (auto simp: find_version_def first_row_filter_None history_def versions_of_def)

lemma find_versionD:
  "find_version db e fp = Some r \<Longrightarrow> r \<in> set (versions_of db e) \<and> sv_fingerprint r = fp"
  by (auto simp: find_version_def versions_of_def dest: first_row_filter_SomeD)

lemma versions_of_insert_endpoint [simp]:
  "db_versions (insert_endpoint k name db) = db_versions db" "db_uuid (insert_endpoint k name db) = db_uuid db"
  by (cases k, simp)+

lemma versions_of_insert_version:
  assumes "chain_ok (versions_of db e)" "current = get_current_schema db e"
    and "insert_version e fp schema cls current db = (r, db')"
  shows "\<exists>row. versions_of db' e = map (\<lambda>q. q\<lparr>sv_is_current := False\<rparr>) (versions_of db e) @ [row]
      \<and> row = r\<lparr>sv_canonical_schema := db_jsonb db schema\<rparr>"
    and "e' \<noteq> e \<Longrightarrow> versions_of db' e' = versions_of db e'"
proof -
  have upd: "versions_of (db\<lparr>db_versions := update_rows (\<lambda>r. sv_endpoint_id r = e)
        (\<lambda>r. r\<lparr>sv_is_current := False\<rparr>) (db_versions db)\<rparr>) x
      = (if x = e then map (\<lambda>q. q\<lparr>sv_is_current := False\<rparr>) (versions_of db e) else versions_of db x)" for x
  proof -
    have "filter (\<lambda>r. sv_endpoint_id r = x) (update_rows (\<lambda>r. sv_endpoint_id r = e)
        (\<lambda>r. r\<lparr>sv_is_current := False\<rparr>) rs)
      = (if x = e then map (\<lambda>q. q\<lparr>sv_is_current := False\<rparr>) (filter (\<lambda>r. sv_endpoint_id r = e) rs)
         else filter (\<lambda>r. sv_endpoint_id r = x) rs)" for rs
      by (induction rs) (auto simp: update_rows_def)
    from this [of "db_versions db"] show ?thesis by (auto simp: versions_of_def)
  qed
  show "\<exists>row. versions_of db' e = map (\<lambda>q. q\<lparr>sv_is_current := False\<rparr>) (versions_of db e) @ [row]
      \<and> row = r\<lparr>sv_canonical_schema := db_jsonb db schema\<rparr>"
  proof (cases "current = None")
    case True
    then have "versions_of db e = []" using assms(1,2) current_of_chain by (auto split: if_splits)
    with True assms(3) show ?thesis by (auto simp: insert_version_def Let_def versions_of_def)
  next
    case False
    with assms(3) upd [of e] show ?thesis
      by (auto simp: insert_version_def Let_def versions_of_def)
  qed
  show "versions_of db' e' = versions_of db e'" if "e' \<noteq> e"
    using assms(3) upd [of e'] that by (auto simp: insert_version_def Let_def versions_of_def)
qed

lemma insert_version_row:
  assumes "chain_ok (versions_of db e)" "current = get_current_schema db e"
    and "insert_version e fp schema cls current db = (r, db')"
  shows "sv_version r = 1 + int (length (versions_of db e)) \<and> sv_fingerprint r = fp \<and> sv_is_current r
    \<and> sv_classification r = cls \<and> sv_canonical_schema r = schema \<and> sv_endpoint_id r = e
    \<and> sv_id r = new_uuid db
    \<and> sv_previous_version_id r = (if versions_of db e = [] then None else Some (sv_id (last (versions_of db e))))"
proof -
  have "versions_of db e \<noteq> [] \<Longrightarrow> sv_version (last (versions_of db e)) = int (length (versions_of db e))"
    using assms(1) chain_last [of None 1 "versions_of db e"] by (simp add: chain_ok_def)
  then show ?thesis
    using assms(2,3) current_of_chain [OF assms(1)]
    by (auto simp: insert_version_def Let_def new_uuid_def split: if_splits)
qed

lemma insert_version_rows:
  assumes "insert_version e fp schema cls current db = (r, db')"
  shows "map sv_id (db_versions db') = map sv_id (db_versions db) @ [new_uuid db]"
    and "map sv_endpoint_id (db_versions db') = map sv_endpoint_id (db_versions db) @ [e]"
    and "db_endpoints db' = db_endpoints db" and "db_uuid db' = db_uuid db"
    and "issued db' = (\<lambda>i. issued db i \<or> i = new_uuid db)"
  using assms
  by (auto simp: insert_version_def Let_def sql_simps new_uuid_def fun_eq_iff issued_def used_uuid_def
      less_Suc_eq split: if_splits)

lemma chain_ok_insert:
  assumes "chain_ok (versions_of db e)" "current = get_current_schema db e" "find_version db e fp = None"
    and "insert_version e fp schema cls current db = (r, db')"
  shows "chain_ok (versions_of db' e) \<and> history db' e = history db e @ [fp]"
proof -
  from versions_of_insert_version(1) [OF assms(1,2,4)] obtain row
    where v: "versions_of db' e = map (\<lambda>q. q\<lparr>sv_is_current := False\<rparr>) (versions_of db e) @ [row]"
      and row: "row = r\<lparr>sv_canonical_schema := db_jsonb db schema\<rparr>" by blast
  note r = insert_version_row [OF assms(1,2,4)]
  have h: "history db' e = history db e @ [fp]"
    by (simp add: history_def v row r comp_def)
  have "chain None 1 (versions_of db' e)"
    unfolding v by (rule chain_snoc) (use assms(1) row r in \<open>auto simp: chain_ok_def\<close>)
  moreover have "distinct (history db' e)"
    using assms(1,3) by (simp add: h find_version_None) (simp add: chain_ok_def history_def)
  ultimately show ?thesis using h by (simp add: chain_ok_def history_def)
qed

lemma registry_ok_insert:
  assumes "registry_ok db" "inj (db_uuid db)" "e \<in> er_id ` set (db_endpoints db)" "find_version db e fp = None"
    and "insert_version e fp schema cls (get_current_schema db e) db = (r, db')"
  shows "registry_ok db'"
proof -
  note rows = insert_version_rows [OF assms(5)]
  have ok: "chain_ok (versions_of db x)" for x using assms(1) by (simp add: registry_ok_def)
  have chains: "chain_ok (versions_of db' x)" for x
    using chain_ok_insert [OF ok refl assms(4,5)] versions_of_insert_version(2) [OF ok refl assms(5), of x] ok [of x]
    by (cases "x = e") simp_all
  have ids: "list_all (\<lambda>r. issued db' (sv_id r)) (db_versions db') =
      list_all (issued db') (map sv_id (db_versions db'))"
    "list_all (\<lambda>r. sv_endpoint_id r \<in> E) (db_versions db') =
      list_all (\<lambda>e. e \<in> E) (map sv_endpoint_id (db_versions db'))" for E
    by (simp_all add: list.pred_map comp_def)
  have "list_all (\<lambda>r. issued db' (sv_id r)) (db_versions db')"
    using assms(1) by (subst ids(1)) (auto simp: rows(1) rows(5) registry_ok_def list_all_iff)
  moreover have "list_all (\<lambda>r. sv_endpoint_id r \<in> er_id ` set (db_endpoints db')) (db_versions db')"
    unfolding ids(2) rows(2,3) using assms(1,3) by (auto simp: registry_ok_def list_all_iff)
  moreover have "distinct (map sv_id (db_versions db'))"
    unfolding rows using assms(1) new_uuid_fresh [OF assms(2)] by (auto simp: registry_ok_def list_all_iff)
  moreover have "list_all (\<lambda>r. issued db' (er_id r)) (db_endpoints db')"
    unfolding rows using assms(1) by (auto simp: registry_ok_def list_all_iff)
  ultimately show ?thesis
    using assms(1) chains by (auto simp: registry_ok_def rows(3) list_all_iff)
qed

lemma registry_ok_endpoint:
  assumes "registry_ok db" "inj (db_uuid db)" "ensure_endpoint k db = ((e, name), db')"
  shows "registry_ok db'" and "e \<in> er_id ` set (db_endpoints db')"
    and "db_uuid db' = db_uuid db" and "db_versions db' = db_versions db"
    and "select_endpoint db k = None \<Longrightarrow> e = new_uuid db"
proof -
  obtain n s m p where k: "k = (n, s, m, p)" by (cases k)
  show e: "e \<in> er_id ` set (db_endpoints db')"
    using endpoints.found [OF assms(3)] by (auto simp: select_endpoint_def dest: first_row_filter_SomeD)
  show "db_uuid db' = db_uuid db" "db_versions db' = db_versions db"
    using assms(3) by (auto simp: k Let_def simp del: insert_endpoint.simps split: option.splits)
  show "select_endpoint db k = None \<Longrightarrow> e = new_uuid db"
    using assms(3) by (auto simp: k Let_def select_inserted simp del: insert_endpoint.simps)
  show "registry_ok db'"
  proof (cases "select_endpoint db k")
    case (Some i)
    with assms(1,3) show ?thesis by (simp add: k)
  next
    case None
    then have key: "k \<notin> (\<lambda>r. (er_namespace r, er_service r, er_method r, er_route r)) ` set (db_endpoints db)"
      by (auto simp: select_endpoint_def first_row_filter_None has_key_def)
    have fresh: "new_uuid db \<notin> er_id ` set (db_endpoints db)"
      using assms(1) new_uuid_fresh [OF assms(2)] by (auto simp: registry_ok_def list_all_iff)
    have db': "db' = insert_endpoint k (s @ '' '' @ m @ '' '' @ p) db"
      using assms(3) None by (auto simp: k Let_def simp del: insert_endpoint.simps)
    then have "versions_of db' = versions_of db" by (simp add: versions_of_def fun_eq_iff)
    with assms(1) key fresh None show ?thesis
      by (auto simp: registry_ok_def db' k list_all_iff issued_used_uuid)
  qed
qed

section \<open>Properties\<close>

lemma upsert_refines_observe_step:
  assumes "registry_ok db" "inj (db_uuid db)"
    and "upsert_schema_version k fp schema cls db = ((e, name, r, inserted), db')"
  shows "registry_ok db' \<and> select_endpoint db' k = Some (e, name) \<and>
    history db' e = observe fp (history db e) \<and> (\<forall>x. x \<noteq> e \<longrightarrow> history db' x = history db x) \<and>
    (inserted \<longleftrightarrow> fp \<notin> set (history db e)) \<and>
    sv_fingerprint r = fp \<and> history db' e ! nat (sv_version r - 1) = fp"
proof -
  obtain db1 where en: "ensure_endpoint k db = ((e, name), db1)"
    using assms(3) by (auto simp: upsert_schema_version_def Let_def split: prod.splits option.splits)
  note 1 = registry_ok_endpoint [OF assms(1,2) en]
  have h1: "history db1 x = history db x" for x by (simp add: history_def versions_of_def 1(4))
  have ok1: "chain_ok (versions_of db1 x)" for x using 1(1) by (simp add: registry_ok_def)
  show ?thesis
  proof (cases "find_version db1 e fp")
    case (Some q)
    then have eq: "r = q" "\<not> inserted" "db' = db1"
      using assms(3) en by (auto simp: upsert_schema_version_def)
    from find_versionD [OF Some] obtain i where i: "i < length (versions_of db1 e)" "q = versions_of db1 e ! i"
      and q: "sv_fingerprint q = fp" by (metis in_set_conv_nth)
    then have "sv_version q = 1 + int i"
      using chain_versions [of None 1 "versions_of db1 e"] ok1 [of e] nth_map [of i "versions_of db1 e" sv_version]
      by (simp add: chain_ok_def)
    with i q have "history db1 e ! nat (sv_version q - 1) = fp" by (simp add: history_def)
    moreover have "fp \<in> set (history db e)" using Some find_version_None [of db1 e fp] h1 by simp
    ultimately show ?thesis using eq q 1(1) h1 endpoints.found [OF en] by (simp add: observe_def)
  next
    case None
    then obtain ins where ins: "insert_version e fp schema cls (get_current_schema db1 e) db1 = (r, db')" "inserted"
      using assms(3) en by (auto simp: upsert_schema_version_def upsert_locked_def Let_def split: prod.splits)
    have inj1: "inj (db_uuid db1)" using assms(2) 1(3) by simp
    note row = insert_version_row [OF ok1 refl ins(1)]
    from chain_ok_insert [OF ok1 refl None ins(1)] have h: "history db' e = history db e @ [fp]" by (simp add: h1)
    have "db_endpoints db' = db_endpoints db1" by (rule insert_version_rows(3) [OF ins(1)])
    then have "select_endpoint db' k = Some (e, name)" using endpoints.found [OF en] by (simp add: select_endpoint_def)
    moreover have "history db' x = history db x" if "x \<noteq> e" for x
      using versions_of_insert_version(2) [OF ok1 refl ins(1) that] h1 [of x] by (simp add: history_def)
    moreover have "registry_ok db'" by (rule registry_ok_insert [OF 1(1) inj1 1(2) None ins(1)])
    moreover have "fp \<notin> set (history db e)" using None find_version_None [of db1 e fp] h1 by simp
    moreover have "length (versions_of db1 e) = length (history db e)" using h1 [of e] by (metis history_def length_map)
    ultimately show ?thesis using row h ins(2) by (simp add: observe_def nth_append)
  qed
qed

text \<open>
  C2. Every observation keeps the registry well formed (unique keys and ids, foreign keys, and per
  endpoint consecutive versions from 1, each linked to the one before, distinct fingerprints, the
  newest version alone current), and refines the abstract step: the observed endpoint's history is
  extended by the fingerprint unless it is known, every other history stays.
\<close>

theorem upsert_refines_observe:
  assumes "registry_ok db" "inj (db_uuid db)"
    and "upsert_schema_version k fp schema cls db = ((e, name, r, inserted), db')"
  shows "registry_ok db' \<and> select_endpoint db' k = Some (e, name) \<and>
    history db' e = observe fp (history db e) \<and> (\<forall>x. x \<noteq> e \<longrightarrow> history db' x = history db x) \<and>
    (inserted \<longleftrightarrow> fp \<notin> set (history db e)) \<and>
    sv_fingerprint r = fp \<and> history db' e ! nat (sv_version r - 1) = fp"
  by (rule upsert_refines_observe_step [OF assms])

definition example_db :: database where
  "example_db = empty_db show_nat 0 sort_keys"

abbreviation example_key :: endpoint_key where
  "example_key \<equiv> (''default'', ''users'', ''GET'', ''/v1/users'')"

definition example_run :: "string list \<Rightarrow> database" where
  "example_run fps = fold (\<lambda>fp db. snd (upsert_schema_version example_key fp (JObj []) ''SAFE'' db)) fps example_db"

lemma registry_ok_empty: "registry_ok (empty_db uuids now jsonb)"
  by (simp add: registry_ok_def empty_db_def versions_of_def chain_ok_def)

lemma upsert_uuid: "db_uuid (snd (upsert_schema_version k fp schema cls db)) = db_uuid db"
proof -
  obtain e name db1 where en: "ensure_endpoint k db = ((e, name), db1)" by (metis prod.collapse)
  have "db_uuid db1 = db_uuid db"
    using en by (cases k) (auto simp: Let_def simp del: insert_endpoint.simps split: option.splits)
  with en show ?thesis
    by (auto simp: upsert_schema_version_def upsert_locked_def insert_version_def Let_def
        split: option.splits)
qed

lemma example_run_ok: "registry_ok (example_run fps) \<and> db_uuid (example_run fps) = show_nat"
proof -
  have "registry_ok db \<and> db_uuid db = show_nat \<Longrightarrow>
      registry_ok (fold (\<lambda>fp db. snd (upsert_schema_version example_key fp (JObj []) ''SAFE'' db)) fps db)
      \<and> db_uuid (fold (\<lambda>fp db. snd (upsert_schema_version example_key fp (JObj []) ''SAFE'' db)) fps db) = show_nat"
    for db
  proof (induction fps arbitrary: db)
    case (Cons fp fps)
    obtain e name r ins db'
      where u: "upsert_schema_version example_key fp (JObj []) ''SAFE'' db = ((e, name, r, ins), db')"
      by (metis prod.collapse)
    from upsert_refines_observe_step [OF _ _ u] Cons.prems inj_show_nat upsert_uuid [of example_key fp "JObj []" "''SAFE''" db] u
    show ?case by (auto intro!: Cons.IH)
  qed simp
  from this [of example_db] show ?thesis
    unfolding example_run_def by (simp add: example_db_def registry_ok_empty) (simp add: empty_db_def)
qed

theorem upsert_refines_observe_witness:
  "history (example_run [''f1'', ''f2'', ''f1'']) ''0'' = [''f1'', ''f2'']"
proof -
  obtain e name r ins db'
    where u: "upsert_schema_version example_key ''f1'' (JObj []) ''SAFE'' (example_run [''f1'', ''f2'']) = ((e, name, r, ins), db')"
    by (metis prod.collapse)
  then have db': "db' = example_run [''f1'', ''f2'', ''f1'']" by (simp add: example_run_def)
  have "fst (fst (upsert_schema_version example_key ''f1'' (JObj []) ''SAFE'' (example_run [''f1'', ''f2'']))) = ''0''"
    by code_simp
  then have e: "e = ''0''" using u by simp
  have h: "history (example_run [''f1'', ''f2'']) ''0'' = [''f1'', ''f2'']" by code_simp
  show ?thesis
    using upsert_refines_observe [OF _ _ u] example_run_ok [of "[''f1'', ''f2'']"] inj_show_nat
    by (simp add: e h db' observe_def)
qed

text \<open>
  A contract that comes back is not made current again: observing a known fingerprint other
  than the newest answers with its old version and \<open>inserted = False\<close>, changes nothing, and leaves
  a different fingerprint current. The caller, which diffs only after an insert, then sees no drift.
\<close>

theorem returning_contract_stays_superseded:
  assumes "registry_ok db" "select_endpoint db k = Some (e, name)"
    and "fp \<in> set (history db e)" "fp \<noteq> last (history db e)"
  shows "\<exists>r. upsert_schema_version k fp schema cls db = ((e, name, r, False), db) \<and> sv_fingerprint r = fp \<and>
    (\<exists>c. get_current_schema db e = Some c \<and> sv_fingerprint c = last (history db e) \<and>
      sv_version r < sv_version c \<and> \<not> sv_is_current r)"
proof -
  let ?vs = "versions_of db e"
  have ok: "chain_ok ?vs" using assms(1) by (simp add: registry_ok_def)
  obtain r where f: "find_version db e fp = Some r"
    using find_version_None [of db e fp] assms(3) by (cases "find_version db e fp") auto
  from find_versionD [OF f] have r: "r \<in> set ?vs" "sv_fingerprint r = fp" by auto
  then have ne: "?vs \<noteq> []" by auto
  then have last: "last (history db e) = sv_fingerprint (last ?vs)" by (simp add: history_def last_map)
  have cur: "get_current_schema db e = Some (last ?vs)" using current_of_chain [OF ok] ne by simp
  have "r \<noteq> last ?vs" using r(2) last assms(4) by auto
  with r(1) have "r \<in> set (butlast ?vs)" using ne by (metis append_butlast_last_id in_set_butlastD rotate1.simps(2) set_ConsD set_rotate1)
  then obtain i where i: "i < length ?vs - 1" "r = ?vs ! i" by (metis in_set_conv_nth length_butlast nth_butlast)
  have v: "map sv_version ?vs = map (\<lambda>i. 1 + int i) [0..<length ?vs]"
    using ok chain_versions [of None 1 ?vs] by (simp add: chain_ok_def)
  have "sv_version r = 1 + int i" using arg_cong [OF v, of "\<lambda>l. l ! i"] i by simp
  moreover have "sv_version (last ?vs) = int (length ?vs)"
    using ok ne chain_last [of None 1 ?vs] by (simp add: chain_ok_def)
  moreover have "\<not> sv_is_current r"
  proof
    assume "sv_is_current r"
    with r(1) have "r \<in> set (filter sv_is_current ?vs)" by simp
    moreover have "filter sv_is_current ?vs = [last ?vs]"
      using ok ne chain_current [of None 1 ?vs] by (simp add: chain_ok_def)
    ultimately show False using \<open>r \<noteq> last ?vs\<close> by simp
  qed
  ultimately show ?thesis
    using i cur last r(2) f endpoints.hit [OF assms(2)] by (simp add: upsert_schema_version_def)
qed

theorem returning_contract_stays_superseded_witness:
  "\<exists>r. upsert_schema_version example_key ''f1'' (JObj []) ''SAFE'' (example_run [''f1'', ''f2''])
         = ((''0'', ''users GET /v1/users'', r, False), example_run [''f1'', ''f2'']) \<and> sv_fingerprint r = ''f1''"
proof -
  have h: "history (example_run [''f1'', ''f2'']) ''0'' = [''f1'', ''f2'']" by code_simp
  have s: "select_endpoint (example_run [''f1'', ''f2'']) example_key = Some (''0'', ''users GET /v1/users'')"
    by code_simp
  show ?thesis
    using returning_contract_stays_superseded [OF conjunct1 [OF example_run_ok] s, of "''f1''"] by (auto simp: h)
qed

end
