(* ===== verification/Upsert_Race.thy ===== *)
theory Upsert_Race
  imports Registry Transitions
begin

text \<open>
  Concurrent \<open>upsert_schema_version\<close> of one existing endpoint: server processes interleave at the
  statements of \<open>app/runtime/registry.py\<close> 141-235 that touch shared state. Each process has its
  own hash salt, as CPython gives it one, and so computes its own advisory lock id; the database
  grants a lock id to one transaction at a time, shows committed rows only (READ COMMITTED), and
  rejects a commit that breaks a unique constraint. With one lock id for all no insert is ever
  rejected; with two, a reachable interleaving loses a request.
\<close>

section \<open>Processes and steps\<close>

datatype phase =
    Start                                  \<comment> \<open>before the fast lookup\<close>
  | Waiting                                \<comment> \<open>missed, asks for the advisory lock\<close>
  | Holding                                \<comment> \<open>holds the lock\<close>
  | Chosen "SchemaVersionRecord option"    \<comment> \<open>has read the current version, about to insert\<close>
  | Done bool                              \<comment> \<open>answered; was a version inserted?\<close>
  | Failed                                 \<comment> \<open>IntegrityError\<close>

record proc =
  pr_hash :: "string \<Rightarrow> int"
  pr_fp :: string
  pr_schema :: json
  pr_phase :: phase

record world =
  wd_db :: database
  wd_locks :: "(int \<times> nat) list"   \<comment> \<open>lock id and holder\<close>
  wd_procs :: "proc list"

text \<open>The endpoint all of them observe: its lock key and its id.\<close>

type_synonym target = "(string \<times> string \<times> string \<times> string) \<times> uuid"

fun proc_lock :: "target \<Rightarrow> proc \<Rightarrow> int" where
  "proc_lock ((namespace, service_name, http_method, route), e) p =
     lock_id (pr_hash p) namespace service_name http_method route"

text \<open>The unique constraints on (endpoint_id, version) and (endpoint_id, fingerprint).\<close>

definition violates :: "database \<Rightarrow> uuid \<Rightarrow> SchemaVersionRecord \<Rightarrow> bool" where
  "violates db e r = list_ex (\<lambda>q. sv_version q = sv_version r \<or> sv_fingerprint q = sv_fingerprint r) (versions_of db e)"

definition set_phase :: "nat \<Rightarrow> phase \<Rightarrow> world \<Rightarrow> world" where
  "set_phase i ph w = w\<lparr>wd_procs := (wd_procs w)[i := (wd_procs w ! i)\<lparr>pr_phase := ph\<rparr>]\<rparr>"

definition release :: "nat \<Rightarrow> world \<Rightarrow> world" where
  "release i w = w\<lparr>wd_locks := filter (\<lambda>(l, j). j \<noteq> i) (wd_locks w)\<rparr>"

inductive step :: "target \<Rightarrow> world \<Rightarrow> world \<Rightarrow> bool" for t where
  fast_hit: "i < length (wd_procs w) \<Longrightarrow> p = wd_procs w ! i \<Longrightarrow> pr_phase p = Start \<Longrightarrow>
     find_version (wd_db w) (snd t) (pr_fp p) \<noteq> None \<Longrightarrow> step t w (set_phase i (Done False) w)"
| fast_miss: "i < length (wd_procs w) \<Longrightarrow> p = wd_procs w ! i \<Longrightarrow> pr_phase p = Start \<Longrightarrow>
     find_version (wd_db w) (snd t) (pr_fp p) = None \<Longrightarrow> step t w (set_phase i Waiting w)"
| acquire: "i < length (wd_procs w) \<Longrightarrow> p = wd_procs w ! i \<Longrightarrow> pr_phase p = Waiting \<Longrightarrow>
     proc_lock t p \<notin> fst ` set (wd_locks w) \<Longrightarrow>
     step t w (set_phase i Holding (w\<lparr>wd_locks := (proc_lock t p, i) # wd_locks w\<rparr>))"
| recheck_hit: "i < length (wd_procs w) \<Longrightarrow> p = wd_procs w ! i \<Longrightarrow> pr_phase p = Holding \<Longrightarrow>
     find_version (wd_db w) (snd t) (pr_fp p) \<noteq> None \<Longrightarrow>
     step t w (release i (set_phase i (Done False) w))"
| choose: "i < length (wd_procs w) \<Longrightarrow> p = wd_procs w ! i \<Longrightarrow> pr_phase p = Holding \<Longrightarrow>
     find_version (wd_db w) (snd t) (pr_fp p) = None \<Longrightarrow>
     step t w (set_phase i (Chosen (get_current_schema (wd_db w) (snd t))) w)"
| commit: "i < length (wd_procs w) \<Longrightarrow> p = wd_procs w ! i \<Longrightarrow> pr_phase p = Chosen current \<Longrightarrow>
     insert_version (snd t) (pr_fp p) (pr_schema p) ''SAFE'' current (wd_db w) = (r, db') \<Longrightarrow>
     \<not> violates (wd_db w) (snd t) r \<Longrightarrow>
     step t w (release i (set_phase i (Done True) (w\<lparr>wd_db := db'\<rparr>)))"
| reject: "i < length (wd_procs w) \<Longrightarrow> p = wd_procs w ! i \<Longrightarrow> pr_phase p = Chosen current \<Longrightarrow>
     insert_version (snd t) (pr_fp p) (pr_schema p) ''SAFE'' current (wd_db w) = (r, db') \<Longrightarrow>
     violates (wd_db w) (snd t) r \<Longrightarrow>
     step t w (release i (set_phase i Failed w))"

inductive reachable :: "target \<Rightarrow> world \<Rightarrow> world \<Rightarrow> bool" for t w0 where
  init: "reachable t w0 w0"
| more: "reachable t w0 w \<Longrightarrow> step t w w' \<Longrightarrow> reachable t w0 w'"

inductive_simps reachable_refl: "reachable t w w"

interpretation upserting: transitions "step t" "reachable t" for t
  by unfold_locales (auto intro: reachable.intros elim: reachable.induct)

definition starting :: "target \<Rightarrow> world \<Rightarrow> bool" where
  "starting t w \<longleftrightarrow> registry_ok (wd_db w) \<and> inj (db_uuid (wd_db w)) \<and>
     snd t \<in> er_id ` set (db_endpoints (wd_db w)) \<and> wd_locks w = [] \<and>
     list_all (\<lambda>p. pr_phase p = Start) (wd_procs w)"

section \<open>With one lock id no insert is rejected\<close>

text \<open>
  Whoever is past the lock holds it, so there is one such process at most, and what it has read is
  still the current version.
\<close>

definition inside :: "phase \<Rightarrow> bool" where
  "inside ph = (case ph of Holding \<Rightarrow> True | Chosen _ \<Rightarrow> True | _ \<Rightarrow> False)"

definition proc_ok :: "target \<Rightarrow> int \<Rightarrow> world \<Rightarrow> nat \<Rightarrow> bool" where
  "proc_ok t l w i \<longleftrightarrow> proc_lock t (wd_procs w ! i) = l \<and>
     (case pr_phase (wd_procs w ! i) of
        Holding \<Rightarrow> wd_locks w = [(l, i)]
      | Chosen c \<Rightarrow> wd_locks w = [(l, i)] \<and> c = get_current_schema (wd_db w) (snd t) \<and>
          find_version (wd_db w) (snd t) (pr_fp (wd_procs w ! i)) = None
      | Failed \<Rightarrow> False
      | _ \<Rightarrow> True)"

definition db_ok :: "target \<Rightarrow> database \<Rightarrow> bool" where
  "db_ok t db \<longleftrightarrow> registry_ok db \<and> inj (db_uuid db) \<and> snd t \<in> er_id ` set (db_endpoints db)"

definition race_ok :: "target \<Rightarrow> int \<Rightarrow> world \<Rightarrow> bool" where
  "race_ok t l w \<longleftrightarrow> db_ok t (wd_db w) \<and> (\<forall>i < length (wd_procs w). proc_ok t l w i) \<and>
     fst ` set (wd_locks w) \<subseteq> {l}"

lemma set_phase_simps [simp]:
  "wd_db (set_phase i ph w) = wd_db w" "wd_locks (set_phase i ph w) = wd_locks w"
  "wd_procs (set_phase i ph w) = (wd_procs w)[i := (wd_procs w ! i)\<lparr>pr_phase := ph\<rparr>]"
  "wd_db (release i w) = wd_db w" "wd_procs (release i w) = wd_procs w"
  "wd_locks (release i w) = filter (\<lambda>(l, j). j \<noteq> i) (wd_locks w)"
  by (simp_all add: set_phase_def release_def)

lemma proc_lock_phase [simp]: "proc_lock t (p\<lparr>pr_phase := ph\<rparr>) = proc_lock t p"
  by (cases t; cases "fst t") auto

lemma not_violated:
  assumes "registry_ok db" "find_version db e fp = None"
    and "insert_version e fp schema cls (get_current_schema db e) db = (r, db')"
  shows "\<not> violates db e r"
proof -
  have ok: "chain_ok (versions_of db e)" using assms(1) by (simp add: registry_ok_def)
  note r = insert_version_row [OF ok refl assms(3)]
  have v: "map sv_version (versions_of db e) = map (\<lambda>i. 1 + int i) [0..<length (versions_of db e)]"
    using ok chain_versions [of None 1] by (simp add: chain_ok_def)
  have "sv_version q \<le> int (length (versions_of db e))" if "q \<in> set (versions_of db e)" for q
  proof -
    have "sv_version q \<in> set (map sv_version (versions_of db e))" using that by simp
    then show ?thesis unfolding v by auto
  qed
  moreover have "sv_fingerprint q \<noteq> fp" if "q \<in> set (versions_of db e)" for q
    using assms(2) that by (auto simp: find_version_None history_def)
  moreover have "sv_version r = 1 + int (length (versions_of db e))" "sv_fingerprint r = fp" using r by auto
  ultimately have "\<not> (sv_version q = sv_version r \<or> sv_fingerprint q = sv_fingerprint r)"
    if "q \<in> set (versions_of db e)" for q
  proof -
    have "sv_version q < sv_version r" using \<open>sv_version r = _\<close> \<open>\<And>q. q \<in> set _ \<Longrightarrow> sv_version q \<le> _\<close> [OF that] by simp
    moreover have "sv_fingerprint q \<noteq> fp" using that by (rule \<open>\<And>q. q \<in> set _ \<Longrightarrow> sv_fingerprint q \<noteq> fp\<close>)
    ultimately show ?thesis using \<open>sv_fingerprint r = fp\<close> by simp
  qed
  then show ?thesis by (auto simp: violates_def list_ex_iff)
qed

lemma proc_ok_inside: "proc_ok t l w i \<Longrightarrow> inside (pr_phase (wd_procs w ! i)) \<Longrightarrow> wd_locks w = [(l, i)]"
  by (cases "pr_phase (wd_procs w ! i)") (auto simp: proc_ok_def inside_def)

lemma proc_ok_outside:
  "\<not> inside (pr_phase (wd_procs w ! i)) \<Longrightarrow>
     proc_ok t l w i \<longleftrightarrow> proc_lock t (wd_procs w ! i) = l \<and> pr_phase (wd_procs w ! i) \<noteq> Failed"
  by (cases "pr_phase (wd_procs w ! i)") (auto simp: proc_ok_def inside_def)

lemma proc_ok_chosen:
  assumes "proc_ok t l w i" "pr_phase (wd_procs w ! i) = Chosen c"
  shows "wd_locks w = [(l, i)]" "c = get_current_schema (wd_db w) (snd t)"
    "find_version (wd_db w) (snd t) (pr_fp (wd_procs w ! i)) = None"
  using assms by (simp_all add: proc_ok_def)

text \<open>A step of process \<open>i\<close> that leaves shared state alone, and one taken when nobody else is inside.\<close>

lemma race_ok_private:
  assumes "race_ok t l w" "wd_db w' = wd_db w" "wd_locks w' = wd_locks w"
    and "wd_procs w' = (wd_procs w)[i := q]" "i < length (wd_procs w)" "proc_ok t l w' i"
  shows "race_ok t l w'"
proof -
  have "proc_ok t l w' j" if "j < length (wd_procs w)" for j
  proof (cases "j = i")
    case False
    then have "wd_procs w' ! j = wd_procs w ! j" by (simp add: assms(4))
    moreover have "proc_ok t l w j" using assms(1) that by (simp add: race_ok_def)
    ultimately show ?thesis unfolding proc_ok_def by (simp only: assms(2,3))
  qed (use assms(6) in simp)
  then show ?thesis using assms(1) by (simp add: race_ok_def assms(2,3,4))
qed

lemma race_ok_alone:
  assumes "race_ok t l w" "wd_procs w' = (wd_procs w)[i := q]" "i < length (wd_procs w)"
    and "db_ok t (wd_db w')" "fst ` set (wd_locks w') \<subseteq> {l}" "proc_ok t l w' i"
    and "\<And>j. j < length (wd_procs w) \<Longrightarrow> j \<noteq> i \<Longrightarrow> \<not> inside (pr_phase (wd_procs w ! j))"
  shows "race_ok t l w'"
proof -
  have "proc_ok t l w' j" if j: "j < length (wd_procs w)" for j
  proof (cases "j = i")
    case False
    then have eq: "wd_procs w' ! j = wd_procs w ! j" by (simp add: assms(2))
    have "proc_ok t l w j" using assms(1) j by (simp add: race_ok_def)
    with proc_ok_outside [OF assms(7) [OF j False]] show ?thesis
      using assms(7) [OF j False] by (simp add: proc_ok_outside eq)
  qed (use assms(6) in simp)
  then show ?thesis using assms(2,4,5) by (simp add: race_ok_def)
qed

lemma alone:
  assumes "race_ok t l w" "wd_locks w = [(l, i)]" "j < length (wd_procs w)" "j \<noteq> i"
  shows "\<not> inside (pr_phase (wd_procs w ! j))"
proof
  assume "inside (pr_phase (wd_procs w ! j))"
  then have "wd_locks w = [(l, j)]" using assms(1,3) by (intro proc_ok_inside [of t]) (simp_all add: race_ok_def)
  with assms(2,4) show False by simp
qed

text \<open>What the process that has read the current version is about to insert.\<close>

lemma chosen_insert:
  assumes "race_ok t l w" "i < length (wd_procs w)" "p = wd_procs w ! i" "pr_phase p = Chosen current"
    and "insert_version (snd t) (pr_fp p) (pr_schema p) ''SAFE'' current (wd_db w) = (r, db')"
  shows "wd_locks w = [(l, i)]" "\<not> violates (wd_db w) (snd t) r" "db_ok t db'"
proof -
  have "proc_ok t l w i" using assms(1,2) by (simp add: race_ok_def)
  note chosen = proc_ok_chosen [OF this assms(4) [unfolded assms(3)]]
  have ins: "insert_version (snd t) (pr_fp (wd_procs w ! i)) (pr_schema p) ''SAFE''
      (get_current_schema (wd_db w) (snd t)) (wd_db w) = (r, db')"
    using assms(3,5) chosen(2) by simp
  have db: "db_ok t (wd_db w)" using assms(1) by (simp add: race_ok_def)
  show "wd_locks w = [(l, i)]" by (rule chosen(1))
  show "\<not> violates (wd_db w) (snd t) r" using not_violated [OF _ chosen(3) ins] db by (simp add: db_ok_def)
  have "registry_ok db'"
    by (rule registry_ok_insert [OF _ _ _ chosen(3) ins]) (use db in \<open>simp_all add: db_ok_def\<close>)
  then show "db_ok t db'" using db insert_version_rows(3,4) [OF ins] by (simp add: db_ok_def)
qed

lemma race_ok_step:
  assumes "step t w w'" "race_ok t l w"
  shows "race_ok t l w'"
  using assms(1)
proof cases
  case (fast_hit i p)
  show ?thesis
    by (rule race_ok_private [OF assms(2), of _ i])
       (use fast_hit assms(2) in \<open>simp_all add: proc_ok_def race_ok_def\<close>)
next
  case (fast_miss i p)
  show ?thesis
    by (rule race_ok_private [OF assms(2), of _ i])
       (use fast_miss assms(2) in \<open>simp_all add: proc_ok_def race_ok_def\<close>)
next
  case (acquire i p)
  have "proc_ok t l w i" using assms(2) acquire(2) by (simp add: race_ok_def)
  then have l: "proc_lock t (wd_procs w ! i) = l" by (simp add: proc_ok_def)
  with acquire(3,5) assms(2) have free: "wd_locks w = []" by (cases "wd_locks w") (auto simp: race_ok_def)
  show ?thesis
  proof (rule race_ok_alone [OF assms(2), of _ i])
    show "\<not> inside (pr_phase (wd_procs w ! j))" if "j < length (wd_procs w)" for j
      using assms(2) that free proc_ok_inside [of t l w j] by (auto simp: race_ok_def)
  qed (use acquire assms(2) l free in \<open>simp_all add: proc_ok_def race_ok_def\<close>)
next
  case (recheck_hit i p)
  have ok: "proc_ok t l w i" using assms(2) recheck_hit(2) by (simp add: race_ok_def)
  then have locks: "wd_locks w = [(l, i)]" using recheck_hit(3,4) by (simp add: proc_ok_def)
  show ?thesis
    by (rule race_ok_alone [OF assms(2), of _ i])
       (use recheck_hit ok assms(2) alone [OF assms(2) locks] locks in \<open>simp_all add: proc_ok_def race_ok_def\<close>)
next
  case (choose i p)
  have "proc_ok t l w i" using assms(2) choose(2) by (simp add: race_ok_def)
  then show ?thesis
    by (intro race_ok_private [OF assms(2), of _ i]) (use choose in \<open>simp_all add: proc_ok_def\<close>)
next
  case (commit i p current r db')
  have ok: "proc_ok t l w i" using assms(2) commit(2) by (simp add: race_ok_def)
  note chosen = chosen_insert [OF assms(2) commit(2-5)]
  then show ?thesis
    by (intro race_ok_alone [OF assms(2), of _ i])
       (use commit(1,2) ok alone [OF assms(2) chosen(1)] in \<open>simp_all add: proc_ok_def\<close>)
next
  case (reject i p current r db')
  with chosen_insert(2) [OF assms(2) reject(2-5)] show ?thesis by simp
qed

lemma race_ok_starting:
  "starting t w \<Longrightarrow> \<forall>p \<in> set (wd_procs w). proc_lock t p = l \<Longrightarrow> race_ok t l w"
  by (auto simp: starting_def race_ok_def db_ok_def proc_ok_def list_all_length)

lemma race_ok_result:
  assumes "race_ok t l w"
  shows "registry_ok (wd_db w) \<and> (\<forall>p \<in> set (wd_procs w). pr_phase p \<noteq> Failed)"
proof -
  have "pr_phase (wd_procs w ! i) \<noteq> Failed" if "i < length (wd_procs w)" for i
  proof
    assume "pr_phase (wd_procs w ! i) = Failed"
    moreover have "proc_ok t l w i" using assms that by (simp add: race_ok_def)
    ultimately show False by (simp add: proc_ok_def)
  qed
  then show ?thesis using assms by (auto simp: race_ok_def db_ok_def in_set_conv_nth)
qed

section \<open>Properties\<close>

text \<open>
  C12. Processes that compute the same advisory lock id never lose an upsert to a unique constraint:
  in every reachable state of every interleaving no process has failed and the registry is well
  formed.
\<close>

theorem same_lock_id_no_conflict:
  assumes "starting t w0" "\<forall>p \<in> set (wd_procs w0). proc_lock t p = l" "reachable t w0 w"
  shows "registry_ok (wd_db w) \<and> (\<forall>p \<in> set (wd_procs w). pr_phase p \<noteq> Failed)"
  by (rule race_ok_result [OF upserting.invariant [where ok = "race_ok t l", OF race_ok_step assms(3) race_ok_starting [OF assms(1,2)]]])

definition race_target :: target where
  "race_target = (example_key, ''0'')"

definition race_world :: "int \<Rightarrow> int \<Rightarrow> world" where
  "race_world h1 h2 =
     \<lparr>wd_db = example_run [''f1''], wd_locks = [],
      wd_procs = [\<lparr>pr_hash = \<lambda>_. h1, pr_fp = ''f2'', pr_schema = JObj [], pr_phase = Start\<rparr>,
                  \<lparr>pr_hash = \<lambda>_. h2, pr_fp = ''f3'', pr_schema = JObj [], pr_phase = Start\<rparr>]\<rparr>"

lemma race_world_starting: "starting race_target (race_world h1 h2)"
proof -
  have "''0'' \<in> er_id ` set (db_endpoints (example_run [''f1'']))" by code_simp
  then show ?thesis
    using example_run_ok [of "[''f1'']"] inj_show_nat by (simp add: starting_def race_world_def race_target_def)
qed

theorem same_lock_id_no_conflict_witness:
  "registry_ok (wd_db (set_phase 0 Waiting (race_world 7 7)))
   \<and> Failed \<notin> pr_phase ` set (wd_procs (set_phase 0 Waiting (race_world 7 7)))"
proof -
  have lock: "\<forall>p \<in> set (wd_procs (race_world 7 7)). proc_lock race_target p = 7"
    by (simp add: race_world_def race_target_def lock_id_def Let_def)
  have "find_version (example_run [''f1'']) ''0'' ''f2'' = None" unfolding find_version_None by code_simp
  then have "step race_target (race_world 7 7) (set_phase 0 Waiting (race_world 7 7))"
    by (intro fast_miss [where p = "wd_procs (race_world 7 7) ! 0"])
       (simp_all add: race_world_def race_target_def)
  then have "reachable race_target (race_world 7 7) (set_phase 0 Waiting (race_world 7 7))"
    by (rule upserting.single)
  from same_lock_id_no_conflict [OF race_world_starting lock this] show ?thesis by fastforce
qed

lemma insert_version_number:
  "insert_version e fp schema cls current db = (r, db') \<Longrightarrow>
     sv_version r = (case current of None \<Rightarrow> 1 | Some c \<Rightarrow> sv_version c + 1)"
  by (auto simp: insert_version_def Let_def)

lemma stale_insert_violates:
  assumes "chain_ok (versions_of db e)"
    and "insert_version e fp schema cls (get_current_schema db e) db = (r, db')"
    and "insert_version e fp' schema' cls' (get_current_schema db e) db' = (r', db'')"
  shows "violates db' e r'"
proof -
  from versions_of_insert_version(1) [OF assms(1) refl assms(2)]
  have "\<exists>row \<in> set (versions_of db' e). sv_version row = sv_version r" by auto
  moreover have "sv_version r = sv_version r'"
    using insert_version_number [OF assms(2)] insert_version_number [OF assms(3)] by simp
  ultimately show ?thesis by (auto simp: violates_def list_ex_iff)
qed

text \<open>
  Processes whose hash salts give different lock ids do conflict: two of them that observe two
  new contracts of one endpoint can both read the same current version and both insert its
  successor; the first commits and the second is rejected, its observation lost.
\<close>

theorem different_lock_ids_conflict:
  assumes "starting t w" "wd_procs w = [p, q]" "proc_lock t p \<noteq> proc_lock t q"
    and "find_version (wd_db w) (snd t) (pr_fp p) = None" "find_version (wd_db w) (snd t) (pr_fp q) = None"
  shows "\<exists>w'. reachable t w w' \<and> map pr_phase (wd_procs w') = [Done True, Failed] \<and>
    history (wd_db w') (snd t) = history (wd_db w) (snd t) @ [pr_fp p]"
proof -
  let ?c = "get_current_schema (wd_db w) (snd t)"
  obtain r db' where 1: "insert_version (snd t) (pr_fp p) (pr_schema p) ''SAFE'' ?c (wd_db w) = (r, db')"
    by (metis prod.collapse)
  obtain r' db'' where 2: "insert_version (snd t) (pr_fp q) (pr_schema q) ''SAFE'' ?c db' = (r', db'')"
    by (metis prod.collapse)
  have reg: "registry_ok (wd_db w)" and ph: "pr_phase p = Start" "pr_phase q = Start" and locks: "wd_locks w = []"
    using assms(1,2) by (simp_all add: starting_def)
  have ok: "chain_ok (versions_of (wd_db w) (snd t))" using reg by (simp add: registry_ok_def)
  have first: "\<not> violates (wd_db w) (snd t) r" by (rule not_violated [OF reg assms(4) 1])
  have second: "violates db' (snd t) r'" by (rule stale_insert_violates [OF ok 1 2])
  define w1 where "w1 = set_phase 0 Waiting w"
  define w2 where "w2 = set_phase 1 Waiting w1"
  define w3 where "w3 = set_phase 0 Holding (w2\<lparr>wd_locks := (proc_lock t p, 0) # wd_locks w2\<rparr>)"
  define w4 where "w4 = set_phase 1 Holding (w3\<lparr>wd_locks := (proc_lock t q, 1) # wd_locks w3\<rparr>)"
  define w5 where "w5 = set_phase 0 (Chosen ?c) w4"
  define w6 where "w6 = set_phase 1 (Chosen ?c) w5"
  define w7 where "w7 = release 0 (set_phase 0 (Done True) (w6\<lparr>wd_db := db'\<rparr>))"
  define w8 where "w8 = release 1 (set_phase 1 Failed w7)"
  note ws = w1_def w2_def w3_def w4_def w5_def w6_def w7_def w8_def
  have s1: "step t w w1" unfolding w1_def
    by (rule fast_miss [of 0 w p]) (simp_all add: assms ph)
  have s2: "step t w1 w2" unfolding w2_def
    by (rule fast_miss [of 1 w1 q]) (simp_all add: w1_def assms ph)
  have "step t w2 (set_phase 0 Holding (w2\<lparr>wd_locks := (proc_lock t (p\<lparr>pr_phase := Waiting\<rparr>), 0) # wd_locks w2\<rparr>))"
    by (rule acquire) (simp_all add: w1_def w2_def assms(2) locks)
  then have s3: "step t w2 w3" unfolding w3_def by (simp only: proc_lock_phase)
  have "step t w3 (set_phase 1 Holding (w3\<lparr>wd_locks := (proc_lock t (q\<lparr>pr_phase := Waiting\<rparr>), 1) # wd_locks w3\<rparr>))"
    by (rule acquire) (use assms(3) in \<open>simp_all add: w1_def w2_def w3_def assms(2) locks\<close>)
  then have s4: "step t w3 w4" unfolding w4_def by (simp only: proc_lock_phase)
  have dbs: "wd_db w4 = wd_db w" "wd_db w5 = wd_db w" by (simp_all add: ws)
  have s5: "step t w4 w5" unfolding w5_def dbs(1) [symmetric]
    by (rule choose [of 0 w4 "p\<lparr>pr_phase := Holding\<rparr>" t])
       (simp_all add: w1_def w2_def w3_def w4_def assms(2,4))
  have s6: "step t w5 w6" unfolding w6_def dbs(2) [symmetric]
    by (rule choose [of 1 w5 "q\<lparr>pr_phase := Holding\<rparr>" t])
       (simp_all add: w1_def w2_def w3_def w4_def w5_def assms(2,5))
  have s7: "step t w6 w7" unfolding w7_def
    by (rule commit [of 0 w6 "p\<lparr>pr_phase := Chosen ?c\<rparr>" ?c t r])
       (use 1 first in \<open>simp_all add: w1_def w2_def w3_def w4_def w5_def w6_def assms(2)\<close>)
  have s8: "step t w7 w8" unfolding w8_def
    by (rule reject [of 1 w7 "q\<lparr>pr_phase := Chosen ?c\<rparr>" ?c t r' db''])
       (use 2 second in \<open>simp_all add: ws assms(2)\<close>)
  have "reachable t w w8"
    by (rule more [OF more [OF more [OF more [OF more [OF more [OF more [OF more [OF init s1] s2] s3] s4] s5] s6] s7] s8])
  moreover have "map pr_phase (wd_procs w8) = [Done True, Failed]" by (simp add: ws assms(2))
  moreover have "history (wd_db w8) (snd t) = history (wd_db w) (snd t) @ [pr_fp p]"
  proof -
    have "wd_db w8 = db'" by (simp add: ws)
    then show ?thesis using conjunct2 [OF chain_ok_insert [OF ok refl assms(4) 1]] by metis
  qed
  ultimately show ?thesis by (intro exI [of _ w8] conjI)
qed

theorem different_lock_ids_conflict_witness:
  "\<exists>w'. reachable race_target (race_world 1 2) w' \<and> map pr_phase (wd_procs w') = [Done True, Failed] \<and>
    history (wd_db w') ''0'' = [''f1'', ''f2'']"
proof -
  have "history (example_run [''f1'']) ''0'' = [''f1'']" by code_simp
  then show ?thesis
    using different_lock_ids_conflict [OF race_world_starting, of 1 2]
    by (simp add: race_world_def race_target_def lock_id_def Let_def find_version_None)
qed

end
