(* ===== verification/Subscriptions.thy ===== *)
theory Subscriptions
  imports Classifier Database
begin

text \<open>
  \<open>app/runtime/subscriptions.py\<close> and the handlers of \<open>app/api/subscriptions.py\<close>: consumers
  subscribe to an endpoint with a severity threshold and optionally a first schema version.
  The lemmas show how the stored rows evolve and who is notified.
\<close>

section \<open>Definitions\<close>

text \<open>The returned dictionary has the fields of the row.\<close>

definition create_subscription ::
  "string \<Rightarrow> uuid \<Rightarrow> string \<Rightarrow> string \<Rightarrow> int option \<Rightarrow> bool \<Rightarrow> database \<Rightarrow> subscription \<times> database" where
  "create_subscription consumer_id endpoint_id target_url severity_threshold schema_version active db =
     (let r = \<lparr>sub_id = new_uuid db, sub_consumer_id = consumer_id, sub_endpoint_id = endpoint_id,
               sub_target_url = target_url, sub_threshold = severity_threshold,
               sub_schema_version = schema_version, sub_active = active,
               sub_created_at = db_now db, sub_updated_at = db_now db\<rparr>
      in (r, (used_uuid db)\<lparr>db_subscriptions := db_subscriptions db @ [r]\<rparr>))"

text \<open>An empty \<open>endpoint_id\<close> is no filter.\<close>

definition list_subscriptions :: "database \<Rightarrow> uuid option \<Rightarrow> subscription list" where
  "list_subscriptions db endpoint_id =
     order_desc sub_created_at
       (case endpoint_id of
          None \<Rightarrow> db_subscriptions db
        | Some e \<Rightarrow> if e = [] then db_subscriptions db
                   else filter (\<lambda>r. sub_endpoint_id r = e) (db_subscriptions db))"

definition get_subscription :: "database \<Rightarrow> uuid \<Rightarrow> subscription option" where
  "get_subscription db subscription_id =
     first_row (filter (\<lambda>r. sub_id r = subscription_id) (db_subscriptions db))"

text \<open>The entries of a patch; \<open>Unknown\<close> is a key outside the mutable set.\<close>

datatype patch_entry =
    Target_url string
  | Severity_threshold string
  | Schema_version "int option"
  | Active bool
  | Unknown string

fun is_mutable :: "patch_entry \<Rightarrow> bool" where
  "is_mutable (Unknown k) = False"
| "is_mutable _ = True"

fun apply_entry :: "patch_entry \<Rightarrow> subscription \<Rightarrow> subscription" where
  "apply_entry (Target_url u) r = r\<lparr>sub_target_url := u\<rparr>"
| "apply_entry (Severity_threshold s) r = r\<lparr>sub_threshold := s\<rparr>"
| "apply_entry (Schema_version v) r = r\<lparr>sub_schema_version := v\<rparr>"
| "apply_entry (Active b) r = r\<lparr>sub_active := b\<rparr>"
| "apply_entry (Unknown k) r = r"

definition update_subscription ::
  "uuid \<Rightarrow> patch_entry list \<Rightarrow> database \<Rightarrow> subscription option \<times> database" where
  "update_subscription subscription_id patch db =
     (let mutable = filter is_mutable patch in
      if mutable = [] then (get_subscription db subscription_id, db)
      else
        let db1 = db\<lparr>db_subscriptions := update_rows (\<lambda>r. sub_id r = subscription_id)
              (\<lambda>r. (fold apply_entry mutable r)\<lparr>sub_updated_at := db_now db\<rparr>) (db_subscriptions db)\<rparr>
        in (get_subscription db1 subscription_id, db1))"

definition select_affected_subscriptions :: "database \<Rightarrow> uuid \<Rightarrow> int \<Rightarrow> string \<Rightarrow> subscription list" where
  "select_affected_subscriptions db endpoint_id new_version severity =
     filter (\<lambda>r. severity_rank (sub_threshold r) \<le> severity_rank severity)
       (filter (\<lambda>r. sub_endpoint_id r = endpoint_id \<and> sub_active r \<and>
            (case sub_schema_version r of None \<Rightarrow> True | Some v \<Rightarrow> v \<le> new_version))
         (db_subscriptions db))"

subsection \<open>The handlers\<close>

record CreateSubscriptionRequest =
  cr_consumer_id :: string
  cr_endpoint_id :: uuid
  cr_target_url :: string
  cr_severity_threshold :: string
  cr_schema_version :: "int option"
  cr_active :: bool

text \<open>A parsed body, its absent optional fields at their defaults.\<close>

definition create_request ::
  "string \<Rightarrow> uuid \<Rightarrow> string \<Rightarrow> string option \<Rightarrow> int option \<Rightarrow> bool option \<Rightarrow> CreateSubscriptionRequest" where
  "create_request consumer_id endpoint_id target_url severity_threshold schema_version active =
     \<lparr>cr_consumer_id = consumer_id, cr_endpoint_id = endpoint_id, cr_target_url = target_url,
      cr_severity_threshold = (case severity_threshold of None \<Rightarrow> ''RISKY'' | Some s \<Rightarrow> s),
      cr_schema_version = schema_version, cr_active = (case active of None \<Rightarrow> True | Some b \<Rightarrow> b)\<rparr>"

text \<open>
  The table refers to the endpoints: an id that no endpoint has is refused by the database, with an
  \<open>IntegrityError\<close> when it is a UUID and a \<open>DataError\<close> of the cast when it is not, both of them
  \<open>DBAPIError\<close>s, and nothing catches that.
\<close>

definition create_handler :: "CreateSubscriptionRequest \<Rightarrow> database \<Rightarrow> (py_exc + subscription) \<times> database" where
  "create_handler req db =
     (if cr_endpoint_id req \<in> er_id ` set (db_endpoints db) then
        let (sub, db1) = create_subscription (cr_consumer_id req) (cr_endpoint_id req) (cr_target_url req)
              (cr_severity_threshold req) (cr_schema_version req) (cr_active req) db
        in (Inr sub, db1)
      else (Inl (DBAPIError ''consumer_subscriptions.endpoint_id''), db))"

definition list_all_handler :: "uuid option \<Rightarrow> database \<Rightarrow> subscription list" where
  "list_all_handler endpoint_id db = list_subscriptions db endpoint_id"

record UpdateSubscriptionRequest =
  ur_target_url :: "string option"
  ur_severity_threshold :: "string option"
  ur_schema_version :: "int option"
  ur_active :: "bool option"

text \<open>\<open>req.model_dump(exclude_none=True)\<close>.\<close>

definition dump_patch :: "UpdateSubscriptionRequest \<Rightarrow> patch_entry list" where
  "dump_patch req =
     map Target_url (case ur_target_url req of None \<Rightarrow> [] | Some u \<Rightarrow> [u]) @
     map Severity_threshold (case ur_severity_threshold req of None \<Rightarrow> [] | Some s \<Rightarrow> [s]) @
     map (Schema_version \<circ> Some) (case ur_schema_version req of None \<Rightarrow> [] | Some v \<Rightarrow> [v]) @
     map Active (case ur_active req of None \<Rightarrow> [] | Some b \<Rightarrow> [b])"

definition patch_handler ::
  "uuid \<Rightarrow> UpdateSubscriptionRequest \<Rightarrow> database \<Rightarrow> (py_exc + subscription) \<times> database" where
  "patch_handler subscription_id req db =
     (let (sub, db1) = update_subscription subscription_id (dump_patch req) db in
      (case sub of None \<Rightarrow> Inl (HTTPException 404 ''subscription not found'') | Some r \<Rightarrow> Inr r, db1))"

definition get_one_handler :: "database \<Rightarrow> uuid \<Rightarrow> py_exc + subscription" where
  "get_one_handler db subscription_id =
     (case get_subscription db subscription_id of
        None \<Rightarrow> Inl (HTTPException 404 ''subscription not found'')
      | Some r \<Rightarrow> Inr r)"

section \<open>Lemmas\<close>

lemma apply_entry_keeps [simp]:
  "sub_id (apply_entry p r) = sub_id r" "sub_consumer_id (apply_entry p r) = sub_consumer_id r"
  "sub_endpoint_id (apply_entry p r) = sub_endpoint_id r" "sub_created_at (apply_entry p r) = sub_created_at r"
  by (cases p; simp)+

lemma fold_apply_keeps [simp]:
  "sub_id (fold apply_entry ps r) = sub_id r" "sub_consumer_id (fold apply_entry ps r) = sub_consumer_id r"
  "sub_endpoint_id (fold apply_entry ps r) = sub_endpoint_id r"
  "sub_created_at (fold apply_entry ps r) = sub_created_at r"
  by (induction ps arbitrary: r) simp_all

lemma get_subscription_update:
  "(\<And>r. sub_id (f r) = sub_id r) \<Longrightarrow>
     get_subscription (db\<lparr>db_subscriptions := update_rows (\<lambda>r. sub_id r = i) f (db_subscriptions db)\<rparr>) j
     = (if i = j then map_option f (get_subscription db j) else get_subscription db j)"
  by (simp add: get_subscription_def first_row_update)

lemma mutable_dump: "filter is_mutable (dump_patch req) = dump_patch req"
  by (simp add: dump_patch_def split: option.split)

text \<open>What a request asks the row to become.\<close>

definition patched :: "UpdateSubscriptionRequest \<Rightarrow> subscription \<Rightarrow> subscription" where
  "patched req r = r\<lparr>
     sub_target_url := case_option (sub_target_url r) id (ur_target_url req),
     sub_threshold := case_option (sub_threshold r) id (ur_severity_threshold req),
     sub_schema_version := case_option (sub_schema_version r) Some (ur_schema_version req),
     sub_active := case_option (sub_active r) id (ur_active req)\<rparr>"

lemma fold_dump: "fold apply_entry (dump_patch req) r = patched req r"
  by (simp add: dump_patch_def patched_def split: option.split)

lemma dump_patch_Nil: "dump_patch req = [] \<Longrightarrow> patched req r = r"
  by (auto simp: dump_patch_def patched_def split: option.splits)

lemma patched_id [simp]: "sub_id (patched req r) = sub_id r"
  by (simp add: patched_def)

lemma patch_handler_update:
  fixes db :: database and i :: uuid
  assumes "dump_patch req \<noteq> []"
  defines "db1 \<equiv> db\<lparr>db_subscriptions := update_rows (\<lambda>r. sub_id r = i)
      (\<lambda>r. (patched req r)\<lparr>sub_updated_at := db_now db\<rparr>) (db_subscriptions db)\<rparr>"
  shows "patch_handler i req db = (get_one_handler db1 i, db1)"
    and "get_subscription db1 j = (if i = j
           then map_option (\<lambda>r. (patched req r)\<lparr>sub_updated_at := db_now db\<rparr>) (get_subscription db j)
           else get_subscription db j)"
  using assms(1)
  by (simp_all add: patch_handler_def update_subscription_def get_one_handler_def mutable_dump fold_dump
      Let_def db1_def get_subscription_update)

lemma patch_handler_none:
  assumes "get_subscription db i = None"
  shows "patch_handler i req db = (Inl (HTTPException 404 ''subscription not found''), db)"
proof (cases "dump_patch req = []")
  case True
  with assms show ?thesis by (simp add: patch_handler_def update_subscription_def)
next
  case False
  have "update_rows (\<lambda>r. sub_id r = i) f (db_subscriptions db) = db_subscriptions db" for f
    using assms by (intro update_rows_none) (auto simp: get_subscription_def first_row_filter_None)
  then show ?thesis
    unfolding patch_handler_update(1) [OF False] using assms by (simp add: get_one_handler_def)
qed

section \<open>Properties\<close>

text \<open>
  A PATCH changes the named fields of the one subscription and its time stamp, is visible to the
  next read, leaves every other subscription as it was, answers 404 without a change when there is
  none, and cannot remove a pinned schema version: a null in the request counts as absent.
\<close>

theorem patch_changes_one_subscription:
  "case get_subscription db i of
     None \<Rightarrow> patch_handler i req db = (Inl (HTTPException 404 ''subscription not found''), db)
   | Some r \<Rightarrow>
       \<exists>r' db'. patch_handler i req db = (Inr r', db') \<and> get_one_handler db' i = Inr r' \<and>
         r'\<lparr>sub_updated_at := sub_updated_at r\<rparr> = patched req r \<and>
         (\<forall>j. j \<noteq> i \<longrightarrow> get_subscription db' j = get_subscription db j) \<and>
         (sub_schema_version r \<noteq> None \<longrightarrow> sub_schema_version r' \<noteq> None)"
proof (cases "get_subscription db i")
  case None
  then show ?thesis using patch_handler_none [OF None] by simp
next
  case (Some r)
  show ?thesis
  proof (cases "dump_patch req = []")
    case True
    with Some dump_patch_Nil [OF True, of r] show ?thesis
      by (simp add: patch_handler_def update_subscription_def get_one_handler_def)
  next
    case False
    have pin: "sub_schema_version r \<noteq> None \<Longrightarrow> sub_schema_version (patched req r) \<noteq> None"
      by (simp add: patched_def split: option.split)
    show ?thesis
      unfolding Some option.case patch_handler_update(1) [OF False]
      using pin by (simp add: get_one_handler_def patch_handler_update(2) [OF False] Some) (simp add: patched_def)
  qed
qed

definition example_sub :: "string \<Rightarrow> subscription" where
  "example_sub threshold = \<lparr>sub_id = ''s1'', sub_consumer_id = ''billing'', sub_endpoint_id = ''e1'',
     sub_target_url = ''http://billing/hook'', sub_threshold = threshold, sub_schema_version = Some 1,
     sub_active = True, sub_created_at = 0, sub_updated_at = 0\<rparr>"

definition subs_db :: "subscription list \<Rightarrow> database" where
  "subs_db subs = (empty_db show_nat 0 sort_keys)\<lparr>db_subscriptions := subs\<rparr>"

theorem patch_changes_one_subscription_witness:
  "\<exists>r' db'. patch_handler ''s1'' \<lparr>ur_target_url = None, ur_severity_threshold = Some ''BREAKING'',
       ur_schema_version = None, ur_active = None\<rparr> (subs_db [example_sub ''SAFE'']) = (Inr r', db') \<and>
     sub_threshold r' = ''BREAKING'' \<and> sub_schema_version r' \<noteq> None"
proof -
  let ?req = "\<lparr>ur_target_url = None, ur_severity_threshold = Some ''BREAKING'', ur_schema_version = None, ur_active = None\<rparr>"
  have g: "get_subscription (subs_db [example_sub ''SAFE'']) ''s1'' = Some (example_sub ''SAFE'')"
    by (simp add: get_subscription_def subs_db_def example_sub_def)
  have v: "sub_schema_version (example_sub ''SAFE'') \<noteq> None" by (simp add: example_sub_def)
  have t: "sub_threshold (r\<lparr>sub_updated_at := u\<rparr>) = sub_threshold r" for r :: subscription and u by simp
  from patch_changes_one_subscription [where db = "subs_db [example_sub ''SAFE'']" and i = "''s1''" and req = ?req]
  obtain r' db' where r: "patch_handler ''s1'' ?req (subs_db [example_sub ''SAFE'']) = (Inr r', db')"
    "r'\<lparr>sub_updated_at := sub_updated_at (example_sub ''SAFE'')\<rparr> = patched ?req (example_sub ''SAFE'')"
    "sub_schema_version r' \<noteq> None"
    using g v by auto
  from arg_cong [OF r(2), of sub_threshold] have "sub_threshold r' = ''BREAKING''" by (simp add: patched_def)
  with r show ?thesis by blast
qed

text \<open>
  Notification is monotone in the severity: whoever is notified of a change is notified of every
  graver one; a BREAKING change reaches every active subscription of the endpoint that is not pinned
  to a later version; and nobody else is reached.
\<close>

theorem notification_monotone:
  assumes "severity_rank s \<le> severity_rank s'"
  shows "set (select_affected_subscriptions db e v s) \<subseteq> set (select_affected_subscriptions db e v s')
    \<and> set (select_affected_subscriptions db e v ''BREAKING'') =
      {r \<in> set (db_subscriptions db). sub_endpoint_id r = e \<and> sub_active r \<and>
         (\<forall>p. sub_schema_version r = Some p \<longrightarrow> p \<le> v)}"
  using assms severity_rank_bounds
  by (auto simp: select_affected_subscriptions_def split: option.splits)

theorem notification_monotone_witness:
  "set (select_affected_subscriptions (subs_db [example_sub ''RISKY'']) ''e1'' 2 ''RISKY'')
   \<subseteq> set (select_affected_subscriptions (subs_db [example_sub ''RISKY'']) ''e1'' 2 ''BREAKING'')
   \<and> select_affected_subscriptions (subs_db [example_sub ''RISKY'']) ''e1'' 2 ''RISKY'' \<noteq> []"
  using notification_monotone [of "''RISKY''" "''BREAKING''" "subs_db [example_sub ''RISKY'']" "''e1''" 2]
  by (simp add: select_affected_subscriptions_def subs_db_def example_sub_def)

text \<open>
  A threshold that is not one of the five names, such as a name in lower case, ranks as SAFE:
  its subscription, active and not pinned to a later version, is notified of every change, harmless
  ones included, although it asked for the gravest only.
\<close>

theorem unknown_threshold_receives_everything:
  assumes "sub_threshold r \<notin> set (keys members)" "r \<in> set (db_subscriptions db)" "sub_active r"
    and "sub_schema_version r = None \<or> (\<exists>p. sub_schema_version r = Some p \<and> p \<le> v)"
  shows "r \<in> set (select_affected_subscriptions db (sub_endpoint_id r) v severity)"
proof -
  have "map_of members (sub_threshold r) = None" using assms(1) by (simp add: map_of_eq_None_iff)
  then have "severity_rank (sub_threshold r) = 0" by (simp add: severity_rank_def)
  then show ?thesis
    using assms(2-4) severity_rank_bounds [of severity] by (auto simp: select_affected_subscriptions_def)
qed

theorem unknown_threshold_receives_everything_witness:
  "example_sub ''breaking'' \<in> set (select_affected_subscriptions (subs_db [example_sub ''breaking'']) ''e1'' 2 ''SAFE'')"
  using unknown_threshold_receives_everything [of "example_sub ''breaking''" "subs_db [example_sub ''breaking'']" 2 "''SAFE''"]
  by (simp add: example_sub_def subs_db_def members_def)

end
