(* ===== verification/Webhook.thy ===== *)
theory Webhook
  imports Database Document_Store
begin

text \<open>
  \<open>app/runtime/webhook.py\<close>: posting an event to a subscriber with retries, the log of attempts, the
  dead letter queue, and the replay of one of its entries. The network is a value: the posts made so
  far and the reply each post gets, by its number (\<open>nw_replies\<close>); a reply is a status code or the
  text of the exception the client raised.
\<close>

section \<open>The network\<close>

datatype reply = Status int | Raised string

record network =
  nw_replies :: "nat \<Rightarrow> reply"
  nw_sent :: "(string \<times> json) list"

definition post :: "string \<Rightarrow> json \<Rightarrow> network \<Rightarrow> reply \<times> network" where
  "post url body net = (nw_replies net (length (nw_sent net)), net\<lparr>nw_sent := nw_sent net @ [(url, body)]\<rparr>)"

text \<open>\<open>f"HTTP {res.status_code}"\<close>, or the exception; \<open>None\<close> is success.\<close>

definition failure_of :: "reply \<Rightarrow> string option" where
  "failure_of r =
     (case r of
        Status code \<Rightarrow> if 200 \<le> code \<and> code < 300 then None else Some (''HTTP '' @ show_int code)
      | Raised exc \<Rightarrow> Some exc)"

section \<open>The dead letter queue\<close>

definition upsert_dlq ::
  "string \<Rightarrow> string \<Rightarrow> uuid \<Rightarrow> string \<Rightarrow> json \<Rightarrow> string \<Rightarrow> int \<Rightarrow> database \<Rightarrow> database" where
  "upsert_dlq event_id consumer_id endpoint_id target_url payload failure_reason attempt_count db =
     (let conflict = (\<lambda>r. (dq_event_id r, dq_consumer_id r) = (event_id, consumer_id)) in
      if list_ex conflict (db_dlq db) then
        db\<lparr>db_dlq := update_rows conflict
             (\<lambda>r. r\<lparr>dq_failure_reason := failure_reason,
                    dq_attempt_count := max (dq_attempt_count r) attempt_count,
                    dq_last_attempt_at := db_now db\<rparr>) (db_dlq db)\<rparr>
      else
        (used_uuid db)\<lparr>db_dlq := db_dlq db @
          [\<lparr>dq_id = new_uuid db, dq_event_id = event_id, dq_consumer_id = consumer_id,
            dq_endpoint_id = endpoint_id, dq_target_url = target_url, dq_payload = db_jsonb db payload,
            dq_failure_reason = failure_reason, dq_attempt_count = attempt_count,
            dq_created_at = db_now db, dq_last_attempt_at = db_now db\<rparr>]\<rparr>)"

section \<open>Delivery\<close>

text \<open>What one call delivers: the parameters that stay fixed during the loop.\<close>

record delivery =
  dv_event_id :: string
  dv_endpoint_id :: uuid
  dv_consumer_id :: string
  dv_target_url :: string
  dv_active :: bool
  dv_payload :: json
  dv_persist_dlq :: bool
  dv_now :: string

definition log_attempt :: "delivery \<Rightarrow> string option \<Rightarrow> int \<Rightarrow> database \<Rightarrow> database" where
  "log_attempt d reason attempt db =
     db\<lparr>db_attempts := db_attempts db @
       [\<lparr>at_event_id = dv_event_id d, at_consumer_id = dv_consumer_id d, at_endpoint_id = dv_endpoint_id d,
         at_target_url = dv_target_url d, at_success = (reason = None), at_failure_reason = reason,
         at_attempt_count = attempt, at_attempted_at = db_now db\<rparr>]\<rparr>"

definition dead_letter :: "delivery \<Rightarrow> string \<Rightarrow> int \<Rightarrow> database \<Rightarrow> database" where
  "dead_letter d reason attempt db =
     (if dv_persist_dlq d then
        upsert_dlq (dv_event_id d) (dv_consumer_id d) (dv_endpoint_id d) (dv_target_url d)
          (JObj [(''event'', dv_payload d), (''failed_at'', JStr (dv_now d))]) reason attempt db
      else db)"

function attempt_loop ::
  "delivery \<Rightarrow> int \<Rightarrow> int \<Rightarrow> database \<times> network \<Rightarrow> bool \<times> database \<times> network" where
  "attempt_loop d attempt max_attempts (db, net) =
     (if max_attempts < attempt then (False, db, net)
      else
        let (r, net1) = post (dv_target_url d) (dv_payload d) net in
        case failure_of r of
          None \<Rightarrow> (True, log_attempt d None attempt db, net1)
        | Some reason \<Rightarrow>
            let db1 = log_attempt d (Some reason) attempt db in
            if attempt = max_attempts then (False, dead_letter d reason attempt db1, net1)
            else attempt_loop d (attempt + 1) max_attempts (db1, net1))"
  by pat_completeness auto
termination
  by (relation "measure (\<lambda>(d, attempt, max_attempts, w). nat (max_attempts + 1 - attempt))") auto

declare attempt_loop.simps [simp del]

definition deliver_with_retry ::
  "delivery \<Rightarrow> int \<Rightarrow> database \<times> network \<Rightarrow> bool \<times> database \<times> network" where
  "deliver_with_retry d max_attempts w =
     (if \<not> dv_active d then (False, w) else attempt_loop d 1 max_attempts w)"

section \<open>Listings\<close>

definition list_dlq_entries :: "database \<Rightarrow> int \<Rightarrow> dlq_row list" where
  "list_dlq_entries db limit = limit_rows limit (order_desc dq_last_attempt_at (db_dlq db))"

definition get_dlq_entry :: "database \<Rightarrow> uuid \<Rightarrow> dlq_row option" where
  "get_dlq_entry db dlq_id = first_row (filter (\<lambda>r. dq_id r = dlq_id) (db_dlq db))"

definition list_delivery_attempts :: "database \<Rightarrow> int \<Rightarrow> attempt_row list" where
  "list_delivery_attempts db limit = limit_rows limit (order_desc at_attempted_at (db_attempts db))"

section \<open>Replay\<close>

record replay_artifact =
  ra_dlq_id :: uuid
  ra_event_id :: string
  ra_consumer_id :: string
  ra_endpoint_id :: uuid
  ra_target_url :: string
  ra_replayed :: bool
  ra_failure_reason :: "string option"
  ra_replayed_at :: string

datatype replay_result =
    Replay_error string "dlq_row option"
  | Replay_done replay_artifact

definition replay_payload :: "json \<Rightarrow> json" where
  "replay_payload payload =
     (let event_payload =
        (case payload of JObj kvs \<Rightarrow> (case map_of kvs ''event'' of None \<Rightarrow> JNull | Some e \<Rightarrow> e) | _ \<Rightarrow> payload)
      in if is_obj event_payload then event_payload else JObj [(''value'', event_payload)])"

definition newest_subscription :: "database \<Rightarrow> uuid \<Rightarrow> string \<Rightarrow> subscription option" where
  "newest_subscription db endpoint_id consumer_id =
     first_row (order_desc sub_created_at
       (filter (\<lambda>r. sub_endpoint_id r = endpoint_id \<and> sub_consumer_id r = consumer_id) (db_subscriptions db)))"

definition artifact_dict :: "replay_artifact \<Rightarrow> json" where
  "artifact_dict a =
     JObj [(''dlq_id'', JStr (ra_dlq_id a)), (''event_id'', JStr (ra_event_id a)),
           (''consumer_id'', JStr (ra_consumer_id a)), (''endpoint_id'', JStr (ra_endpoint_id a)),
           (''target_url'', JStr (ra_target_url a)), (''replayed'', JBool (ra_replayed a)),
           (''failure_reason'', case ra_failure_reason a of None \<Rightarrow> JNull | Some r \<Rightarrow> JStr r),
           (''replayed_at'', JStr (ra_replayed_at a))]"

text \<open>
  The document store, when there is one, is a function that stores the artifact or raises; what it
  raises is not caught, after the post was made and logged.
\<close>

type_synonym 'ds artifact_store = "replay_artifact_args \<Rightarrow> 'ds \<Rightarrow> py_exc option \<times> 'ds"

definition store_artifact :: "'ds artifact_store option \<Rightarrow> replay_artifact \<Rightarrow> 'ds \<Rightarrow> py_exc option \<times> 'ds" where
  "store_artifact store a docs =
     (case store of
        None \<Rightarrow> (None, docs)
      | Some store_replay_artifact \<Rightarrow>
          store_replay_artifact
            \<lparr>rp_source = ''runtime-dlq'', rp_artifact_type = ''dlq_replay'', rp_payload = artifact_dict a,
             rp_metadata = Some (JObj [(''dlq_id'', JStr (ra_dlq_id a)), (''consumer_id'', JStr (ra_consumer_id a))])\<rparr>
            docs)"

text \<open>
  The clock is read at the end, for the artifact. The reading inside the delivery would only show in a
  dead letter, which a replay does not write.
\<close>

definition replay_dlq_entry ::
  "'ds artifact_store option \<Rightarrow> uuid \<Rightarrow> string \<Rightarrow> database \<times> network \<Rightarrow> 'ds
     \<Rightarrow> (py_exc + replay_result) \<times> (database \<times> network) \<times> 'ds" where
  "replay_dlq_entry store dlq_id now w docs =
     (case get_dlq_entry (fst w) dlq_id of
        None \<Rightarrow> (Inr (Replay_error ''dlq_not_found'' None), w, docs)
      | Some entry \<Rightarrow>
          (case newest_subscription (fst w) (dq_endpoint_id entry) (dq_consumer_id entry) of
             None \<Rightarrow> (Inr (Replay_error ''subscription_not_found'' (Some entry)), w, docs)
           | Some sub \<Rightarrow>
               let d = \<lparr>dv_event_id = dq_event_id entry, dv_endpoint_id = dq_endpoint_id entry,
                        dv_consumer_id = sub_consumer_id sub, dv_target_url = sub_target_url sub,
                        dv_active = sub_active sub, dv_payload = replay_payload (dq_payload entry),
                        dv_persist_dlq = False, dv_now = now\<rparr>;
                   (ok, w1) = deliver_with_retry d 1 w;
                   artifact = \<lparr>ra_dlq_id = dlq_id, ra_event_id = dq_event_id entry,
                     ra_consumer_id = dq_consumer_id entry, ra_endpoint_id = dq_endpoint_id entry,
                     ra_target_url = dq_target_url entry, ra_replayed = ok,
                     ra_failure_reason = (if ok then None else Some (dq_failure_reason entry)),
                     ra_replayed_at = now\<rparr>;
                   (raised, docs1) = store_artifact store artifact docs
               in (case raised of Some e \<Rightarrow> Inl e | None \<Rightarrow> Inr (Replay_done artifact), w1, docs1)))"

text \<open>The replay handler of \<open>app/api/reliability.py\<close>.\<close>

definition replay_webhook_dlq ::
  "'ds artifact_store option \<Rightarrow> uuid \<Rightarrow> string \<Rightarrow> database \<times> network \<Rightarrow> 'ds
     \<Rightarrow> (py_exc + replay_result) \<times> (database \<times> network) \<times> 'ds" where
  "replay_webhook_dlq store dlq_id now w docs =
     (let (outcome, w1, docs1) = replay_dlq_entry store dlq_id now w docs in
      (case outcome of
         Inl e \<Rightarrow> Inl e
       | Inr (Replay_error err entry) \<Rightarrow>
           if err = ''dlq_not_found'' then Inl (HTTPException 404 ''dlq entry not found'')
           else Inr (Replay_error err entry)
       | Inr (Replay_done a) \<Rightarrow> Inr (Replay_done a), w1, docs1))"

definition webhook_dlq_entry :: "database \<Rightarrow> uuid \<Rightarrow> py_exc + dlq_row" where
  "webhook_dlq_entry db dlq_id =
     (case get_dlq_entry db dlq_id of
        None \<Rightarrow> Inl (HTTPException 404 ''dlq entry not found'')
      | Some entry \<Rightarrow> Inr entry)"

text \<open>\<open>limit: int = Query(50, ge=1, le=200)\<close>: a request outside the bounds is answered with 422.\<close>

definition query_limit :: "int \<Rightarrow> int \<Rightarrow> py_exc + int" where
  "query_limit hi limit = (if 1 \<le> limit \<and> limit \<le> hi then Inr limit else Inl (HTTPException 422 ''limit''))"

definition webhook_dlq :: "database \<Rightarrow> int \<Rightarrow> py_exc + dlq_row list" where
  "webhook_dlq db limit = map_sum id (list_dlq_entries db) (query_limit 200 limit)"

definition webhook_delivery_attempts :: "database \<Rightarrow> int \<Rightarrow> py_exc + attempt_row list" where
  "webhook_delivery_attempts db limit = map_sum id (list_delivery_attempts db) (query_limit 500 limit)"

text \<open>
  The listings of stored documents. The store of the application, when there is one, is given by its
  listing of a collection, \<open>\<lambda>c n. mem_list c n st\<close> or \<open>\<lambda>c n. mongo_list cl c n s\<close>.
\<close>

type_synonym doc_listing = "string \<Rightarrow> int \<Rightarrow> json dict list"

definition listed_documents :: "doc_listing option \<Rightarrow> string \<Rightarrow> int \<Rightarrow> py_exc + json dict list" where
  "listed_documents store collection limit =
     map_sum id (\<lambda>n. case store of None \<Rightarrow> [] | Some listing \<Rightarrow> listing collection n) (query_limit 200 limit)"

definition payload_snapshots :: "doc_listing option \<Rightarrow> int \<Rightarrow> py_exc + json dict list" where
  "payload_snapshots store limit = listed_documents store ''payload_snapshots'' limit"

definition schema_diffs :: "doc_listing option \<Rightarrow> int \<Rightarrow> py_exc + json dict list" where
  "schema_diffs store limit = listed_documents store ''schema_diffs'' limit"

definition validation_errors :: "doc_listing option \<Rightarrow> int \<Rightarrow> py_exc + json dict list" where
  "validation_errors store limit = listed_documents store ''validation_errors'' limit"

definition replay_artifacts :: "doc_listing option \<Rightarrow> int \<Rightarrow> py_exc + json dict list" where
  "replay_artifacts store limit = listed_documents store ''replay_artifacts'' limit"

section \<open>The attempts of one delivery\<close>

text \<open>
  Specification: with \<open>n\<close> tries left from post number \<open>i\<close> on, the failures met, oldest first, and
  whether a try succeeded.
\<close>

fun tries :: "(nat \<Rightarrow> reply) \<Rightarrow> nat \<Rightarrow> nat \<Rightarrow> string list \<times> bool" where
  "tries replies i 0 = ([], False)"
| "tries replies i (Suc n) =
     (case failure_of (replies i) of
        None \<Rightarrow> ([], True)
      | Some reason \<Rightarrow> let (rs, ok) = tries replies (Suc i) n in (reason # rs, ok))"

definition attempt_rows :: "delivery \<Rightarrow> int \<Rightarrow> int \<Rightarrow> string option list \<Rightarrow> attempt_row list" where
  "attempt_rows d now first reasons =
     map (\<lambda>(i, reason). \<lparr>at_event_id = dv_event_id d, at_consumer_id = dv_consumer_id d,
            at_endpoint_id = dv_endpoint_id d, at_target_url = dv_target_url d, at_success = (reason = None),
            at_failure_reason = reason, at_attempt_count = first + int i, at_attempted_at = now\<rparr>)
       (enumerate 0 reasons)"

definition outcomes :: "string list \<times> bool \<Rightarrow> string option list" where
  "outcomes t = map Some (fst t) @ (if snd t then [None] else [])"

lemma attempt_rows_simps [simp]:
  "attempt_rows d now a [] = []"
  "attempt_rows d now a (r # rs) =
     \<lparr>at_event_id = dv_event_id d, at_consumer_id = dv_consumer_id d, at_endpoint_id = dv_endpoint_id d,
      at_target_url = dv_target_url d, at_success = (r = None), at_failure_reason = r,
      at_attempt_count = a, at_attempted_at = now\<rparr> # attempt_rows d now (a + 1) rs"
proof -
  have "enumerate 1 rs = map (\<lambda>(i, r). (Suc i, r)) (enumerate 0 rs)"
    by (rule nth_equalityI) (simp_all add: nth_enumerate_eq)
  then show "attempt_rows d now a (r # rs) =
     \<lparr>at_event_id = dv_event_id d, at_consumer_id = dv_consumer_id d, at_endpoint_id = dv_endpoint_id d,
      at_target_url = dv_target_url d, at_success = (r = None), at_failure_reason = r,
      at_attempt_count = a, at_attempted_at = now\<rparr> # attempt_rows d now (a + 1) rs"
    by (simp add: attempt_rows_def case_prod_unfold comp_def algebra_simps)
qed (simp add: attempt_rows_def)

lemma tries_length: "length (fst (tries f i n)) \<le> n" and tries_failed: "\<not> snd (tries f i n) \<Longrightarrow> length (fst (tries f i n)) = n"
  by (induction f i n rule: tries.induct) (auto split: option.splits prod.splits)

lemma tries_success: "snd (tries f i n) \<longleftrightarrow> (\<exists>j < n. failure_of (f (i + j)) = None)"
proof (induction f i n rule: tries.induct)
  case (2 f i n)
  show ?case
  proof (cases "failure_of (f i)")
    case (Some reason)
    with 2 have "snd (tries f i (Suc n)) \<longleftrightarrow> (\<exists>j < n. failure_of (f (i + Suc j)) = None)"
      by (simp add: case_prod_unfold Let_def)
    also have "\<dots> \<longleftrightarrow> (\<exists>j < Suc n. failure_of (f (i + j)) = None)"
      using Some by (metis Suc_less_eq add.right_neutral less_Suc_eq_0_disj option.distinct(1))
    finally show ?thesis .
  qed auto
qed simp

lemma attempt_loop_spec:
  assumes "n = nat (max_attempts + 1 - attempt)" "t = tries (nw_replies net) (length (nw_sent net)) n"
  shows "attempt_loop d attempt max_attempts (db, net) =
     (snd t,
      (if snd t \<or> n = 0 then id else dead_letter d (last (fst t)) max_attempts)
        (db\<lparr>db_attempts := db_attempts db @ attempt_rows d (db_now db) attempt (outcomes t)\<rparr>),
      net\<lparr>nw_sent := nw_sent net @ replicate (length (outcomes t)) (dv_target_url d, dv_payload d)\<rparr>)"
  using assms
proof (induction n arbitrary: attempt db net t)
  case 0
  then show ?case by (simp add: attempt_loop.simps outcomes_def)
next
  case (Suc n)
  let ?i = "length (nw_sent net)"
  let ?net = "net\<lparr>nw_sent := nw_sent net @ [(dv_target_url d, dv_payload d)]\<rparr>"
  have le: "attempt \<le> max_attempts" and n: "n = nat (max_attempts + 1 - (attempt + 1))" using Suc.prems(1) by simp_all
  show ?case
  proof (cases "failure_of (nw_replies net ?i)")
    case None
    with le Suc.prems(2) show ?thesis
      by (simp add: attempt_loop.simps [of d attempt] post_def Let_def log_attempt_def outcomes_def)
  next
    case (Some reason)
    obtain rs ok where t: "tries (nw_replies net) (Suc ?i) n = (rs, ok)" by (metis prod.collapse)
    with Some Suc.prems(2) have tt: "t = (reason # rs, ok)" by simp
    show ?thesis
    proof (cases "attempt = max_attempts")
      case True
      then have "n = 0" using n by simp
      with t have "rs = []" "\<not> ok" by simp_all
      with True Some le tt show ?thesis
        by (simp add: attempt_loop.simps [of d max_attempts] post_def Let_def log_attempt_def outcomes_def)
    next
      case False
      then have "n \<noteq> 0" using n le by simp
      have "\<not> ok \<Longrightarrow> rs \<noteq> []" using tries_failed [of "nw_replies net" "Suc ?i" n] t \<open>n \<noteq> 0\<close> by auto
      with False Some le tt \<open>n \<noteq> 0\<close> show ?thesis
        using Suc.IH [OF n, of "(rs, ok)" ?net "log_attempt d (Some reason) attempt db"] t
        by (simp add: attempt_loop.simps [of d attempt] post_def Let_def log_attempt_def outcomes_def)
    qed
  qed
qed

lemma deliver_spec:
  assumes "dv_active d" "0 < max_attempts"
    and "t = tries (nw_replies net) (length (nw_sent net)) (nat max_attempts)"
  shows "deliver_with_retry d max_attempts (db, net) =
     (snd t,
      (if snd t then id else dead_letter d (last (fst t)) max_attempts)
        (db\<lparr>db_attempts := db_attempts db @ attempt_rows d (db_now db) 1 (outcomes t)\<rparr>),
      net\<lparr>nw_sent := nw_sent net @ replicate (length (outcomes t)) (dv_target_url d, dv_payload d)\<rparr>)"
  using attempt_loop_spec [of "nat max_attempts" max_attempts 1 t net d db] assms
  by (simp add: deliver_with_retry_def)

section \<open>The dead letter queue holds one row per event and consumer\<close>

definition dlq_key :: "dlq_row \<Rightarrow> string \<times> string" where
  "dlq_key r = (dq_event_id r, dq_consumer_id r)"

definition dlq_ok :: "database \<Rightarrow> bool" where
  "dlq_ok db \<longleftrightarrow> distinct (map dlq_key (db_dlq db))"

lemma upsert_dlq_keys:
  "map dlq_key (db_dlq (upsert_dlq e c ep url p reason n db)) =
     (if (e, c) \<in> dlq_key ` set (db_dlq db) then map dlq_key (db_dlq db) else map dlq_key (db_dlq db) @ [(e, c)])"
proof -
  have "list_ex (\<lambda>r. (dq_event_id r, dq_consumer_id r) = (e, c)) (db_dlq db) \<longleftrightarrow> (e, c) \<in> dlq_key ` set (db_dlq db)"
    by (auto simp: list_ex_iff dlq_key_def)
  then show ?thesis
    by (simp add: upsert_dlq_def Let_def) (simp add: dlq_key_def map_update_rows)
qed

lemma upsert_dlq_key_set:
  "dlq_key ` set (db_dlq (upsert_dlq e c ep url p reason n db)) = insert (e, c) (dlq_key ` set (db_dlq db))"
  using arg_cong [OF upsert_dlq_keys [of e c ep url p reason n db], of set] by (auto split: if_splits)

lemma dlq_ok_upsert: "dlq_ok db \<Longrightarrow> dlq_ok (upsert_dlq e c ep url p reason n db)"
  by (simp add: dlq_ok_def upsert_dlq_keys)

lemma upsert_dlq_count:
  assumes "r \<in> set (db_dlq db)"
  shows "\<exists>r' \<in> set (db_dlq (upsert_dlq e c ep url p reason n db)).
    dlq_key r' = dlq_key r \<and> dq_attempt_count r \<le> dq_attempt_count r' \<and> (dlq_key r = (e, c) \<longrightarrow> n \<le> dq_attempt_count r')"
proof (cases "dlq_key r = (e, c)")
  case True
  let ?r = "r\<lparr>dq_failure_reason := reason, dq_attempt_count := max (dq_attempt_count r) n, dq_last_attempt_at := db_now db\<rparr>"
  from True assms have "list_ex (\<lambda>r. (dq_event_id r, dq_consumer_id r) = (e, c)) (db_dlq db)"
    by (auto simp: list_ex_iff dlq_key_def)
  then have "?r \<in> set (db_dlq (upsert_dlq e c ep url p reason n db))"
    using True assms by (auto simp: upsert_dlq_def Let_def set_update_rows dlq_key_def intro!: image_eqI [of _ _ r])
  then show ?thesis by (rule rev_bexI) (simp add: dlq_key_def)
next
  case False
  then have "r \<in> set (db_dlq (upsert_dlq e c ep url p reason n db))"
    using assms by (auto simp: upsert_dlq_def Let_def set_update_rows dlq_key_def intro!: image_eqI [of _ _ r])
  then show ?thesis using False by (intro rev_bexI [of r]) simp_all
qed

lemma upsert_dlq_frame [simp]:
  "db_outbox (upsert_dlq e c ep url p reason n db) = db_outbox db"
  "db_subscriptions (upsert_dlq e c ep url p reason n db) = db_subscriptions db"
  "db_now (upsert_dlq e c ep url p reason n db) = db_now db"
  "db_attempts (upsert_dlq e c ep url p reason n db) = db_attempts db"
  "db_versions (upsert_dlq e c ep url p reason n db) = db_versions db"
  "db_endpoints (upsert_dlq e c ep url p reason n db) = db_endpoints db"
  "db_uuid (upsert_dlq e c ep url p reason n db) = db_uuid db"
  "db_jsonb (upsert_dlq e c ep url p reason n db) = db_jsonb db"
  by (simp_all add: upsert_dlq_def Let_def)

lemma dead_letter_frame [simp]:
  "db_outbox (dead_letter d reason n db) = db_outbox db"
  "db_subscriptions (dead_letter d reason n db) = db_subscriptions db"
  "db_now (dead_letter d reason n db) = db_now db"
  "db_attempts (dead_letter d reason n db) = db_attempts db"
  by (simp_all add: dead_letter_def)

lemma attempt_rows_fields:
  "length (attempt_rows d now a rs) = length rs"
  "map at_success (attempt_rows d now a rs) = map (\<lambda>r. r = None) rs"
  "map at_attempt_count (attempt_rows d now a rs) = map (\<lambda>i. a + int i) [0..<length rs]"
proof -
  show "length (attempt_rows d now a rs) = length rs" by (simp add: attempt_rows_def)
  show "map at_success (attempt_rows d now a rs) = map (\<lambda>r. r = None) rs"
    by (induction rs arbitrary: a) simp_all
  show "map at_attempt_count (attempt_rows d now a rs) = map (\<lambda>i. a + int i) [0..<length rs]"
    by (rule nth_equalityI) (simp_all add: attempt_rows_def nth_enumerate_eq)
qed

lemma outcomes_success: "map (\<lambda>r. r = None) (outcomes t) = replicate (length (fst t)) False @ (if snd t then [True] else [])"
  by (simp add: outcomes_def map_replicate_const [symmetric] comp_def del: map_replicate_const)

section \<open>The channel the callers rely on\<close>

text \<open>
  The outbox worker, the inline delivery and the replay all send with one attempt. What they rely on:
  nothing is sent for an inactive subscription, one post is made otherwise, and the tables the
  callers own (\<open>rest\<close>) are left alone.
\<close>

locale channel =
  fixes send :: "'d \<Rightarrow> 'w \<Rightarrow> bool \<times> 'w"
    and active :: "'d \<Rightarrow> bool"
    and posted :: "'w \<Rightarrow> nat"
    and rest :: "'w \<Rightarrow> 'r"
  assumes silent: "\<not> active d \<Longrightarrow> send d w = (False, w)"
    and single: "active d \<Longrightarrow> send d w = (ok, w') \<Longrightarrow> posted w' = Suc (posted w)"
    and frame: "send d w = (ok, w') \<Longrightarrow> rest w' = rest w"
begin

lemma posts: "send d w = (ok, w') \<Longrightarrow> posted w' = posted w + (if active d then 1 else 0)"
  by (cases "active d") (auto simp: silent single)

lemma success_posts: "send d w = (True, w') \<Longrightarrow> posted w' = Suc (posted w)"
  by (cases "active d") (auto simp: silent single)

fun send_all :: "'d list \<Rightarrow> 'w \<Rightarrow> 'w" where
  "send_all [] w = w"
| "send_all (d # ds) w = send_all ds (snd (send d w))"

lemma send_all_posts: "posted (send_all ds w) = posted w + length (filter active ds)"
proof (induction ds w rule: send_all.induct)
  case (2 d ds w)
  then show ?case by (cases "send d w") (auto dest: posts)
qed simp

lemma send_all_frame: "rest (send_all ds w) = rest w"
proof (induction ds w rule: send_all.induct)
  case (2 d ds w)
  then show ?case by (cases "send d w") (auto dest: frame)
qed simp

end

lemma deliver_once:
  assumes "dv_active d"
  shows "deliver_with_retry d 1 (db, net) =
    (let f = failure_of (nw_replies net (length (nw_sent net))); db1 = log_attempt d f 1 db in
     (f = None, (case f of None \<Rightarrow> db1 | Some reason \<Rightarrow> dead_letter d reason 1 db1),
      net\<lparr>nw_sent := nw_sent net @ [(dv_target_url d, dv_payload d)]\<rparr>))"
  using assms
  by (simp add: deliver_with_retry_def attempt_loop.simps post_def Let_def split: option.split)

interpretation webhook: channel "\<lambda>d w. deliver_with_retry d 1 w" dv_active
  "\<lambda>w. length (nw_sent (snd w))"
  "\<lambda>w. (db_outbox (fst w), db_subscriptions (fst w), db_now (fst w), nw_replies (snd w))"
proof unfold_locales
  fix d :: delivery and w w' :: "database \<times> network" and ok
  obtain db net where w: "w = (db, net)" by (cases w)
  show "\<not> dv_active d \<Longrightarrow> deliver_with_retry d 1 w = (False, w)"
    by (simp add: deliver_with_retry_def)
  show "dv_active d \<Longrightarrow> deliver_with_retry d 1 w = (ok, w') \<Longrightarrow>
      length (nw_sent (snd w')) = Suc (length (nw_sent (snd w)))"
    by (auto simp: w deliver_once Let_def)
  show "deliver_with_retry d 1 w = (ok, w') \<Longrightarrow>
      (db_outbox (fst w'), db_subscriptions (fst w'), db_now (fst w'), nw_replies (snd w')) =
      (db_outbox (fst w), db_subscriptions (fst w), db_now (fst w), nw_replies (snd w))"
  proof (cases "dv_active d")
    case True
    assume "deliver_with_retry d 1 w = (ok, w')"
    then show ?thesis
      by (auto simp: w deliver_once [OF True] Let_def log_attempt_def split: option.splits)
  qed (simp add: deliver_with_retry_def)
qed

section \<open>Properties\<close>

text \<open>
  The attempts of a delivery: it stops at the first success, all but its last fail, and one that
  never succeeds uses every attempt.
\<close>

lemma tries_stop_early: "snd (tries f i n) \<Longrightarrow> length (fst (tries f i n)) < n"
  by (induction f i n rule: tries.induct) (auto split: option.splits prod.splits)

lemma attempts_made:
  assumes "t = tries f i n" "0 < n"
  shows "1 \<le> length (outcomes t)" "length (outcomes t) \<le> n" "\<not> snd t \<Longrightarrow> length (outcomes t) = n"
    and "map at_success (attempt_rows d now k (outcomes t)) = replicate (length (outcomes t) - 1) False @ [snd t]"
proof -
  have len: "length (outcomes t) = length (fst t) + (if snd t then 1 else 0)" by (simp add: outcomes_def)
  have fail: "\<not> snd t \<Longrightarrow> length (fst t) = n" unfolding assms(1) by (rule tries_failed)
  have "snd t \<Longrightarrow> length (fst t) < n" unfolding assms(1) by (rule tries_stop_early)
  with fail show "1 \<le> length (outcomes t)" "length (outcomes t) \<le> n" "\<not> snd t \<Longrightarrow> length (outcomes t) = n"
    using assms(2) by (auto simp: len)
  show "map at_success (attempt_rows d now k (outcomes t)) = replicate (length (outcomes t) - 1) False @ [snd t]"
  proof (cases "snd t")
    case False
    then obtain m where "length (fst t) = Suc m" using fail assms(2) by (cases "length (fst t)") auto
    with False show ?thesis by (simp add: attempt_rows_fields outcomes_success len replicate_append_same)
  qed (simp add: attempt_rows_fields outcomes_success len)
qed

text \<open>
  C8. A delivery posts the payload to the subscriber until a post is answered with a 2xx status, at
  most \<open>max_attempts\<close> times, and says whether one was. It logs every post, numbered from 1, failed
  but for the last one of a success. When all fail, and only then, the event of this consumer enters
  the dead letter queue, if asked to; the queue keeps one row per event and consumer. A subscription
  that is not active gets nothing, and nothing is logged.
\<close>

theorem delivery_contract:
  assumes "0 < max_attempts" "deliver_with_retry d max_attempts (db, net) = (ok, db', net')" "dlq_ok db"
  shows "if \<not> dv_active d then \<not> ok \<and> db' = db \<and> net' = net
    else (ok \<longleftrightarrow> (\<exists>j < nat max_attempts. failure_of (nw_replies net (length (nw_sent net) + j)) = None)) \<and>
      (\<exists>k rows. 1 \<le> k \<and> k \<le> nat max_attempts \<and> (\<not> ok \<longrightarrow> k = nat max_attempts) \<and>
        nw_sent net' = nw_sent net @ replicate k (dv_target_url d, dv_payload d) \<and>
        db_attempts db' = db_attempts db @ rows \<and>
        map at_attempt_count rows = map (\<lambda>i. 1 + int i) [0..<k] \<and>
        map at_success rows = replicate (k - 1) False @ [ok]) \<and>
      (ok \<or> \<not> dv_persist_dlq d \<longrightarrow> db_dlq db' = db_dlq db) \<and>
      (\<not> ok \<and> dv_persist_dlq d \<longrightarrow> (dv_event_id d, dv_consumer_id d) \<in> dlq_key ` set (db_dlq db')) \<and> dlq_ok db'"
proof (cases "dv_active d")
  case False
  with assms(2) show ?thesis by (simp add: deliver_with_retry_def)
next
  case True
  let ?i = "length (nw_sent net)"
  define t where "t = tries (nw_replies net) ?i (nat max_attempts)"
  let ?rows = "attempt_rows d (db_now db) 1 (outcomes t)"
  have eqs: "ok = snd t" "net' = net\<lparr>nw_sent := nw_sent net @ replicate (length (outcomes t)) (dv_target_url d, dv_payload d)\<rparr>"
    "db' = (if snd t then id else dead_letter d (last (fst t)) max_attempts) (db\<lparr>db_attempts := db_attempts db @ ?rows\<rparr>)"
    using deliver_spec [OF True assms(1) t_def, of db] assms(2) by auto
  have ok: "ok \<longleftrightarrow> (\<exists>j < nat max_attempts. failure_of (nw_replies net (?i + j)) = None)"
    unfolding eqs(1) t_def by (rule tries_success)
  let ?k = "length (outcomes t)"
  have pos: "0 < nat max_attempts" using assms(1) by simp
  note made = attempts_made [OF t_def pos]
  have k: "1 \<le> ?k" "?k \<le> nat max_attempts" "\<not> ok \<longrightarrow> ?k = nat max_attempts" using made(1-3) eqs(1) by auto
  have f1: "map at_success ?rows = replicate (?k - 1) False @ [ok]" unfolding eqs(1) by (rule made(4))
  have f2: "db_attempts db' = db_attempts db @ ?rows" by (simp add: eqs(3))
  have f3: "map at_attempt_count ?rows = map (\<lambda>i. 1 + int i) [0..<?k]" by (rule attempt_rows_fields)
  have f4: "nw_sent net' = nw_sent net @ replicate ?k (dv_target_url d, dv_payload d)" by (simp add: eqs(2))
  have f5: "ok \<or> \<not> dv_persist_dlq d \<longrightarrow> db_dlq db' = db_dlq db"
    by (auto simp: eqs(1,3) dead_letter_def)
  have f6: "\<not> ok \<and> dv_persist_dlq d \<longrightarrow> (dv_event_id d, dv_consumer_id d) \<in> dlq_key ` set (db_dlq db')"
    by (simp add: eqs(1,3) dead_letter_def upsert_dlq_key_set)
  have f7: "dlq_ok db'"
    using assms(3) by (auto simp: eqs(3) dead_letter_def dlq_ok_def upsert_dlq_keys)
  have ex: "\<exists>k rows. 1 \<le> k \<and> k \<le> nat max_attempts \<and> (\<not> ok \<longrightarrow> k = nat max_attempts) \<and>
        nw_sent net' = nw_sent net @ replicate k (dv_target_url d, dv_payload d) \<and>
        db_attempts db' = db_attempts db @ rows \<and>
        map at_attempt_count rows = map (\<lambda>i. 1 + int i) [0..<k] \<and>
        map at_success rows = replicate (k - 1) False @ [ok]"
    by (rule exI [of _ ?k], rule exI [of _ ?rows], intro conjI) (fact k f1 f2 f3 f4)+
  show ?thesis
    unfolding if_not_P [OF not_not [THEN iffD2, OF True]]
    by (intro conjI) (fact ok ex f5 f6 f7)+
qed

definition flaky :: "reply list \<Rightarrow> network" where
  "flaky rs = \<lparr>nw_replies = \<lambda>i. if i < length rs then rs ! i else Status 200, nw_sent = []\<rparr>"

definition example_delivery :: delivery where
  "example_delivery = \<lparr>dv_event_id = ''ev'', dv_endpoint_id = ''e1'', dv_consumer_id = ''billing'',
     dv_target_url = ''http://billing/hook'', dv_active = True, dv_payload = JObj [], dv_persist_dlq = True,
     dv_now = ''now''\<rparr>"

theorem delivery_contract_witness:
  "\<exists>ok db' net'. deliver_with_retry example_delivery 3 (empty_db show_nat 0 sort_keys, flaky [Status 500, Raised ''ReadTimeout: '', Status 404])
     = (ok, db', net') \<and> \<not> ok \<and> length (nw_sent net') = 3 \<and> (''ev'', ''billing'') \<in> dlq_key ` set (db_dlq db')"
proof -
  let ?net = "flaky [Status 500, Raised ''ReadTimeout: '', Status 404]"
  obtain ok db' net' where d: "deliver_with_retry example_delivery 3 (empty_db show_nat 0 sort_keys, ?net) = (ok, db', net')"
    by (metis prod.collapse)
  have r: "failure_of (nw_replies ?net j) \<noteq> None" if "j < 3" for j
  proof -
    have "j = 0 \<or> j = 1 \<or> j = 2" using that by linarith
    then show ?thesis by (auto simp: flaky_def failure_of_def)
  qed
  have eqs: "nw_sent ?net = []" "dv_active example_delivery" "dv_persist_dlq example_delivery"
    "dv_event_id example_delivery = ''ev''" "dv_consumer_id example_delivery = ''billing''"
    by (simp_all add: flaky_def example_delivery_def)
  have "0 < (3::int)" "dlq_ok (empty_db show_nat 0 sort_keys)" by (simp_all add: dlq_ok_def empty_db_def)
  note c = delivery_contract [OF this(1) d this(2)]
  then have "ok \<longleftrightarrow> (\<exists>j < 3. failure_of (nw_replies ?net j) = None)" by (simp add: eqs)
  then have "\<not> ok" using r by auto
  with c eqs have "length (nw_sent net') = 3" "(''ev'', ''billing'') \<in> dlq_key ` set (db_dlq db')" by auto
  with d \<open>\<not> ok\<close> show ?thesis by blast
qed

text \<open>
  Replaying a dead letter posts at most once, to the consumer's newest subscription of the
  endpoint, with the stored event; it never removes or changes an entry of the queue, so a replayed
  entry can be replayed, and delivered, again; when the post fails the answer repeats the reason
  stored in the queue, whatever the new one is. The artifact is stored after the post, so a store
  that raises turns even a successful replay into an error. An unknown entry is answered with 404
  and a missing subscription with an error, both without a post.
\<close>

theorem replay_keeps_the_queue:
  "case get_dlq_entry db i of
     None \<Rightarrow> replay_webhook_dlq store i now (db, net) docs = (Inl (HTTPException 404 ''dlq entry not found''), (db, net), docs)
   | Some entry \<Rightarrow>
       (case newest_subscription db (dq_endpoint_id entry) (dq_consumer_id entry) of
          None \<Rightarrow> replay_webhook_dlq store i now (db, net) docs =
            (Inr (Replay_error ''subscription_not_found'' (Some entry)), (db, net), docs)
        | Some sub \<Rightarrow>
            \<exists>a db' net' docs'. replay_webhook_dlq store i now (db, net) docs =
                (case fst (store_artifact store a docs) of Some e \<Rightarrow> Inl e | None \<Rightarrow> Inr (Replay_done a),
                 (db', net'), docs') \<and>
              db_dlq db' = db_dlq db \<and> db_subscriptions db' = db_subscriptions db \<and>
              nw_sent net' = nw_sent net @
                (if sub_active sub then [(sub_target_url sub, replay_payload (dq_payload entry))] else []) \<and>
              (ra_replayed a \<longleftrightarrow> sub_active sub \<and> failure_of (nw_replies net (length (nw_sent net))) = None) \<and>
              ra_failure_reason a = (if ra_replayed a then None else Some (dq_failure_reason entry)))"
proof (cases "get_dlq_entry db i")
  case None
  then show ?thesis by (simp add: replay_webhook_dlq_def replay_dlq_entry_def)
next
  case entry: (Some entry)
  show ?thesis
  proof (cases "newest_subscription db (dq_endpoint_id entry) (dq_consumer_id entry)")
    case None
    with entry show ?thesis by (simp add: replay_webhook_dlq_def replay_dlq_entry_def)
  next
    case (Some sub)
    let ?d = "\<lparr>dv_event_id = dq_event_id entry, dv_endpoint_id = dq_endpoint_id entry,
        dv_consumer_id = sub_consumer_id sub, dv_target_url = sub_target_url sub,
        dv_active = sub_active sub, dv_payload = replay_payload (dq_payload entry),
        dv_persist_dlq = False, dv_now = now\<rparr>"
    obtain ok db' net' where r: "deliver_with_retry ?d 1 (db, net) = (ok, db', net')" by (metis prod.collapse)
    let ?a = "\<lparr>ra_dlq_id = i, ra_event_id = dq_event_id entry, ra_consumer_id = dq_consumer_id entry,
        ra_endpoint_id = dq_endpoint_id entry, ra_target_url = dq_target_url entry, ra_replayed = ok,
        ra_failure_reason = (if ok then None else Some (dq_failure_reason entry)), ra_replayed_at = now\<rparr>"
    have "replay_webhook_dlq store i now (db, net) docs =
        (case fst (store_artifact store ?a docs) of Some e \<Rightarrow> Inl e | None \<Rightarrow> Inr (Replay_done ?a),
         (db', net'), snd (store_artifact store ?a docs))"
      using entry Some r
      by (cases "store_artifact store ?a docs") (simp add: replay_webhook_dlq_def replay_dlq_entry_def split: option.split)
    moreover have "db_dlq db' = db_dlq db \<and> db_subscriptions db' = db_subscriptions db \<and>
        nw_sent net' = nw_sent net @
          (if sub_active sub then [(sub_target_url sub, replay_payload (dq_payload entry))] else []) \<and>
        (ok \<longleftrightarrow> sub_active sub \<and> failure_of (nw_replies net (length (nw_sent net))) = None)"
    proof (cases "sub_active sub")
      case False
      with r show ?thesis by (simp add: deliver_with_retry_def)
    next
      case True
      then have "dv_active ?d" by simp
      from deliver_spec [OF this, of 1 _ net db, OF _ refl] True r show ?thesis
        by (auto simp: dead_letter_def outcomes_def Let_def split: option.splits)
    qed
    moreover have "ra_replayed ?a = ok" "ra_failure_reason ?a = (if ra_replayed ?a then None else Some (dq_failure_reason entry))"
      by simp_all
    ultimately show ?thesis unfolding entry Some option.case by metis
  qed
qed

end
