(* ===== verification/Outbox_Worker.thy ===== *)
theory Outbox_Worker
  imports Webhook
begin

text \<open>
  \<open>app/workers/outbox_worker.py\<close>: the worker that polls the outbox table, claims due rows, delivers
  each once and settles it: delivered, failed for good, or pending again after a pause. A commit
  follows every change of status, so a claimed row is durable as DELIVERING before it is delivered.
  \<open>env\<close> holds what the worker asks its environment for: the text of the time, a fresh event id, and
  \<open>json.loads\<close> on a payload that is not an object (\<open>None\<close>: it raises).
\<close>

section \<open>Definitions\<close>

definition backoff_seconds :: "int \<Rightarrow> int" where
  "backoff_seconds attempts = min 60 (2 ^ nat (max 1 attempts))"

record env =
  env_now :: string
  env_uuid :: string
  env_loads :: "string \<Rightarrow> json option"

definition update_outbox :: "uuid \<Rightarrow> (outbox_row \<Rightarrow> outbox_row) \<Rightarrow> database \<Rightarrow> database" where
  "update_outbox i f db =
     db\<lparr>db_outbox := update_rows (\<lambda>r. ob_id r = i) (\<lambda>r. (f r)\<lparr>ob_updated_at := db_now db\<rparr>) (db_outbox db)\<rparr>"

definition event_id_of :: "env \<Rightarrow> json \<Rightarrow> string" where
  "event_id_of env payload =
     (case payload of
        JObj kvs \<Rightarrow>
          (case map_of kvs ''event_id'' of
             None \<Rightarrow> env_uuid env
           | Some v \<Rightarrow> if truthy v then py_str v else env_uuid env)
      | _ \<Rightarrow> env_uuid env)"

definition event_body :: "env \<Rightarrow> json \<Rightarrow> py_exc + json" where
  "event_body env payload =
     (case payload of
        JObj kvs \<Rightarrow> Inr payload
      | JStr s \<Rightarrow> (case env_loads env s of None \<Rightarrow> Inl JSONDecodeError | Some v \<Rightarrow> Inr v)
      | _ \<Rightarrow> Inl (TypeError ''the JSON object must be str, bytes or bytearray''))"

definition due_rows :: "database \<Rightarrow> int \<Rightarrow> outbox_row list" where
  "due_rows db batch_size =
     limit_rows batch_size (order_asc ob_created_at
       (filter (\<lambda>r. ob_status r = PENDING \<and> ob_next_retry_at r \<le> db_now db) (db_outbox db)))"

definition outbox_subscription :: "database \<Rightarrow> uuid \<Rightarrow> subscription option" where
  "outbox_subscription db sub_id' = first_row (filter (\<lambda>r. sub_id r = sub_id') (db_subscriptions db))"

text \<open>Lines 98-148: the row is settled by the outcome of the delivery.\<close>

definition settle_item ::
  "env \<Rightarrow> outbox_row \<Rightarrow> subscription \<Rightarrow> bool \<Rightarrow> database \<Rightarrow> database" where
  "settle_item env item sub ok db =
     (if ok then
        update_outbox (ob_id item) (\<lambda>r. r\<lparr>ob_status := DELIVERED, ob_attempts := ob_attempts r + 1\<rparr>) db
      else
        let next_attempt = ob_attempts item + 1 in
        if ob_max_attempts item \<le> next_attempt then
          upsert_dlq (event_id_of env (ob_payload item)) (sub_consumer_id sub) (ob_endpoint_id item)
            (sub_target_url sub)
            (JObj [(''event'', ob_payload item), (''failed_at'', JStr (env_now env))])
            ''outbox max attempts exhausted'' next_attempt
            (update_outbox (ob_id item) (\<lambda>r. r\<lparr>ob_status := FAILED, ob_attempts := next_attempt\<rparr>) db)
        else
          update_outbox (ob_id item) (\<lambda>r. r\<lparr>ob_status := PENDING, ob_attempts := next_attempt,
            ob_next_retry_at := db_now db + backoff_seconds next_attempt\<rparr>) db)"

text \<open>The body of the loop; \<open>Some e\<close>: it raised, and what was committed before stays.\<close>

definition process_item ::
  "env \<Rightarrow> outbox_row \<Rightarrow> database \<times> network \<Rightarrow> py_exc option \<times> database \<times> network" where
  "process_item env item w =
     (let db1 = update_outbox (ob_id item) (\<lambda>r. r\<lparr>ob_status := DELIVERING\<rparr>) (fst w) in
      case outbox_subscription db1 (ob_subscription_id item) of
        None \<Rightarrow> (None, update_outbox (ob_id item) (\<lambda>r. r\<lparr>ob_status := FAILED\<rparr>) db1, snd w)
      | Some sub \<Rightarrow>
          (case event_body env (ob_payload item) of
             Inl e \<Rightarrow> (Some e, db1, snd w)
           | Inr body \<Rightarrow>
               let (ok, db2, net2) = deliver_with_retry
                     \<lparr>dv_event_id = event_id_of env (ob_payload item), dv_endpoint_id = ob_endpoint_id item,
                      dv_consumer_id = sub_consumer_id sub, dv_target_url = sub_target_url sub,
                      dv_active = sub_active sub, dv_payload = body, dv_persist_dlq = False,
                      dv_now = env_now env\<rparr> 1 (db1, snd w)
               in (None, settle_item env item sub ok db2, net2)))"

fun process_items ::
  "env \<Rightarrow> outbox_row list \<Rightarrow> int \<Rightarrow> database \<times> network \<Rightarrow> (py_exc + int) \<times> database \<times> network" where
  "process_items env [] processed w = (Inr processed, w)"
| "process_items env (item # items) processed w =
     (case process_item env item w of
        (Some e, w1) \<Rightarrow> (Inl e, w1)
      | (None, w1) \<Rightarrow> process_items env items (processed + 1) w1)"

definition poll_once :: "env \<Rightarrow> int \<Rightarrow> database \<times> network \<Rightarrow> (py_exc + int) \<times> database \<times> network" where
  "poll_once env batch_size w = process_items env (due_rows (fst w) batch_size) 0 w"

text \<open>
  \<open>run_outbox_worker\<close> over a list of polling times: an exception of a poll is logged and the loop
  goes on.
\<close>

fun run_outbox_worker :: "env \<Rightarrow> int list \<Rightarrow> database \<times> network \<Rightarrow> database \<times> network" where
  "run_outbox_worker env [] w = w"
| "run_outbox_worker env (t # ts) w =
     run_outbox_worker env ts (snd (poll_once env 50 ((fst w)\<lparr>db_now := t\<rparr>, snd w)))"

section \<open>One row\<close>

text \<open>What a poll may do to a row.\<close>

inductive row_step :: "int \<Rightarrow> outbox_row \<Rightarrow> outbox_row \<Rightarrow> bool" for now where
  delivered: "ob_status r = PENDING \<Longrightarrow>
     row_step now r (r\<lparr>ob_status := DELIVERED, ob_attempts := ob_attempts r + 1, ob_updated_at := now\<rparr>)"
| orphaned: "ob_status r = PENDING \<Longrightarrow>
     row_step now r (r\<lparr>ob_status := FAILED, ob_updated_at := now\<rparr>)"
| exhausted: "ob_status r = PENDING \<Longrightarrow> ob_max_attempts r \<le> ob_attempts r + 1 \<Longrightarrow>
     row_step now r (r\<lparr>ob_status := FAILED, ob_attempts := ob_attempts r + 1, ob_updated_at := now\<rparr>)"
| again: "ob_status r = PENDING \<Longrightarrow> ob_attempts r + 1 < ob_max_attempts r \<Longrightarrow>
     row_step now r (r\<lparr>ob_status := PENDING, ob_attempts := ob_attempts r + 1,
       ob_next_retry_at := now + backoff_seconds (ob_attempts r + 1), ob_updated_at := now\<rparr>)"
| stuck: "ob_status r = PENDING \<Longrightarrow> \<not> is_obj (ob_payload r) \<Longrightarrow>
     row_step now r (r\<lparr>ob_status := DELIVERING, ob_updated_at := now\<rparr>)"

inductive_cases row_stepE: "row_step now r r'"

lemma row_step_pending: "row_step now r r' \<Longrightarrow> ob_status r = PENDING"
  by (erule row_stepE)

lemma row_step_frame:
  "row_step now r r' \<Longrightarrow> ob_id r' = ob_id r \<and> ob_payload r' = ob_payload r \<and>
     ob_max_attempts r' = ob_max_attempts r \<and> ob_subscription_id r' = ob_subscription_id r
     \<and> ob_endpoint_id r' = ob_endpoint_id r \<and> ob_created_at r' = ob_created_at r"
  by (erule row_stepE) auto

lemma backoff_bounds: "2 \<le> backoff_seconds n \<and> backoff_seconds n \<le> 60"
proof -
  have "(2::int) ^ 1 \<le> 2 ^ nat (max 1 n)" by (rule power_increasing) auto
  then show ?thesis by (simp add: backoff_seconds_def)
qed

lemma backoff_mono: "m \<le> n \<Longrightarrow> backoff_seconds m \<le> backoff_seconds n"
proof -
  assume "m \<le> n"
  then have "(2::int) ^ nat (max 1 m) \<le> 2 ^ nat (max 1 n)" by (intro power_increasing) auto
  then show ?thesis unfolding backoff_seconds_def by (rule min.mono [OF order_refl])
qed

lemma update_outbox_frame [simp]:
  "db_subscriptions (update_outbox i f db) = db_subscriptions db" "db_now (update_outbox i f db) = db_now db"
  "db_outbox (update_outbox i f db) =
     update_rows (\<lambda>r. ob_id r = i) (\<lambda>r. (f r)\<lparr>ob_updated_at := db_now db\<rparr>) (db_outbox db)"
  by (simp_all add: update_outbox_def)

lemma settle_item_frame [simp]:
  "db_subscriptions (settle_item env item sub ok db) = db_subscriptions db"
  "db_now (settle_item env item sub ok db) = db_now db"
  by (simp_all add: settle_item_def Let_def)

text \<open>Ids are distinct and never changed: updating by id is replacing one row.\<close>

lemma update_rows_at:
  assumes "distinct (map ob_id rows)" "r \<in> set rows"
  shows "update_rows (\<lambda>q. ob_id q = ob_id r) f rows = update_rows (\<lambda>q. q = r) f rows"
proof -
  have "ob_id q = ob_id r \<longleftrightarrow> q = r" if "q \<in> set rows" for q
    using assms that by (auto simp: distinct_map inj_on_def)
  then show ?thesis by (simp add: update_rows_def)
qed

definition replace_row :: "'r \<Rightarrow> 'r \<Rightarrow> 'r list \<Rightarrow> 'r list" where
  "replace_row r r' rows = update_rows (\<lambda>q. q = r) (\<lambda>_. r') rows"

lemma update_at_replace:
  assumes "distinct (map ob_id rows)" "r \<in> set rows"
  shows "update_rows (\<lambda>q. ob_id q = ob_id r) f rows = replace_row r (f r) rows"
  unfolding update_rows_at [OF assms] by (auto simp: replace_row_def update_rows_def)

lemma update_after_replace:
  assumes "distinct (map ob_id rows)" "r \<in> set rows" "ob_id r1 = ob_id r"
  shows "update_rows (\<lambda>q. ob_id q = ob_id r) f (replace_row r r1 rows) = replace_row r (f r1) rows"
proof -
  have "ob_id q = ob_id r \<longleftrightarrow> q = r" if "q \<in> set rows" for q
    using assms that by (auto simp: distinct_map inj_on_def)
  then show ?thesis using assms(3) by (auto simp: replace_row_def update_rows_def)
qed

text \<open>One iteration: the claimed row makes a step, everything else the worker reads stays.\<close>

lemma process_item_step:
  assumes "distinct (map ob_id (db_outbox db))" "r \<in> set (db_outbox db)" "ob_status r = PENDING"
    and "process_item env r (db, net) = (e, db', net')"
  shows "\<exists>r'. row_step (db_now db) r r' \<and> db_outbox db' = replace_row r r' (db_outbox db) \<and>
    db_subscriptions db' = db_subscriptions db \<and> db_now db' = db_now db \<and>
    length (nw_sent net') \<le> Suc (length (nw_sent net)) \<and>
    (ob_status r' = DELIVERED \<longrightarrow> length (nw_sent net') = Suc (length (nw_sent net))) \<and>
    (is_obj (ob_payload r) \<longrightarrow> e = None \<and> ob_status r' \<noteq> DELIVERING)"
proof -
  let ?up = "\<lambda>f. replace_row r ((f r)\<lparr>ob_updated_at := db_now db\<rparr>) (db_outbox db)"
  let ?db1 = "update_outbox (ob_id r) (\<lambda>r. r\<lparr>ob_status := DELIVERING\<rparr>) db"
  have up1: "db_outbox ?db1 = ?up (\<lambda>r. r\<lparr>ob_status := DELIVERING\<rparr>)"
    by (simp add: update_at_replace [OF assms(1,2)])
  have up2: "db_outbox (update_outbox (ob_id r) f db2) = ?up (\<lambda>r. f (r\<lparr>ob_status := DELIVERING, ob_updated_at := db_now db\<rparr>))"
    if "db_outbox db2 = db_outbox ?db1" "db_now db2 = db_now db" for f db2
    using that by (simp add: update_at_replace [OF assms(1,2)] update_after_replace [OF assms(1,2)])
  show ?thesis
  proof (cases "outbox_subscription ?db1 (ob_subscription_id r)")
    case None
    with assms(4) have eqs: "e = None" "net' = net" "db' = update_outbox (ob_id r) (\<lambda>r. r\<lparr>ob_status := FAILED\<rparr>) ?db1"
      by (auto simp: process_item_def Let_def)
    show ?thesis
      by (rule exI, rule conjI, rule orphaned [OF assms(3)]) (simp add: eqs up2 [OF refl] del: update_outbox_frame(3))
  next
    case sub: (Some sub)
    show ?thesis
    proof (cases "event_body env (ob_payload r)")
      case (Inl x)
      then have no: "\<not> is_obj (ob_payload r)" by (auto simp: event_body_def is_obj_def split: json.splits)
      from Inl sub assms(4) have eqs: "net' = net" "db' = ?db1"
        by (auto simp: process_item_def Let_def)
      show ?thesis
        by (rule exI, rule conjI, rule stuck [OF assms(3) no]) (simp add: eqs up1 no del: update_outbox_frame(3))
    next
      case (Inr body)
      let ?d = "\<lparr>dv_event_id = event_id_of env (ob_payload r), dv_endpoint_id = ob_endpoint_id r,
          dv_consumer_id = sub_consumer_id sub, dv_target_url = sub_target_url sub,
          dv_active = sub_active sub, dv_payload = body, dv_persist_dlq = False, dv_now = env_now env\<rparr>"
      obtain ok db2 net2 where d: "deliver_with_retry ?d 1 (?db1, net) = (ok, db2, net2)" by (metis prod.collapse)
      from Inr sub assms(4) d have eqs: "e = None" "net' = net2" "db' = settle_item env r sub ok db2"
        by (auto simp: process_item_def Let_def)
      have fr: "db_outbox db2 = db_outbox ?db1" "db_subscriptions db2 = db_subscriptions db" "db_now db2 = db_now db"
        using webhook.frame [OF d] by simp_all
      have posts: "length (nw_sent net2) \<le> Suc (length (nw_sent net))" "ok \<Longrightarrow> length (nw_sent net2) = Suc (length (nw_sent net))"
        using webhook.posts [OF d] webhook.success_posts [of ?d "(?db1, net)"] d by (simp_all split: if_splits)
      note simps = eqs fr posts settle_item_def Let_def up2 [OF fr(1,3)]
      show ?thesis
      proof (cases ok)
        case True
        show ?thesis
          by (rule exI, rule conjI, rule delivered [OF assms(3)])
             (use True posts in \<open>simp add: simps del: update_outbox_frame(3)\<close>)
      next
        case False
        show ?thesis
        proof (cases "ob_max_attempts r \<le> ob_attempts r + 1")
          case True
          show ?thesis
            by (rule exI, rule conjI, rule exhausted [OF assms(3) True])
               (use True False posts in \<open>simp add: simps del: update_outbox_frame(3)\<close>)
        next
          case more: False
          then have "ob_attempts r + 1 < ob_max_attempts r" by simp
          show ?thesis
            by (rule exI, rule conjI, rule again [OF assms(3) \<open>ob_attempts r + 1 < ob_max_attempts r\<close>])
               (use more False posts in \<open>simp add: simps del: update_outbox_frame(3)\<close>)
        qed
      qed
    qed
  qed
qed

section \<open>One poll\<close>

lemma replace_row_set: "q \<in> set rows \<Longrightarrow> q \<noteq> r \<Longrightarrow> q \<in> set (replace_row r r' rows)"
  by (auto simp: replace_row_def update_rows_def)

lemma replace_row_ids:
  "ob_id r' = ob_id r \<Longrightarrow> map ob_id (replace_row r r' rows) = map ob_id rows"
  by (induction rows) (auto simp: replace_row_def update_rows_def)

lemma list_all2_replace:
  "list_all2 P (replace_row r r1 rows) rows' \<longleftrightarrow> list_all2 (\<lambda>q. P (if q = r then r1 else q)) rows rows'"
  by (simp add: replace_row_def update_rows_def list_all2_map1)

definition claimable :: "database \<Rightarrow> outbox_row list \<Rightarrow> bool" where
  "claimable db items \<longleftrightarrow> distinct (map ob_id (db_outbox db)) \<and> distinct items \<and>
     (\<forall>r \<in> set items. r \<in> set (db_outbox db) \<and> ob_status r = PENDING)"

lemma claimable_next:
  assumes "claimable db (r # items)" "row_step now r r'" "db_outbox db' = replace_row r r' (db_outbox db)"
  shows "claimable db' items" and "r' \<notin> set items"
proof -
  have id: "ob_id r' = ob_id r" using row_step_frame [OF assms(2)] by simp
  then have ids: "map ob_id (db_outbox db') = map ob_id (db_outbox db)" by (simp add: assms(3) replace_row_ids)
  show "claimable db' items"
    using assms(1) ids replace_row_set [of _ "db_outbox db" r r'] by (auto simp: claimable_def assms(3))
  show "r' \<notin> set items"
  proof
    assume "r' \<in> set items"
    then have "r' \<in> set (db_outbox db)" "r \<in> set (db_outbox db)" "r' \<noteq> r" using assms(1) by (auto simp: claimable_def)
    with id assms(1) show False by (auto simp: claimable_def distinct_map inj_on_def)
  qed
qed

lemma process_items_step:
  assumes "claimable db items" "process_items env items k (db, net) = (res, db', net')"
  shows "list_all2 (\<lambda>r r'. r' = r \<or> r \<in> set items \<and> row_step (db_now db) r r') (db_outbox db) (db_outbox db')
    \<and> db_subscriptions db' = db_subscriptions db \<and> db_now db' = db_now db
    \<and> length (nw_sent net') \<le> length (nw_sent net) + length items"
  using assms
proof (induction items arbitrary: db net k)
  case Nil
  then show ?case by (auto simp: list_all2_same)
next
  case (Cons r items)
  obtain e db1 net1 where p: "process_item env r (db, net) = (e, db1, net1)" by (metis prod.collapse)
  have c: "distinct (map ob_id (db_outbox db))" "r \<in> set (db_outbox db)" "ob_status r = PENDING"
    using Cons.prems(1) by (auto simp: claimable_def)
  from process_item_step [OF c p] obtain r' where r': "row_step (db_now db) r r'"
    and 1: "db_outbox db1 = replace_row r r' (db_outbox db)" "db_subscriptions db1 = db_subscriptions db"
      "db_now db1 = db_now db" "length (nw_sent net1) \<le> Suc (length (nw_sent net))" by blast
  note nxt = claimable_next [OF Cons.prems(1) r' 1(1)]
  show ?case
  proof (cases e)
    case None
    then have rest: "process_items env items (k + 1) (db1, net1) = (res, db', net')" using Cons.prems(2) p by simp
    from Cons.IH [OF nxt(1) rest] have 2:
      "list_all2 (\<lambda>q q'. q' = q \<or> q \<in> set items \<and> row_step (db_now db) q q') (replace_row r r' (db_outbox db)) (db_outbox db')"
      "db_subscriptions db' = db_subscriptions db" "db_now db' = db_now db"
      "length (nw_sent net') \<le> length (nw_sent net1) + length items"
      by (simp_all add: 1)
    have "list_all2 (\<lambda>q q'. q' = q \<or> q \<in> set (r # items) \<and> row_step (db_now db) q q') (db_outbox db) (db_outbox db')"
      using 2(1) unfolding list_all2_replace by (rule list_all2_mono) (use r' nxt(2) in \<open>auto split: if_splits\<close>)
    with 2 1 show ?thesis by simp
  next
    case (Some x)
    then have eqs: "db' = db1" "net' = net1" using Cons.prems(2) p by auto
    have "list_all2 (\<lambda>q q'. q' = q \<or> q \<in> set (r # items) \<and> row_step (db_now db) q q') (db_outbox db) (replace_row r r' (db_outbox db))"
      using r' by (auto simp: replace_row_def update_rows_def list_all2_map2 list_all2_same)
    with 1 show ?thesis by (simp add: eqs)
  qed
qed

text \<open>With object payloads, which is what is enqueued, no iteration raises and every due row moves.\<close>

lemma process_items_objects:
  assumes "claimable db items" "\<forall>r \<in> set items. is_obj (ob_payload r)"
    and "process_items env items k (db, net) = (res, db', net')"
  shows "res = Inr (k + int (length items)) \<and>
    list_all2 (\<lambda>r r'. if r \<in> set items then row_step (db_now db) r r' \<and> ob_status r' \<noteq> DELIVERING else r' = r)
      (db_outbox db) (db_outbox db')"
  using assms
proof (induction items arbitrary: db net k)
  case Nil
  then show ?case by (auto simp: list_all2_same)
next
  case (Cons r items)
  obtain e db1 net1 where p: "process_item env r (db, net) = (e, db1, net1)" by (metis prod.collapse)
  have c: "distinct (map ob_id (db_outbox db))" "r \<in> set (db_outbox db)" "ob_status r = PENDING"
    using Cons.prems(1) by (auto simp: claimable_def)
  from process_item_step [OF c p] Cons.prems(2) obtain r' where r': "row_step (db_now db) r r'" "ob_status r' \<noteq> DELIVERING"
    and 1: "db_outbox db1 = replace_row r r' (db_outbox db)" "db_now db1 = db_now db" "e = None" by auto
  note nxt = claimable_next [OF Cons.prems(1) r'(1) 1(1)]
  have rest: "process_items env items (k + 1) (db1, net1) = (res, db', net')" using Cons.prems(3) p 1(3) by simp
  have objs: "\<forall>r \<in> set items. is_obj (ob_payload r)" using Cons.prems(2) by simp
  from Cons.IH [OF nxt(1) objs rest] have 2: "res = Inr (k + 1 + int (length items))"
    "list_all2 (\<lambda>q q'. if q \<in> set items then row_step (db_now db) q q' \<and> ob_status q' \<noteq> DELIVERING else q' = q)
      (replace_row r r' (db_outbox db)) (db_outbox db')"
    unfolding 1 by blast+
  have "r \<notin> set items" using Cons.prems(1) by (simp add: claimable_def)
  have "list_all2 (\<lambda>q q'. if q \<in> set (r # items) then row_step (db_now db) q q' \<and> ob_status q' \<noteq> DELIVERING else q' = q)
      (db_outbox db) (db_outbox db')"
    using 2(2) unfolding list_all2_replace
    by (rule list_all2_mono) (use r' nxt(2) \<open>r \<notin> set items\<close> in \<open>auto split: if_splits\<close>)
  with 2(1) show ?case by simp
qed

lemma due_rows_claimable: "distinct (map ob_id (db_outbox db)) \<Longrightarrow> claimable db (due_rows db n)"
proof -
  assume d: "distinct (map ob_id (db_outbox db))"
  then have "distinct (filter P (db_outbox db))" for P by (simp add: distinct_map)
  then have "distinct (due_rows db n)" by (simp add: due_rows_def limit_rows_def order_asc_def)
  with d show ?thesis
    by (auto simp: claimable_def due_rows_def limit_rows_def dest!: in_set_takeD)
qed

section \<open>Properties\<close>

text \<open>The rows the service enqueues: object payloads, fewer attempts than allowed while pending.\<close>

definition outbox_ok :: "database \<Rightarrow> bool" where
  "outbox_ok db \<longleftrightarrow> distinct (map ob_id (db_outbox db)) \<and>
     list_all (\<lambda>r. is_obj (ob_payload r) \<and> 0 \<le> ob_attempts r \<and> ob_attempts r \<le> ob_max_attempts r \<and>
       (ob_status r = PENDING \<longrightarrow> ob_attempts r < ob_max_attempts r)) (db_outbox db)"

lemma row_step_ok:
  "row_step now r r' \<Longrightarrow> is_obj (ob_payload r) \<and> 0 \<le> ob_attempts r \<and> ob_attempts r \<le> ob_max_attempts r \<and>
       (ob_status r = PENDING \<longrightarrow> ob_attempts r < ob_max_attempts r) \<Longrightarrow>
     is_obj (ob_payload r') \<and> 0 \<le> ob_attempts r' \<and> ob_attempts r' \<le> ob_max_attempts r' \<and>
       (ob_status r' = PENDING \<longrightarrow> ob_attempts r' < ob_max_attempts r')"
  by (erule row_stepE) auto

lemma poll_rows:
  assumes "outbox_ok db" "poll_once env n (db, net) = (res, db', net')"
  shows "list_all2 (\<lambda>r r'. if r \<in> set (due_rows db n) then row_step (db_now db) r r' \<and> ob_status r' \<noteq> DELIVERING else r' = r)
      (db_outbox db) (db_outbox db')"
    and "res = Inr (int (length (due_rows db n)))" and "outbox_ok db'" and "db_now db' = db_now db"
    and "length (nw_sent net') \<le> length (nw_sent net) + length (due_rows db n)"
proof -
  have c: "claimable db (due_rows db n)" using assms(1) by (intro due_rows_claimable) (simp add: outbox_ok_def)
  have o: "\<forall>r \<in> set (due_rows db n). is_obj (ob_payload r)"
    using assms(1) by (auto simp: outbox_ok_def list_all_iff due_rows_def limit_rows_def dest!: in_set_takeD)
  have p: "process_items env (due_rows db n) 0 (db, net) = (res, db', net')"
    using assms(2) by (simp add: poll_once_def)
  show rows: "list_all2 (\<lambda>r r'. if r \<in> set (due_rows db n) then row_step (db_now db) r r' \<and> ob_status r' \<noteq> DELIVERING else r' = r)
      (db_outbox db) (db_outbox db')" and "res = Inr (int (length (due_rows db n)))"
    using process_items_objects [OF c o p] by simp_all
  show "db_now db' = db_now db" "length (nw_sent net') \<le> length (nw_sent net) + length (due_rows db n)"
    using process_items_step [OF c p] by simp_all
  have "list_all2 (\<lambda>r r'. ob_id r' = ob_id r) (db_outbox db) (db_outbox db')"
    using rows by (rule list_all2_mono) (auto dest: row_step_frame split: if_splits)
  then have "map ob_id (db_outbox db') = map ob_id (db_outbox db)"
    by (induction rule: list_all2_induct) auto
  moreover have "is_obj (ob_payload r') \<and> 0 \<le> ob_attempts r' \<and> ob_attempts r' \<le> ob_max_attempts r' \<and>
       (ob_status r' = PENDING \<longrightarrow> ob_attempts r' < ob_max_attempts r')" if "r' \<in> set (db_outbox db')" for r'
  proof -
    from that obtain i where i: "i < length (db_outbox db')" "r' = db_outbox db' ! i" by (metis in_set_conv_nth)
    with rows have len: "i < length (db_outbox db)" by (simp add: list_all2_lengthD)
    then have "r' = db_outbox db ! i \<or> row_step (db_now db) (db_outbox db ! i) r'"
      using list_all2_nthD [OF rows len] i by (auto split: if_splits)
    moreover have "is_obj (ob_payload (db_outbox db ! i)) \<and> 0 \<le> ob_attempts (db_outbox db ! i) \<and>
        ob_attempts (db_outbox db ! i) \<le> ob_max_attempts (db_outbox db ! i) \<and>
       (ob_status (db_outbox db ! i) = PENDING \<longrightarrow> ob_attempts (db_outbox db ! i) < ob_max_attempts (db_outbox db ! i))"
      using assms(1) len by (simp add: outbox_ok_def list_all_length)
    ultimately show ?thesis using row_step_ok by blast
  qed
  ultimately show "outbox_ok db'" using assms(1) by (simp add: outbox_ok_def list_all_iff)
qed

text \<open>
  C7. A poll settles every due row and no other: it returns the number of due rows, each of them
  ends delivered, failed, or pending again with one attempt more and a later retry time, and never
  in DELIVERING; other rows are untouched; at most one post is made per due row; and attempts never
  exceed the allowed number, staying below it while a row is pending.
\<close>

theorem poll_settles_due_rows:
  assumes "outbox_ok db" "poll_once env batch_size (db, net) = (res, db', net')"
  shows "res = Inr (int (length (due_rows db batch_size))) \<and> outbox_ok db' \<and>
    length (nw_sent net') \<le> length (nw_sent net) + length (due_rows db batch_size) \<and>
    list_all2 (\<lambda>r r'. if r \<in> set (due_rows db batch_size)
        then row_step (db_now db) r r' \<and> ob_status r' \<noteq> DELIVERING else r' = r)
      (db_outbox db) (db_outbox db')"
  using poll_rows [OF assms] by simp

definition example_row :: "string \<Rightarrow> outbox_status \<Rightarrow> outbox_row" where
  "example_row i st = \<lparr>ob_id = i, ob_subscription_id = ''s1'', ob_endpoint_id = ''e1'', ob_payload = JObj [],
     ob_status = st, ob_attempts = 0, ob_max_attempts = 5, ob_next_retry_at = 0, ob_created_at = 0,
     ob_updated_at = 0\<rparr>"

definition outbox_db :: "outbox_row list \<Rightarrow> database" where
  "outbox_db rows = (empty_db show_nat 0 sort_keys)\<lparr>db_outbox := rows\<rparr>"

definition example_env :: env where
  "example_env = \<lparr>env_now = ''now'', env_uuid = ''ev'', env_loads = \<lambda>_. None\<rparr>"

lemma outbox_ok_example:
  "distinct is \<Longrightarrow> outbox_ok (outbox_db (map (\<lambda>i. example_row i st) is))"
  by (simp add: outbox_ok_def outbox_db_def example_row_def list_all_iff is_obj_def comp_def)

theorem poll_settles_due_rows_witness:
  "fst (poll_once example_env 50 (outbox_db [example_row ''o1'' PENDING, example_row ''o2'' PENDING], flaky [])) = Inr 2"
proof -
  let ?db = "outbox_db [example_row ''o1'' PENDING, example_row ''o2'' PENDING]"
  obtain res db' net' where p: "poll_once example_env 50 (?db, flaky []) = (res, db', net')" by (metis prod.collapse)
  have ok: "outbox_ok ?db" using outbox_ok_example [of "[''o1'', ''o2'']" PENDING] by simp
  have "length (due_rows ?db 50) = 2"
    by (simp add: due_rows_def outbox_db_def example_row_def empty_db_def limit_rows_def order_asc_def)
  with poll_settles_due_rows [OF ok p] p show ?thesis by simp
qed

text \<open>
  Whatever the worker polls and whenever, a row that is not pending stays as it is. That is right
  for settled rows, and it means that a row whose worker died between claiming and settling it, or
  met an exception there, stays in DELIVERING: no later poll retries or dead-letters it.
\<close>

theorem claimed_row_is_never_retried:
  assumes "distinct (map ob_id (db_outbox (fst w)))" "r \<in> set (db_outbox (fst w))" "ob_status r \<noteq> PENDING"
  shows "r \<in> set (db_outbox (fst (run_outbox_worker env ts w)))"
  using assms
proof (induction ts arbitrary: w)
  case (Cons t ts)
  let ?db = "(fst w)\<lparr>db_now := t\<rparr>"
  obtain res db' net' where p: "poll_once env 50 (?db, snd w) = (res, db', net')" by (metis prod.collapse)
  have c: "claimable ?db (due_rows ?db 50)" by (rule due_rows_claimable) (simp add: Cons.prems)
  from process_items_step [OF c, of env 0 "snd w" res db' net'] p
  have rows: "list_all2 (\<lambda>r r'. r' = r \<or> r \<in> set (due_rows ?db 50) \<and> row_step t r r') (db_outbox (fst w)) (db_outbox db')"
    by (simp add: poll_once_def)
  have "list_all2 (\<lambda>r r'. ob_id r' = ob_id r) (db_outbox (fst w)) (db_outbox db')"
    using rows by (rule list_all2_mono) (auto dest: row_step_frame)
  then have "map ob_id (db_outbox db') = map ob_id (db_outbox (fst w))"
    by (induction rule: list_all2_induct) auto
  then have ids: "distinct (map ob_id (db_outbox (fst (db', net'))))" using Cons.prems(1) by simp
  obtain i where i: "i < length (db_outbox (fst w))" "r = db_outbox (fst w) ! i"
    using Cons.prems(2) by (metis in_set_conv_nth)
  from list_all2_nthD [OF rows i(1)] i(2) Cons.prems(3) have "db_outbox db' ! i = r"
    by (auto dest: row_step_pending)
  moreover have "i < length (db_outbox db')" using i(1) rows by (simp add: list_all2_lengthD)
  ultimately have "r \<in> set (db_outbox (fst (db', net')))" by (metis fst_conv nth_mem)
  from Cons.IH [OF ids this Cons.prems(3)] show ?case by (simp add: p)
qed simp

theorem claimed_row_is_never_retried_witness:
  "example_row ''o1'' DELIVERING
     \<in> set (db_outbox (fst (run_outbox_worker example_env [100, 1000, 10000] (outbox_db [example_row ''o1'' DELIVERING], flaky []))))"
  by (rule claimed_row_is_never_retried) (simp_all add: outbox_db_def example_row_def)

definition is_pending :: "outbox_row \<Rightarrow> bool" where
  "is_pending r = (ob_status r = PENDING)"

lemma outbox_empties:
  assumes "outbox_ok (fst w)" "length (filter is_pending (db_outbox (fst w))) \<le> 50" "sorted_wrt (\<lambda>s t. s + 60 \<le> t) ts"
    and "\<forall>r \<in> set (db_outbox (fst w)). ob_status r = PENDING \<longrightarrow>
      ob_max_attempts r - ob_attempts r \<le> int (length ts) \<and> (\<forall>t \<in> set ts. ob_next_retry_at r \<le> t)"
  shows "\<forall>r \<in> set (db_outbox (fst (run_outbox_worker env ts w))). ob_status r \<noteq> PENDING"
  using assms
proof (induction ts arbitrary: w)
  case Nil
  then show ?case by (fastforce simp: outbox_ok_def list_all_iff)
next
  case (Cons t ts)
  let ?db = "(fst w)\<lparr>db_now := t\<rparr>"
  obtain res db' net' where p: "poll_once env 50 (?db, snd w) = (res, db', net')" by (metis prod.collapse)
  have ok: "outbox_ok ?db" using Cons.prems(1) by (simp add: outbox_ok_def)
  note poll = poll_rows [OF ok p]
  have len: "length (db_outbox db') = length (db_outbox (fst w))" using poll(1) by (simp add: list_all2_lengthD)
  have "list_all2 (\<lambda>r r'. ob_status r' = PENDING \<longrightarrow> ob_status r = PENDING) (db_outbox (fst w)) (db_outbox db')"
    using poll(1) [simplified] by (rule list_all2_mono) (auto dest: row_step_pending split: if_splits)
  then have count: "length (filter is_pending (db_outbox db')) \<le> length (filter is_pending (db_outbox (fst w)))"
    by (induction rule: list_all2_induct) (auto simp: is_pending_def)
  have due: "r \<in> set (due_rows ?db 50)" if "r \<in> set (db_outbox (fst w))" "ob_status r = PENDING" for r
  proof -
    have "ob_next_retry_at r \<le> t" using Cons.prems(4) that by simp
    moreover have "length (filter (\<lambda>r. is_pending r \<and> ob_next_retry_at r \<le> t) (db_outbox (fst w))) \<le> 50"
      using Cons.prems(2) length_filter_le [of "\<lambda>r. ob_next_retry_at r \<le> t" "filter is_pending (db_outbox (fst w))"]
      by (simp add: conj_commute)
    ultimately show ?thesis using that by (simp add: due_rows_def limit_rows_def order_asc_def is_pending_def)
  qed
  have "ob_max_attempts r' - ob_attempts r' \<le> int (length ts) \<and> (\<forall>u \<in> set ts. ob_next_retry_at r' \<le> u)"
    if r': "r' \<in> set (db_outbox db')" "ob_status r' = PENDING" for r'
  proof -
    obtain i where i: "i < length (db_outbox (fst w))" "r' = db_outbox db' ! i"
      using r'(1) len by (metis in_set_conv_nth)
    let ?r = "db_outbox (fst w) ! i"
    have mem: "?r \<in> set (db_outbox (fst w))" using i(1) by simp
    have cases: "if ?r \<in> set (due_rows ?db 50) then row_step t ?r r' \<and> ob_status r' \<noteq> DELIVERING else r' = ?r"
      using list_all2_nthD [OF poll(1), of i] i by (simp split: if_splits)
    then have pend: "ob_status ?r = PENDING" using r'(2) by (auto dest: row_step_pending split: if_splits)
    then have step: "row_step t ?r r'" using cases due [OF mem pend] by simp
    then have "ob_attempts r' = ob_attempts ?r + 1 \<and> ob_max_attempts r' = ob_max_attempts ?r \<and>
        ob_next_retry_at r' = t + backoff_seconds (ob_attempts ?r + 1)"
      using r'(2) by (cases rule: row_stepE) auto
    moreover have "ob_max_attempts ?r - ob_attempts ?r \<le> 1 + int (length ts)" using Cons.prems(4) mem pend by simp
    moreover have "\<forall>u \<in> set ts. t + 60 \<le> u" using Cons.prems(3) by simp
    ultimately show ?thesis using backoff_bounds [of "ob_attempts ?r + 1"] by fastforce
  qed
  then have "\<forall>r \<in> set (db_outbox (fst (run_outbox_worker env ts (db', net')))). ob_status r \<noteq> PENDING"
    by (intro Cons.IH) (use poll(3) count Cons.prems(2,3) in simp_all)
  then show ?case by (simp add: p)
qed

text \<open>
  The outbox drains: with at most 50 pending rows, the batch size, and polls at least a minute apart, the
  longest pause, as many polls as a pending row has attempts left leave no pending row, whatever the
  network answers.
\<close>

theorem outbox_drains:
  assumes "outbox_ok (fst w)" "length (filter is_pending (db_outbox (fst w))) \<le> 50" "sorted_wrt (\<lambda>s t. s + 60 \<le> t) ts"
    and "\<forall>r \<in> set (db_outbox (fst w)). ob_status r = PENDING \<longrightarrow>
      ob_max_attempts r - ob_attempts r \<le> int (length ts) \<and> (\<forall>t \<in> set ts. ob_next_retry_at r \<le> t)"
  shows "\<forall>r \<in> set (db_outbox (fst (run_outbox_worker env ts w))). ob_status r \<noteq> PENDING"
  by (rule outbox_empties [OF assms])

theorem outbox_drains_witness:
  "PENDING \<notin> ob_status ` set (db_outbox (fst (run_outbox_worker example_env [0, 60, 120, 180, 240]
      (outbox_db [example_row ''o1'' PENDING], flaky (replicate 5 (Status 500))))))"
proof -
  have "outbox_ok (fst (outbox_db [example_row ''o1'' PENDING], flaky (replicate 5 (Status 500))))"
    using outbox_ok_example [of "[''o1'']" PENDING] by simp
  then have "\<forall>r \<in> set (db_outbox (fst (run_outbox_worker example_env [0, 60, 120, 180, 240]
      (outbox_db [example_row ''o1'' PENDING], flaky (replicate 5 (Status 500)))))). ob_status r \<noteq> PENDING"
    by (rule outbox_drains) (simp_all add: outbox_db_def example_row_def is_pending_def)
  then show ?thesis by auto
qed

section \<open>Polling for long enough\<close>

text \<open>
  The minutes that a list of polls covers: the polls that come at least 60 seconds, the longest pause
  between two attempts, after \<open>start\<close> or after the last one counted. And the attempts that the pending
  rows have left.
\<close>

fun minutes :: "int \<Rightarrow> int list \<Rightarrow> nat" where
  "minutes start [] = 0"
| "minutes start (t # ts) = (if start + 60 \<le> t then Suc (minutes t ts) else minutes start ts)"

definition attempts_left :: "outbox_row list \<Rightarrow> nat" where
  "attempts_left rows = sum_list (map (\<lambda>r. nat (ob_max_attempts r - ob_attempts r)) (filter is_pending rows))"

lemma attempts_left_Cons [simp]:
  "attempts_left [] = 0"
  "attempts_left (r # rows) = (if is_pending r then nat (ob_max_attempts r - ob_attempts r) else 0) + attempts_left rows"
  by (simp_all add: attempts_left_def)

lemma attempts_left_append [simp]: "attempts_left (xs @ ys) = attempts_left xs + attempts_left ys"
  by (simp add: attempts_left_def)

lemma attempts_left_0:
  assumes "outbox_ok db" "attempts_left (db_outbox db) = 0" "r \<in> set (db_outbox db)"
  shows "ob_status r \<noteq> PENDING"
proof
  assume p: "ob_status r = PENDING"
  then have "nat (ob_max_attempts r - ob_attempts r) = 0"
    using assms(2,3) by (auto simp: attempts_left_def is_pending_def)
  with assms(1,3) p show False by (auto simp: outbox_ok_def list_all_iff)
qed

text \<open>A poll costs each row it takes an attempt at least.\<close>

lemma row_step_left:
  assumes "row_step now r r'" "ob_attempts r < ob_max_attempts r"
  shows "(if is_pending r' then nat (ob_max_attempts r' - ob_attempts r') else 0)
    < (if is_pending r then nat (ob_max_attempts r - ob_attempts r) else 0)"
  using assms by (cases rule: row_stepE) (auto simp: is_pending_def)

lemma poll_left:
  assumes "outbox_ok db" "poll_once env n (db, net) = (res, db', net')"
  shows "attempts_left (db_outbox db') \<le> attempts_left (db_outbox db)"
    and "due_rows db n \<noteq> [] \<Longrightarrow> attempts_left (db_outbox db') < attempts_left (db_outbox db)"
proof -
  note rows = poll_rows(1) [OF assms]
  have "list_all (\<lambda>r. ob_status r = PENDING \<longrightarrow> ob_attempts r < ob_max_attempts r) (db_outbox db)"
    using assms(1) by (auto simp: outbox_ok_def list_all_iff)
  with rows have "attempts_left (db_outbox db') \<le> attempts_left (db_outbox db) \<and>
    (set (due_rows db n) \<inter> set (db_outbox db) \<noteq> {} \<longrightarrow> attempts_left (db_outbox db') < attempts_left (db_outbox db))"
  proof (induction rule: list_all2_induct)
    case (Cons r rs r' rs')
    show ?case
    proof (cases "r \<in> set (due_rows db n)")
      case True
      with Cons.hyps(1) have step: "row_step (db_now db) r r'" by simp
      with row_step_left [OF step] row_step_pending [OF step] Cons.prems Cons.IH show ?thesis by fastforce
    next
      case False
      with Cons show ?thesis by auto
    qed
  qed simp
  moreover have "set (due_rows db n) \<subseteq> set (db_outbox db)"
    by (auto simp: due_rows_def limit_rows_def dest!: in_set_takeD)
  ultimately show "attempts_left (db_outbox db') \<le> attempts_left (db_outbox db)"
    "due_rows db n \<noteq> [] \<Longrightarrow> attempts_left (db_outbox db') < attempts_left (db_outbox db)"
    by (auto simp: Int_absorb2)
qed

definition retried_by :: "int \<Rightarrow> database \<Rightarrow> bool" where
  "retried_by t db \<longleftrightarrow> (\<forall>r \<in> set (db_outbox db). ob_status r = PENDING \<longrightarrow> ob_next_retry_at r \<le> t)"

lemma poll_retries:
  assumes "outbox_ok db" "poll_once env n (db, net) = (res, db', net')" "retried_by (db_now db + 60) db"
  shows "retried_by (db_now db + 60) db'"
  unfolding retried_by_def
proof (intro ballI impI)
  fix r' assume r': "r' \<in> set (db_outbox db')" "ob_status r' = PENDING"
  note rows = poll_rows(1) [OF assms(1,2)]
  obtain i where i: "i < length (db_outbox db)" "r' = db_outbox db' ! i"
    using r'(1) list_all2_lengthD [OF rows] by (metis in_set_conv_nth)
  let ?r = "db_outbox db ! i"
  have "?r \<in> set (db_outbox db)" using i(1) by simp
  have "row_step (db_now db) ?r r' \<or> r' = ?r" using list_all2_nthD [OF rows i(1)] i(2) by (auto split: if_splits)
  then show "ob_next_retry_at r' \<le> db_now db + 60"
  proof
    assume "row_step (db_now db) ?r r'"
    then show ?thesis using r'(2) backoff_bounds [of "ob_attempts ?r + 1"] by cases auto
  next
    assume "r' = ?r"
    then show ?thesis using assms(3) r'(2) \<open>?r \<in> set (db_outbox db)\<close> by (simp add: retried_by_def)
  qed
qed

lemma poll_takes_due:
  assumes "retried_by (db_now db) db" "1 \<le> n" "r \<in> set (db_outbox db)" "ob_status r = PENDING"
  shows "due_rows db n \<noteq> []"
proof -
  let ?due = "order_asc ob_created_at (filter (\<lambda>r. ob_status r = PENDING \<and> ob_next_retry_at r \<le> db_now db) (db_outbox db))"
  have "r \<in> set ?due" using assms(1,3,4) by (simp add: retried_by_def order_asc_def)
  then have "?due \<noteq> []" by (metis empty_iff list.set(1))
  with assms(2) show ?thesis by (auto simp: due_rows_def limit_rows_def)
qed

text \<open>
  Either no row was taken since \<open>start\<close>, and every pending one is due within a minute of it, or one was,
  and an attempt is gone.
\<close>

lemma outbox_settles:
  assumes "outbox_ok (fst w)" "sorted (start # recent # ts)"
    and "retried_by (start + 60) (fst w) \<and> attempts_left (db_outbox (fst w)) \<le> minutes start ts \<or>
      retried_by (recent + 60) (fst w) \<and> attempts_left (db_outbox (fst w)) < minutes start ts"
  shows "\<forall>r \<in> set (db_outbox (fst (run_outbox_worker env ts w))). ob_status r \<noteq> PENDING"
  using assms
proof (induction ts arbitrary: w start recent)
  case Nil
  then show ?case using attempts_left_0 [of "fst w"] by auto
next
  case (Cons t ts)
  let ?db = "(fst w)\<lparr>db_now := t\<rparr>"
  obtain res db' net' where p: "poll_once env 50 (?db, snd w) = (res, db', net')" by (metis prod.collapse)
  have ok: "outbox_ok ?db" using Cons.prems(1) by (simp add: outbox_ok_def)
  have ord: "start \<le> t" "recent \<le> t" "sorted (t # ts)" using Cons.prems(2) by auto
  have "retried_by (t + 60) ?db" using Cons.prems(3) ord unfolding retried_by_def by auto
  with poll_retries [OF ok p] have retried: "retried_by (t + 60) db'" by simp
  note left = poll_left [OF ok p, simplified]
  have next_ok: "outbox_ok (fst (db', net'))" using poll_rows(3) [OF ok p] by simp
  have step: "\<forall>r \<in> set (db_outbox (fst (run_outbox_worker env ts (db', net')))). ob_status r \<noteq> PENDING"
  proof (cases "start + 60 \<le> t")
    case counted: True
    have "attempts_left (db_outbox db') \<le> minutes t ts"
    proof (cases "attempts_left (db_outbox (fst w)) = 0")
      case False
      then obtain r where r: "r \<in> set (db_outbox (fst w))" "ob_status r = PENDING"
        by (auto simp: attempts_left_def is_pending_def filter_empty_conv sum_list_eq_0_iff)
      show ?thesis
      proof (cases "due_rows ?db 50 = []")
        case True
        then have "\<not> retried_by (start + 60) (fst w)"
          using poll_takes_due [of ?db 50 r] r counted by (fastforce simp: retried_by_def)
        then show ?thesis using Cons.prems(3) counted left(1) by simp
      qed (use Cons.prems(3) counted left in fastforce)
    qed (use left(1) in simp)
    with retried show ?thesis using ord(3) by (intro Cons.IH [OF next_ok, of t t]) auto
  next
    case False
    then have m: "minutes start (t # ts) = minutes start ts" by simp
    have "sorted (start # t # ts)" using ord by auto
    moreover have "retried_by (start + 60) db' \<and> attempts_left (db_outbox db') \<le> minutes start ts \<or>
      retried_by (t + 60) db' \<and> attempts_left (db_outbox db') < minutes start ts"
    proof (cases "due_rows ?db 50 = []")
      case True
      then have "db_outbox db' = db_outbox (fst w)"
        using poll_rows(1) [OF ok p] by (intro nth_equalityI) (simp_all add: list_all2_conv_all_nth)
      then show ?thesis using Cons.prems(3) retried unfolding m by (simp add: retried_by_def) blast
    next
      case due: False
      then have "attempts_left (db_outbox db') < minutes start ts"
        using Cons.prems(3) left(2) unfolding m by linarith
      with retried show ?thesis by blast
    qed
    ultimately show ?thesis by (intro Cons.IH [OF next_ok, of start t]) simp_all
  qed
  then show ?case by (simp add: p)
qed

end
