(* ===== verification/Events.thy ===== *)
theory Events
  imports Document_Store
begin

text \<open>
  \<open>app/runtime/event_backends.py\<close> and \<open>app/runtime/events.py\<close>: the drift event and its wire form, the
  backends, the choice among them, and publishing with retries. The broker behind a backend is
  third-party code: \<open>sender\<close> consumes the message and a state and either raises or not.
\<close>

section \<open>The event\<close>

record DriftEvent =
  de_event_id :: string
  de_endpoint_id :: string
  de_endpoint_name :: string
  de_namespace :: string
  de_old_fingerprint :: string
  de_new_fingerprint :: string
  de_old_version :: int
  de_new_version :: int
  de_severity :: string
  de_classification :: string
  de_timestamp :: string
  de_diffs :: "json list"
  de_affected :: int

definition event_payload :: "DriftEvent \<Rightarrow> json" where
  "event_payload event =
     JObj
       [(''event_id'', JStr (de_event_id event)), (''endpoint_id'', JStr (de_endpoint_id event)),
        (''endpoint_path_name'', JStr (de_endpoint_name event)), (''namespace'', JStr (de_namespace event)),
        (''old_fingerprint'', JStr (de_old_fingerprint event)),
        (''new_fingerprint'', JStr (de_new_fingerprint event)),
        (''old_version'', JInt (de_old_version event)), (''new_version'', JInt (de_new_version event)),
        (''severity'', JStr (de_severity event)),
        (''compatibility_classification'', JStr (de_classification event)),
        (''timestamp'', JStr (de_timestamp event)), (''schema_diff_summary'', JList (de_diffs event)),
        (''affected_consumer_count'', JInt (de_affected event))]"

section \<open>Backends\<close>

text \<open>
  A producer is described by the methods it exposes. \<open>send\<close> is the await of the method on a topic
  (or queue) and a text; \<open>ServiceBusMessage\<close> wraps the text or, when it cannot be imported, the
  text itself is sent, so the text is what arrives either way.
\<close>

type_synonym 's sender = "string \<Rightarrow> string \<Rightarrow> 's \<Rightarrow> py_exc option \<times> 's"

record 's producer =
  pd_send_and_wait :: "'s sender option"
  pd_send_messages :: "'s sender option"
  pd_send_message :: "'s sender option"

datatype 's backend = Noop | Kafka "'s producer" string | AzureServiceBus "'s producer" string

fun publish_drift_detected :: "'s backend \<Rightarrow> DriftEvent \<Rightarrow> 's \<Rightarrow> py_exc option \<times> 's" where
  "publish_drift_detected Noop event s = (None, s)"
| "publish_drift_detected (Kafka p topic) event s =
     (case pd_send_and_wait p of
        None \<Rightarrow> (Some (TypeError ''Kafka producer must expose async send_and_wait(topic, payload)''), s)
      | Some send \<Rightarrow> send topic (dumps False (event_payload event)) s)"
| "publish_drift_detected (AzureServiceBus p queue) event s =
     (case pd_send_messages p of
        Some send \<Rightarrow> send queue (dumps False (event_payload event)) s
      | None \<Rightarrow>
          (case pd_send_message p of
             Some send \<Rightarrow> send queue (dumps False (event_payload event)) s
           | None \<Rightarrow> (Some (TypeError ''Azure Service Bus sender must expose send_messages or send_message''), s)))"

definition configured_backend_name :: "(string \<Rightarrow> string option) \<Rightarrow> string" where
  "configured_backend_name getenv =
     py_lower (py_strip (case getenv ''EVENT_BACKEND'' of None \<Rightarrow> ''noop'' | Some v \<Rightarrow> v))"

definition build_event_backend ::
  "(string \<Rightarrow> string option) \<Rightarrow> 's producer option \<Rightarrow> 's producer option \<Rightarrow> py_exc + 's backend" where
  "build_event_backend getenv kafka_producer service_bus_sender =
     (let backend = configured_backend_name getenv in
      if backend = ''kafka'' then
        (case kafka_producer of
           Some p \<Rightarrow> Inr (Kafka p ''drift.detected'')
         | None \<Rightarrow> Inl (RuntimeError ''EVENT_BACKEND=kafka requires a kafka_producer or an explicit noop configuration''))
      else if backend = ''azure_service_bus'' then
        (case service_bus_sender of
           Some p \<Rightarrow> Inr (AzureServiceBus p ''drift-detected'')
         | None \<Rightarrow> Inl (RuntimeError ''EVENT_BACKEND=azure_service_bus requires a service_bus_sender or an explicit noop configuration''))
      else Inr Noop)"

text \<open>\<open>build_default_publisher\<close> passes no producer.\<close>

definition build_default_publisher :: "(string \<Rightarrow> string option) \<Rightarrow> py_exc + 's backend" where
  "build_default_publisher getenv = build_event_backend getenv None None"

section \<open>Publishing with retries\<close>

text \<open>
  The result is what was raised, the state, and the pauses made, in units of 50 milliseconds. The
  loop runs from \<open>attempt\<close> to \<open>retries\<close>.
\<close>

function retry_loop ::
  "('s \<Rightarrow> py_exc option \<times> 's) \<Rightarrow> nat \<Rightarrow> nat \<Rightarrow> nat \<Rightarrow> 's \<Rightarrow> py_exc option \<times> 's \<times> nat list" where
  "retry_loop publish retries attempt wait s =
     (if retries < attempt then (None, s, [])
      else
        case publish s of
          (None, s1) \<Rightarrow> (None, s1, [])
        | (Some e, s1) \<Rightarrow>
            if attempt = retries then (Some e, s1, [])
            else
              let (r, s2, waits) = retry_loop publish retries (attempt + 1) (2 * wait) s1
              in (r, s2, wait # waits))"
  by pat_completeness auto
termination
  by (relation "measure (\<lambda>(publish, retries, attempt, wait, s). Suc retries - attempt)") auto

declare retry_loop.simps [simp del]

definition publish_with_retry ::
  "'s backend \<Rightarrow> DriftEvent \<Rightarrow> nat \<Rightarrow> 's \<Rightarrow> py_exc option \<times> 's \<times> nat list" where
  "publish_with_retry publisher event retries s =
     retry_loop (publish_drift_detected publisher event) retries 1 1 s"

text \<open>
  \<open>publish_fire_and_forget\<close>: the task swallows the exception and counts it in
  \<open>kafka_publish_failures_total\<close>.
\<close>

definition publish_fire_and_forget :: "'s backend \<Rightarrow> DriftEvent \<Rightarrow> 's \<times> nat \<Rightarrow> 's \<times> nat" where
  "publish_fire_and_forget publisher event w =
     (let (s, failures) = w; (r, s1, waits) = publish_with_retry publisher event 3 s
      in (s1, if r = None then failures else failures + 1))"

section \<open>Lemmas\<close>

text \<open>The states a publisher goes through when it keeps failing.\<close>

fun nth_state :: "('s \<Rightarrow> py_exc option \<times> 's) \<Rightarrow> nat \<Rightarrow> 's \<Rightarrow> 's" where
  "nth_state publish 0 s = s"
| "nth_state publish (Suc n) s = nth_state publish n (snd (publish s))"

lemma retry_loop_spec:
  assumes "attempt + n = retries"
  shows "(\<exists>k \<le> n. (\<forall>j < k. fst (publish (nth_state publish j s)) \<noteq> None) \<and>
      fst (publish (nth_state publish k s)) = None \<and>
      retry_loop publish retries attempt wait s =
        (None, nth_state publish (Suc k) s, map (\<lambda>i. wait * 2 ^ i) [0..<k])) \<or>
    ((\<forall>j \<le> n. fst (publish (nth_state publish j s)) \<noteq> None) \<and>
      retry_loop publish retries attempt wait s =
        (fst (publish (nth_state publish n s)), nth_state publish (Suc n) s, map (\<lambda>i. wait * 2 ^ i) [0..<n]))"
  using assms
proof (induction n arbitrary: attempt wait s)
  case 0
  obtain r s1 where p: "publish s = (r, s1)" by (metis prod.collapse)
  show ?case
  proof (cases r)
    case None
    with 0 p show ?thesis by (intro disjI1 exI [of _ 0]) (simp add: retry_loop.simps)
  next
    case (Some e)
    with 0 p show ?thesis by (intro disjI2) (simp add: retry_loop.simps)
  qed
next
  case (Suc n)
  obtain r s1 where p: "publish s = (r, s1)" by (metis prod.collapse)
  have maps: "wait # map (\<lambda>i. 2 * wait * 2 ^ i) [0..<k] = map (\<lambda>i. wait * 2 ^ i) [0..<Suc k]" for k
    by (simp add: map_upt_Suc del: upt_Suc)
  show ?case
  proof (cases r)
    case None
    with Suc.prems p show ?thesis by (intro disjI1 exI [of _ 0]) (simp add: retry_loop.simps)
  next
    case (Some e)
    have "attempt + 1 + n = retries" using Suc.prems by simp
    from Suc.IH [OF this, of s1 "2 * wait"] show ?thesis
    proof (elim disjE exE conjE)
      fix k
      assume k: "k \<le> n" "\<forall>j<k. fst (publish (nth_state publish j s1)) \<noteq> None"
        "fst (publish (nth_state publish k s1)) = None"
        "retry_loop publish retries (attempt + 1) (2 * wait) s1 =
          (None, nth_state publish (Suc k) s1, map (\<lambda>i. 2 * wait * 2 ^ i) [0..<k])"
      have "\<forall>j < Suc k. fst (publish (nth_state publish j s)) \<noteq> None"
        using k(2) p Some by (auto simp: less_Suc_eq_0_disj)
      with k p Some Suc.prems show ?thesis
        by (intro disjI1 exI [of _ "Suc k"]) (simp add: retry_loop.simps [of publish retries attempt] maps del: upt_Suc)
    next
      assume k: "\<forall>j \<le> n. fst (publish (nth_state publish j s1)) \<noteq> None"
        "retry_loop publish retries (attempt + 1) (2 * wait) s1 =
          (fst (publish (nth_state publish n s1)), nth_state publish (Suc n) s1, map (\<lambda>i. 2 * wait * 2 ^ i) [0..<n])"
      have "\<forall>j \<le> Suc n. fst (publish (nth_state publish j s)) \<noteq> None"
      proof (intro allI impI)
        fix j assume "j \<le> Suc n"
        then show "fst (publish (nth_state publish j s)) \<noteq> None" using k(1) p Some by (cases j) auto
      qed
      with k p Some Suc.prems show ?thesis
        by (intro disjI2) (simp add: retry_loop.simps [of publish retries attempt] maps del: upt_Suc)
    qed
  qed
qed

section \<open>Properties\<close>

text \<open>
  C39. Publishing stops at the first attempt the broker accepts and makes no more than \<open>retries\<close>
  of them; it raises only when all failed, and then what the last one raised; the pauses between
  attempts double from 50 milliseconds.
\<close>

theorem publish_with_retry_contract:
  assumes "publish = publish_drift_detected publisher event"
  shows "(\<exists>k \<le> n. (\<forall>j < k. fst (publish (nth_state publish j s)) \<noteq> None) \<and>
      fst (publish (nth_state publish k s)) = None \<and>
      publish_with_retry publisher event (Suc n) s = (None, nth_state publish (Suc k) s, map (\<lambda>i. 2 ^ i) [0..<k])) \<or>
    ((\<forall>j \<le> n. fst (publish (nth_state publish j s)) \<noteq> None) \<and>
      publish_with_retry publisher event (Suc n) s =
        (fst (publish (nth_state publish n s)), nth_state publish (Suc n) s, map (\<lambda>i. 2 ^ i) [0..<n]))"
  using retry_loop_spec [of 1 n "Suc n" publish s 1] unfolding publish_with_retry_def assms by simp

definition failing_broker :: "nat producer" where
  "failing_broker = \<lparr>pd_send_and_wait = Some (\<lambda>t m s. (Some (RuntimeError ''broker down''), Suc s)),
     pd_send_messages = None, pd_send_message = None\<rparr>"

definition example_event :: DriftEvent where
  "example_event = \<lparr>de_event_id = ''ev'', de_endpoint_id = ''e1'', de_endpoint_name = ''users GET /v1'',
     de_namespace = ''default'', de_old_fingerprint = ''f1'', de_new_fingerprint = ''f2'', de_old_version = 1,
     de_new_version = 2, de_severity = ''BREAKING'', de_classification = ''BREAKING'', de_timestamp = ''now'',
     de_diffs = [], de_affected = 0\<rparr>"

theorem publish_with_retry_contract_witness:
  "publish_with_retry (Kafka failing_broker ''drift.detected'') example_event 3 0
     = (Some (RuntimeError ''broker down''), 3, [1, 2])"
proof -
  let ?p = "publish_drift_detected (Kafka failing_broker ''drift.detected'') example_event"
  have p: "?p s = (Some (RuntimeError ''broker down''), Suc s)" for s by (simp add: failing_broker_def)
  have "map (\<lambda>i. 2 ^ i) [0..<2] = [1, 2::nat]" by (simp add: numeral_2_eq_2)
  then show ?thesis
    using publish_with_retry_contract [OF refl, of 2 "Kafka failing_broker ''drift.detected''" example_event 0]
    by (simp add: p numeral_2_eq_2 numeral_3_eq_3 del: publish_drift_detected.simps)
qed

text \<open>
  No configuration makes the service publish: the publisher it builds is given no producer, so it
  is the one that does nothing, or building it raises, which fails the request that asked for it
  before anything is tracked.
\<close>

theorem default_publisher_never_publishes:
  "case (build_default_publisher getenv :: py_exc + 's backend) of
     Inl e \<Rightarrow> configured_backend_name getenv \<in> {''kafka'', ''azure_service_bus''} \<and> (\<exists>msg. e = RuntimeError msg)
   | Inr publisher \<Rightarrow> publish_fire_and_forget publisher event w = w"
proof (cases "configured_backend_name getenv \<in> {''kafka'', ''azure_service_bus''}")
  case True
  then show ?thesis by (auto simp: build_default_publisher_def build_event_backend_def)
next
  case False
  then have "build_default_publisher getenv = (Inr Noop :: py_exc + 's backend)"
    by (auto simp: build_default_publisher_def build_event_backend_def)
  then show ?thesis
    by (cases w) (simp add: publish_fire_and_forget_def publish_with_retry_def retry_loop.simps)
qed

end
