(* ===== verification/Service.thy ===== *)
theory Service
  imports Classifier Upsert_Race Subscriptions Outbox_Worker Events
begin

text \<open>
  \<open>app/runtime/service.py\<close>: tracking an observed payload. The service canonicalizes and fingerprints
  the payload, records it, registers the contract, grades it against the version it supersedes, and
  enqueues (and by default delivers at once) a notification per affected subscription. The document
  store is any pair of operations that may raise; the publisher is a backend of \<open>Events\<close>.
\<close>

section \<open>The world of a request\<close>

record 'ds doc_ops =
  do_payload_snapshot :: "payload_snapshot_args \<Rightarrow> 'ds \<Rightarrow> py_exc option \<times> 'ds"
  do_schema_diff :: "schema_diff_args \<Rightarrow> 'ds \<Rightarrow> py_exc option \<times> 'ds"

record ('ds, 's) world_state =
  ws_db :: database
  ws_net :: network
  ws_docs :: 'ds
  ws_pub :: "'s \<times> nat"

text \<open>What the service takes from outside: the digest, an environment variable, uuid4, the clock.\<close>

record service_env =
  se_sha :: "string \<Rightarrow> string"
  se_inline :: "string option"
  se_event_id :: string
  se_now :: string

text \<open>\<open>_persist_document\<close>: an exception of the store is logged and dropped.\<close>

definition persist_document :: "('ds \<Rightarrow> py_exc option \<times> 'ds) \<Rightarrow> 'ds \<Rightarrow> 'ds" where
  "persist_document operation docs = snd (operation docs)"

section \<open>Notifications\<close>

definition str_or_none :: "string option \<Rightarrow> json" where
  "str_or_none v = (case v of None \<Rightarrow> JNull | Some s \<Rightarrow> JStr s)"

definition bool_or_none :: "bool option \<Rightarrow> json" where
  "bool_or_none v = (case v of None \<Rightarrow> JNull | Some b \<Rightarrow> JBool b)"

text \<open>\<open>d.__dict__\<close> of a diff item.\<close>

definition item_dict :: "diff_item \<Rightarrow> json" where
  "item_dict d =
     JObj [(''path'', JStr (di_path d)), (''old_type'', str_or_none (di_old_type d)),
           (''new_type'', str_or_none (di_new_type d)), (''old_nullable'', bool_or_none (di_old_nullable d)),
           (''new_nullable'', bool_or_none (di_new_nullable d)), (''classification'', JStr (di_classification d)),
           (''reason'', JStr (di_reason d))]"

definition notification :: "string \<Rightarrow> uuid \<Rightarrow> string \<Rightarrow> int \<Rightarrow> json list \<Rightarrow> json" where
  "notification event_id endpoint_id classification new_version diffs =
     JObj [(''event_id'', JStr event_id), (''endpoint_id'', JStr endpoint_id),
           (''classification'', JStr classification), (''new_version'', JInt new_version),
           (''diffs'', JList diffs)]"

definition inline_delivery :: "service_env \<Rightarrow> bool" where
  "inline_delivery env = (py_lower (case se_inline env of None \<Rightarrow> ''true'' | Some v \<Rightarrow> v) = ''true'')"

definition insert_outbox :: "subscription \<Rightarrow> uuid \<Rightarrow> json \<Rightarrow> database \<Rightarrow> uuid \<times> database" where
  "insert_outbox sub endpoint_id payload db =
     (new_uuid db, (used_uuid db)\<lparr>db_outbox := db_outbox db @
        [\<lparr>ob_id = new_uuid db, ob_subscription_id = sub_id sub, ob_endpoint_id = endpoint_id,
          ob_payload = db_jsonb db payload, ob_status = PENDING, ob_attempts = 0, ob_max_attempts = 5,
          ob_next_retry_at = db_now db, ob_created_at = db_now db, ob_updated_at = db_now db\<rparr>]\<rparr>)"

text \<open>One iteration of the loop over the affected subscriptions.\<close>

definition enqueue_one ::
  "service_env \<Rightarrow> uuid \<Rightarrow> json \<Rightarrow> subscription \<Rightarrow> database \<times> network \<Rightarrow> database \<times> network" where
  "enqueue_one env endpoint_id payload sub w =
     (let (outbox_id, db1) = insert_outbox sub endpoint_id payload (fst w) in
      if \<not> inline_delivery env then (db1, snd w)
      else
        let (ok, db2, net2) = deliver_with_retry
              \<lparr>dv_event_id = se_event_id env, dv_endpoint_id = endpoint_id,
               dv_consumer_id = sub_consumer_id sub, dv_target_url = sub_target_url sub,
               dv_active = sub_active sub, dv_payload = payload, dv_persist_dlq = True,
               dv_now = se_now env\<rparr> 1 (db1, snd w)
        in (update_outbox outbox_id
              (\<lambda>r. r\<lparr>ob_status := (if ok then DELIVERED else FAILED), ob_attempts := ob_attempts r + 1\<rparr>) db2,
            net2))"

definition enqueue_webhook_outbox ::
  "service_env \<Rightarrow> uuid \<Rightarrow> string \<Rightarrow> int \<Rightarrow> json list \<Rightarrow> database \<times> network \<Rightarrow> nat \<times> database \<times> network" where
  "enqueue_webhook_outbox env endpoint_id classification new_version diffs w =
     (let affected = select_affected_subscriptions (fst w) endpoint_id new_version classification;
          payload = notification (se_event_id env) endpoint_id classification new_version diffs
      in (length affected, fold (enqueue_one env endpoint_id payload) affected w))"

section \<open>Tracking\<close>

record track_result =
  tr_endpoint_id :: uuid
  tr_endpoint_name :: string
  tr_namespace :: string
  tr_schema_version :: int
  tr_fingerprint :: string
  tr_inserted :: bool
  tr_classification :: string
  tr_diff_count :: nat
  tr_affected :: nat

definition set_classification :: "uuid \<Rightarrow> string \<Rightarrow> database \<Rightarrow> database" where
  "set_classification i classification db =
     db\<lparr>db_versions := update_rows (\<lambda>r. sv_id r = i) (\<lambda>r. r\<lparr>sv_classification := classification\<rparr>) (db_versions db)\<rparr>"

text \<open>A session closed without a commit rolls back; uuids handed out are not handed out again.\<close>

definition roll_back :: "database \<Rightarrow> database \<Rightarrow> database" where
  "roll_back committed db = committed\<lparr>db_next := db_next db\<rparr>"

text \<open>
  Lines 184-261, when a version was inserted that supersedes another. \<open>w0\<close> is the world the request
  started in: classifying may raise, and nothing has been committed by then.
\<close>

definition report_drift ::
  "service_env \<Rightarrow> 'ds doc_ops option \<Rightarrow> 's backend \<Rightarrow> endpoint_key \<Rightarrow> json \<Rightarrow> string \<Rightarrow> uuid \<Rightarrow> string
     \<Rightarrow> SchemaVersionRecord \<Rightarrow> uuid \<Rightarrow> database \<Rightarrow> ('ds, 's) world_state
     \<Rightarrow> (py_exc + string \<times> nat \<times> nat) \<times> ('ds, 's) world_state" where
  "report_drift env ops publisher k canonical_schema new_fp endpoint_id endpoint_name new_record previous committed w =
     (case k of (namespace, service_name, http_method, route_path) \<Rightarrow>
      let p = hd (filter (\<lambda>r. sv_id r = previous) (db_versions (ws_db w))) in
      case diff_and_classify (sv_canonical_schema p) canonical_schema of
        Inl e \<Rightarrow> (Inl e, w\<lparr>ws_db := roll_back committed (ws_db w)\<rparr>)
      | Inr diff_objs \<Rightarrow>
          let diffs = map item_dict diff_objs;
              classification = summarize_classification diff_objs;
              docs = (case ops of
                  None \<Rightarrow> ws_docs w
                | Some store \<Rightarrow> persist_document (do_schema_diff store
                    \<lparr>sd_endpoint_id = endpoint_id, sd_endpoint_name = endpoint_name, sd_namespace = namespace,
                     sd_service_name = service_name, sd_http_method = http_method, sd_route_path = route_path,
                     sd_old_fingerprint = sv_fingerprint p, sd_new_fingerprint = new_fp,
                     sd_old_version = sv_version p, sd_new_version = sv_version new_record,
                     sd_classification = classification, sd_diffs = diffs, sd_source = ''runtime-track''\<rparr>)
                    (ws_docs w));
              db1 = set_classification (sv_id new_record) classification (ws_db w);
              (affected, db2, net2) = enqueue_webhook_outbox env endpoint_id classification
                  (sv_version new_record) diffs (db1, ws_net w);
              event = \<lparr>de_event_id = se_event_id env, de_endpoint_id = endpoint_id,
                  de_endpoint_name = endpoint_name, de_namespace = namespace,
                  de_old_fingerprint = sv_fingerprint p, de_new_fingerprint = new_fp,
                  de_old_version = sv_version p, de_new_version = sv_version new_record,
                  de_severity = classification, de_classification = classification,
                  de_timestamp = se_now env, de_diffs = diffs, de_affected = int affected\<rparr>
          in (Inr (classification, length diffs, affected),
              w\<lparr>ws_db := db2, ws_net := net2, ws_docs := docs,
                ws_pub := publish_fire_and_forget publisher event (ws_pub w)\<rparr>))"

definition track_contract ::
  "service_env \<Rightarrow> 'ds doc_ops option \<Rightarrow> 's backend \<Rightarrow> endpoint_key \<Rightarrow> json \<Rightarrow> ('ds, 's) world_state
     \<Rightarrow> (py_exc + track_result) \<times> ('ds, 's) world_state" where
  "track_contract env ops publisher k payload w =
     (case k of (namespace, service_name, http_method, route_path) \<Rightarrow>
      let canonical_schema = canonicalize payload;
          new_fp = fingerprint (se_sha env) canonical_schema;
          docs = (case ops of
              None \<Rightarrow> ws_docs w
            | Some store \<Rightarrow> persist_document (do_payload_snapshot store
                \<lparr>ps_namespace = namespace, ps_service_name = service_name, ps_http_method = http_method,
                 ps_route_path = route_path, ps_payload = payload, ps_fingerprint = new_fp,
                 ps_classification = ''SAFE'', ps_source = ''runtime-track'', ps_schema_version = None,
                 ps_metadata = Some (JObj [(''route_path'', JStr route_path), (''service_name'', JStr service_name)])\<rparr>)
                (ws_docs w));
          ((endpoint_id, endpoint_name, new_record, inserted), db1) =
            upsert_schema_version k new_fp canonical_schema ''SAFE'' (ws_db w);
          w1 = w\<lparr>ws_db := db1, ws_docs := docs\<rparr>;
          result = (\<lambda>classification diff_count affected.
            \<lparr>tr_endpoint_id = endpoint_id, tr_endpoint_name = endpoint_name, tr_namespace = namespace,
             tr_schema_version = sv_version new_record, tr_fingerprint = new_fp, tr_inserted = inserted,
             tr_classification = classification, tr_diff_count = diff_count, tr_affected = affected\<rparr>)
      in
      case (if inserted then sv_previous_version_id new_record else None) of
        None \<Rightarrow> (Inr (result ''SAFE'' 0 0), w1)
      | Some previous \<Rightarrow>
          let (outcome, w2) = report_drift env ops publisher k canonical_schema new_fp endpoint_id endpoint_name
                 new_record previous (ws_db w) w1
          in (case outcome of
                Inl e \<Rightarrow> Inl e
              | Inr (classification, diff_count, affected) \<Rightarrow> Inr (result classification diff_count affected), w2))"

section \<open>Lemmas on the registry\<close>

lemma filter_unique: "distinct (map f xs) \<Longrightarrow> x \<in> set xs \<Longrightarrow> filter (\<lambda>r. f r = f x) xs = [x]"
proof (induction xs)
  case (Cons a xs)
  then show ?case by (cases "x = a") (auto simp: filter_empty_conv image_iff)
qed simp

text \<open>An upsert that supersedes the last version of a known endpoint.\<close>

lemma upsert_superseding:
  assumes "registry_ok db" "inj (db_uuid db)" "select_endpoint db k = Some (e, name)"
    and "versions_of db e \<noteq> []" "fp \<notin> set (history db e)"
  shows "\<exists>r db'. upsert_schema_version k fp schema cls db = ((e, name, r, True), db') \<and>
    sv_previous_version_id r = Some (sv_id (last (versions_of db e))) \<and>
    sv_version r = int (length (history db e)) + 1 \<and> sv_id r = new_uuid db \<and>
    insert_version e fp schema cls (get_current_schema db e) db = (r, db') \<and>
    hd (filter (\<lambda>q. sv_id q = sv_id (last (versions_of db e))) (db_versions db')) =
      (last (versions_of db e))\<lparr>sv_is_current := False\<rparr> \<and> registry_ok db'"
proof -
  have ok: "chain_ok (versions_of db e)" using assms(1) by (simp add: registry_ok_def)
  have none: "find_version db e fp = None" using assms(5) by (simp add: find_version_None)
  obtain r db' where ins: "insert_version e fp schema cls (get_current_schema db e) db = (r, db')" by (metis prod.collapse)
  note row = insert_version_row [OF ok refl ins]
  have up: "upsert_schema_version k fp schema cls db = ((e, name, r, True), db')"
    using endpoints.hit [OF assms(3)] none ins by (simp add: upsert_schema_version_def upsert_locked_def)
  have e: "e \<in> er_id ` set (db_endpoints db)"
    using assms(3) by (auto simp: select_endpoint_def dest: first_row_filter_SomeD)
  have reg: "registry_ok db'" by (rule registry_ok_insert [OF assms(1,2) e none ins])
  let ?p = "(last (versions_of db e))\<lparr>sv_is_current := False\<rparr>"
  from versions_of_insert_version(1) [OF ok refl ins] assms(4) have "?p \<in> set (versions_of db' e)" by auto
  then have "?p \<in> set (db_versions db')" by (simp add: versions_of_def)
  moreover have "distinct (map sv_id (db_versions db'))" using reg by (simp add: registry_ok_def)
  ultimately have "filter (\<lambda>q. sv_id q = sv_id ?p) (db_versions db') = [?p]" by (intro filter_unique)
  moreover have "length (versions_of db e) = length (history db e)" by (simp add: history_def)
  ultimately show ?thesis using up row ins assms(4) reg by auto
qed

lemma set_classification_registry:
  "registry_ok (set_classification i c db) = registry_ok db"
  "history (set_classification i c db) x = history db x"
proof -
  have v: "versions_of (set_classification i c db) x =
      update_rows (\<lambda>r. sv_id r = i) (\<lambda>r. r\<lparr>sv_classification := c\<rparr>) (versions_of db x)" for x
    by (simp add: versions_of_def set_classification_def filter_update_rows)
  have chain: "chain prev n (update_rows (\<lambda>r. sv_id r = i) (\<lambda>r. r\<lparr>sv_classification := c\<rparr>) rs) = chain prev n rs" for prev n rs
    by (induction prev n rs rule: chain.induct) (auto simp: update_rows_def)
  have fps: "map sv_fingerprint (update_rows (\<lambda>r. sv_id r = i) (\<lambda>r. r\<lparr>sv_classification := c\<rparr>) rs) = map sv_fingerprint rs"
    and ids: "map sv_id (update_rows (\<lambda>r. sv_id r = i) (\<lambda>r. r\<lparr>sv_classification := c\<rparr>) rs) = map sv_id rs" for rs
    by (simp_all add: map_update_rows)
  show "history (set_classification i c db) x = history db x" by (simp add: history_def v fps)
  have "chain_ok (versions_of (set_classification i c db) x) = chain_ok (versions_of db x)" for x
    by (simp add: chain_ok_def v chain fps)
  moreover have upd: "list_all P (update_rows (\<lambda>r. sv_id r = i) (\<lambda>r. r\<lparr>sv_classification := c\<rparr>) rs) = list_all P rs"
    if "\<And>r. P (r\<lparr>sv_classification := c\<rparr>) = P r" for P rs
    by (induction rs) (auto simp: update_rows_def that)
  moreover have "db_versions (set_classification i c db) = update_rows (\<lambda>r. sv_id r = i) (\<lambda>r. r\<lparr>sv_classification := c\<rparr>) (db_versions db)"
    "db_endpoints (set_classification i c db) = db_endpoints db" "issued (set_classification i c db) = issued db"
    by (simp_all add: set_classification_def)
  moreover have "list_all (\<lambda>r. issued db (sv_id r) \<and> sv_endpoint_id r \<in> er_id ` set (db_endpoints db))
      (update_rows (\<lambda>r. sv_id r = i) (\<lambda>r. r\<lparr>sv_classification := c\<rparr>) (db_versions db)) =
      list_all (\<lambda>r. issued db (sv_id r) \<and> sv_endpoint_id r \<in> er_id ` set (db_endpoints db)) (db_versions db)"
    by (rule upd) simp
  ultimately show "registry_ok (set_classification i c db) = registry_ok db"
    by (simp only: registry_ok_def ids)
qed

section \<open>Lemmas on the outbox\<close>

definition outbox_ids :: "database \<Rightarrow> bool" where
  "outbox_ids db \<longleftrightarrow> inj (db_uuid db) \<and> distinct (map ob_id (db_outbox db)) \<and>
     list_all (\<lambda>r. issued db (ob_id r)) (db_outbox db)"

lemma upsert_dlq_uuid: "db_next db \<le> db_next (upsert_dlq e c ep url p reason n db)"
  by (simp add: upsert_dlq_def Let_def used_uuid_def)

lemma dead_letter_uuid [simp]:
  "db_uuid (dead_letter d reason n db) = db_uuid db" "db_jsonb (dead_letter d reason n db) = db_jsonb db"
  "db_versions (dead_letter d reason n db) = db_versions db" "db_endpoints (dead_letter d reason n db) = db_endpoints db"
  by (simp_all add: dead_letter_def)

lemma log_attempt_frame [simp]:
  "db_uuid (log_attempt d r n db) = db_uuid db" "db_next (log_attempt d r n db) = db_next db"
  "db_jsonb (log_attempt d r n db) = db_jsonb db" "db_versions (log_attempt d r n db) = db_versions db"
  "db_endpoints (log_attempt d r n db) = db_endpoints db"
  by (simp_all add: log_attempt_def)

lemma deliver_uuid:
  assumes "deliver_with_retry d 1 (db, net) = (ok, db', net')"
  shows "db_uuid db' = db_uuid db \<and> db_next db \<le> db_next db' \<and> db_jsonb db' = db_jsonb db \<and>
    db_versions db' = db_versions db \<and> db_endpoints db' = db_endpoints db"
proof (cases "dv_active d")
  case False
  with assms show ?thesis by (simp add: deliver_with_retry_def)
next
  case True
  let ?f = "failure_of (nw_replies net (length (nw_sent net)))"
  have db': "db' = (case ?f of None \<Rightarrow> log_attempt d ?f 1 db | Some reason \<Rightarrow> dead_letter d reason 1 (log_attempt d ?f 1 db))"
    using assms deliver_once [OF True, of db net] by (simp add: Let_def)
  have "db_next db \<le> db_next (dead_letter d reason 1 (log_attempt d x 1 db))" for reason x
    using upsert_dlq_uuid [of "log_attempt d x 1 db"] by (simp add: dead_letter_def)
  then show ?thesis unfolding db' by (cases ?f) simp_all
qed

text \<open>What one iteration leaves behind.\<close>

definition enqueued :: "service_env \<Rightarrow> uuid \<Rightarrow> json \<Rightarrow> subscription \<Rightarrow> outbox_row \<Rightarrow> bool" where
  "enqueued env endpoint_id payload sub r \<longleftrightarrow>
     ob_subscription_id r = sub_id sub \<and> ob_endpoint_id r = endpoint_id \<and> ob_payload r = payload \<and>
     ob_max_attempts r = 5 \<and>
     (if inline_delivery env then ob_status r \<in> {DELIVERED, FAILED} \<and> ob_attempts r = 1
      else ob_status r = PENDING \<and> ob_attempts r = 0)"

lemma enqueue_one_row:
  assumes "outbox_ids db" "enqueue_one env e payload sub (db, net) = (db', net')"
  shows "\<exists>r. db_outbox db' = db_outbox db @ [r] \<and> enqueued env e (db_jsonb db payload) sub r \<and> outbox_ids db' \<and>
    db_subscriptions db' = db_subscriptions db \<and> db_jsonb db' = db_jsonb db \<and> db_now db' = db_now db \<and>
    db_versions db' = db_versions db \<and> db_endpoints db' = db_endpoints db \<and> db_uuid db' = db_uuid db \<and>
    db_next db \<le> db_next db' \<and>
    length (nw_sent net') = length (nw_sent net) + (if inline_delivery env \<and> sub_active sub then 1 else 0)"
proof -
  obtain i db1 where ins: "insert_outbox sub e payload db = (i, db1)" by (metis prod.collapse)
  let ?r = "\<lparr>ob_id = new_uuid db, ob_subscription_id = sub_id sub, ob_endpoint_id = e,
      ob_payload = db_jsonb db payload, ob_status = PENDING, ob_attempts = 0, ob_max_attempts = 5,
      ob_next_retry_at = db_now db, ob_created_at = db_now db, ob_updated_at = db_now db\<rparr>"
  have 1: "i = new_uuid db" "db_outbox db1 = db_outbox db @ [?r]" "db_subscriptions db1 = db_subscriptions db"
    "db_jsonb db1 = db_jsonb db" "db_now db1 = db_now db" "db_versions db1 = db_versions db"
    "db_endpoints db1 = db_endpoints db" "db_uuid db1 = db_uuid db" "db_next db1 = Suc (db_next db)"
    using ins by (auto simp: insert_outbox_def used_uuid_def)
  have fresh: "\<forall>r \<in> set (db_outbox db). ob_id r \<noteq> i"
    using assms(1) new_uuid_fresh [of db] by (auto simp: outbox_ids_def list_all_iff 1(1))
  have ids1: "outbox_ids db1"
    using assms(1) fresh by (auto simp: outbox_ids_def 1 list_all_iff issued_def new_uuid_def less_Suc_eq)
  show ?thesis
  proof (cases "inline_delivery env")
    case False
    with assms(2) ins have "db' = db1" "net' = net" by (simp_all add: enqueue_one_def)
    with False 1 ids1 show ?thesis by (auto simp: enqueued_def)
  next
    case True
    let ?d = "\<lparr>dv_event_id = se_event_id env, dv_endpoint_id = e, dv_consumer_id = sub_consumer_id sub,
        dv_target_url = sub_target_url sub, dv_active = sub_active sub, dv_payload = payload,
        dv_persist_dlq = True, dv_now = se_now env\<rparr>"
    obtain ok db2 net2 where d: "deliver_with_retry ?d 1 (db1, net) = (ok, db2, net2)" by (metis prod.collapse)
    let ?f = "\<lambda>r. r\<lparr>ob_status := (if ok then DELIVERED else FAILED), ob_attempts := ob_attempts r + 1\<rparr>"
    from True assms(2) ins d have 2: "db' = update_outbox i ?f db2" "net' = net2"
      by (auto simp: enqueue_one_def Let_def)
    have fr: "db_outbox db2 = db_outbox db1" "db_subscriptions db2 = db_subscriptions db1" "db_now db2 = db_now db1"
      using webhook.frame [OF d] by simp_all
    have uuid: "db_uuid db2 = db_uuid db1" "db_next db1 \<le> db_next db2" "db_jsonb db2 = db_jsonb db1"
      "db_versions db2 = db_versions db1" "db_endpoints db2 = db_endpoints db1"
      using deliver_uuid [OF d] by simp_all
    have posts: "length (nw_sent net2) = length (nw_sent net) + (if sub_active sub then 1 else 0)"
      using webhook.posts [OF d] by simp
    let ?r' = "(?f ?r)\<lparr>ob_updated_at := db_now db\<rparr>"
    have out: "db_outbox db' = db_outbox db @ [?r']"
      using fresh by (simp add: 2 fr 1 update_rows_append update_rows_none) (simp add: update_rows_def)
    have rest: "db_uuid db' = db_uuid db" "db_next db' = db_next db2" "db_versions db' = db_versions db"
      "db_endpoints db' = db_endpoints db" "db_jsonb db' = db_jsonb db"
      using uuid 1 by (simp_all add: 2 update_outbox_def)
    have mono: "issued db1 x \<Longrightarrow> issued db' x" for x
      using uuid(2) rest 1(8) by (auto simp: issued_def intro: less_le_trans)
    have "outbox_ids db'"
      using ids1 mono by (auto simp: outbox_ids_def out 1(2,8) rest list_all_iff)
    then show ?thesis
      using True out rest uuid(2) fr 1 posts by (auto simp: enqueued_def 2)
  qed
qed

lemma enqueue_all:
  assumes "outbox_ids db" "fold (enqueue_one env e payload) subs (db, net) = (db', net')"
  shows "\<exists>rows. db_outbox db' = db_outbox db @ rows \<and> list_all2 (enqueued env e (db_jsonb db payload)) subs rows \<and>
    outbox_ids db' \<and> db_subscriptions db' = db_subscriptions db \<and> db_jsonb db' = db_jsonb db \<and> db_now db' = db_now db \<and>
    db_versions db' = db_versions db \<and> db_endpoints db' = db_endpoints db \<and> db_uuid db' = db_uuid db \<and>
    db_next db \<le> db_next db' \<and>
    length (nw_sent net') = length (nw_sent net) + (if inline_delivery env then length (filter sub_active subs) else 0)"
  using assms
proof (induction subs arbitrary: db net)
  case (Cons sub subs)
  obtain db1 net1 where 1: "enqueue_one env e payload sub (db, net) = (db1, net1)" by (metis prod.collapse)
  from enqueue_one_row [OF Cons.prems(1) 1] obtain r where
    r: "db_outbox db1 = db_outbox db @ [r]" "enqueued env e (db_jsonb db payload) sub r" "outbox_ids db1"
      "db_subscriptions db1 = db_subscriptions db" "db_jsonb db1 = db_jsonb db" "db_now db1 = db_now db"
      "db_versions db1 = db_versions db" "db_endpoints db1 = db_endpoints db" "db_uuid db1 = db_uuid db"
      "db_next db \<le> db_next db1"
      "length (nw_sent net1) = length (nw_sent net) + (if inline_delivery env \<and> sub_active sub then 1 else 0)"
    by blast
  have "fold (enqueue_one env e payload) subs (db1, net1) = (db', net')" using Cons.prems(2) 1 by simp
  from Cons.IH [OF r(3) this] obtain rows where
    rows: "db_outbox db' = db_outbox db1 @ rows" "list_all2 (enqueued env e (db_jsonb db1 payload)) subs rows"
    and fr: "outbox_ids db'" "db_subscriptions db' = db_subscriptions db1" "db_jsonb db' = db_jsonb db1"
      "db_now db' = db_now db1" "db_versions db' = db_versions db1" "db_endpoints db' = db_endpoints db1"
      "db_uuid db' = db_uuid db1" "db_next db1 \<le> db_next db'"
    and posts: "length (nw_sent net') = length (nw_sent net1) + (if inline_delivery env then length (filter sub_active subs) else 0)"
    by blast
  have "db_next db \<le> db_next db'" using fr(8) r(10) by simp
  moreover have "list_all2 (enqueued env e (db_jsonb db payload)) (sub # subs) (r # rows)" using rows(2) r(2,5) by simp
  ultimately show ?case using rows(1) r posts fr
    by (intro exI [of _ "r # rows"]) (simp split: if_splits)
qed simp

section \<open>Properties\<close>

text \<open>
  Every affected subscription gets exactly one outbox row for the event, appended in order, with
  the notification as payload and five attempts allowed. With inline delivery, the default, each is
  posted once at that moment and its row ends DELIVERED or FAILED after one attempt, so the worker,
  which looks at pending rows only, never retries it; without it every row is PENDING and nothing
  is posted.
\<close>

theorem one_outbox_row_per_subscription:
  assumes "outbox_ids db" "enqueue_webhook_outbox env e cls v diffs (db, net) = (n, db', net')"
  defines "affected \<equiv> select_affected_subscriptions db e v cls"
  shows "n = length affected \<and>
    (\<exists>rows. db_outbox db' = db_outbox db @ rows \<and>
       list_all2 (enqueued env e (db_jsonb db (notification (se_event_id env) e cls v diffs))) affected rows) \<and>
    length (nw_sent net') = length (nw_sent net) + (if inline_delivery env then n else 0) \<and> outbox_ids db'"
proof -
  have n: "n = length affected"
    and f: "fold (enqueue_one env e (notification (se_event_id env) e cls v diffs)) affected (db, net) = (db', net')"
    using assms(2) by (simp_all add: enqueue_webhook_outbox_def Let_def affected_def)
  have "filter sub_active affected = affected"
    by (rule filter_True) (auto simp: affected_def select_affected_subscriptions_def)
  with enqueue_all [OF assms(1) f] n show ?thesis by auto
qed

definition service_example :: "string option \<Rightarrow> service_env" where
  "service_example inline = \<lparr>se_sha = id, se_inline = inline, se_event_id = ''ev'', se_now = ''now''\<rparr>"

theorem one_outbox_row_per_subscription_witness:
  "map ob_status (db_outbox (fst (snd (enqueue_webhook_outbox (service_example (Some ''False'')) ''e1'' ''BREAKING'' 2 []
      (subs_db [example_sub ''RISKY''], flaky []))))) = [PENDING]"
proof -
  let ?db = "subs_db [example_sub ''RISKY'']" and ?env = "service_example (Some ''False'')"
  obtain n db' net' where r: "enqueue_webhook_outbox ?env ''e1'' ''BREAKING'' 2 [] (?db, flaky []) = (n, db', net')"
    by (metis prod.collapse)
  have ids: "outbox_ids ?db" by (simp add: outbox_ids_def subs_db_def empty_db_def inj_show_nat)
  have inline: "\<not> inline_delivery ?env" by (simp add: inline_delivery_def service_example_def py_lower_def lower_char_def code_of_def Let_def)
  have aff: "select_affected_subscriptions ?db ''e1'' 2 ''BREAKING'' = [example_sub ''RISKY'']"
    by (simp add: select_affected_subscriptions_def subs_db_def example_sub_def)
  have "db_outbox ?db = []" by (simp add: subs_db_def empty_db_def)
  with one_outbox_row_per_subscription [OF ids r] inline show ?thesis
    by (auto simp: r aff enqueued_def list_all2_Cons1)
qed

text \<open>A world in which one payload has been observed.\<close>

definition observed :: "json \<Rightarrow> (unit, unit) world_state" where
  "observed payload =
     \<lparr>ws_db = snd (upsert_schema_version example_key (fingerprint id (canonicalize payload)) (canonicalize payload)
        ''SAFE'' (empty_db show_nat 0 id)),
      ws_net = flaky [], ws_docs = (), ws_pub = ((), 0)\<rparr>"

lemma observed_ok:
  "registry_ok (ws_db (observed payload)) \<and> outbox_ids (ws_db (observed payload)) \<and>
   select_endpoint (ws_db (observed payload)) example_key = Some (''0'', ''users GET /v1/users'') \<and>
   versions_of (ws_db (observed payload)) ''0'' =
     [\<lparr>sv_id = ''1'', sv_endpoint_id = ''0'', sv_version = 1, sv_fingerprint = fingerprint id (canonicalize payload),
       sv_canonical_schema = canonicalize payload, sv_classification = ''SAFE'', sv_previous_version_id = None,
       sv_is_current = True\<rparr>]"
proof -
  let ?db = "empty_db show_nat 0 id"
  obtain e name r ins db' where u: "upsert_schema_version example_key (fingerprint id (canonicalize payload))
      (canonicalize payload) ''SAFE'' ?db = ((e, name, r, ins), db')" by (metis prod.collapse)
  have "registry_ok ?db" "inj (db_uuid ?db)" by (simp_all add: registry_ok_empty) (simp add: empty_db_def inj_show_nat)
  from upsert_refines_observe_step [OF this u] have "registry_ok db'" by simp
  then have reg: "registry_ok (ws_db (observed payload))" by (simp add: observed_def u)
  have "ws_db (observed payload) = (empty_db show_nat 0 id)\<lparr>db_next := 2,
      db_endpoints := [\<lparr>er_id = ''0'', er_namespace = ''default'', er_service = ''users'', er_method = ''GET'',
        er_route = ''/v1/users'', er_name = ''users GET /v1/users''\<rparr>],
      db_versions := [\<lparr>sv_id = ''1'', sv_endpoint_id = ''0'', sv_version = 1, sv_fingerprint = fingerprint id (canonicalize payload),
       sv_canonical_schema = canonicalize payload, sv_classification = ''SAFE'', sv_previous_version_id = None,
       sv_is_current = True\<rparr>]\<rparr>"
    by (simp add: observed_def upsert_schema_version_def upsert_locked_def insert_version_def Let_def
        select_endpoint_def find_version_def get_current_schema_def has_key_def empty_db_def new_uuid_def
        used_uuid_def order_desc_def show_nat_0 show_nat_1 [simplified])
  with reg show ?thesis
    by (simp add: select_endpoint_def has_key_def versions_of_def outbox_ids_def) (simp add: empty_db_def inj_show_nat)
qed

text \<open>
  A payload whose contract is already registered for its endpoint, current or not, is answered
  with SAFE, no diffs and nobody notified, and changes neither the database, nor the network, nor
  what was published. A service that falls back to an old contract goes unreported.
\<close>

theorem track_known_contract:
  assumes "select_endpoint (ws_db w) k = Some (e, name)"
    and "fingerprint (se_sha env) (canonicalize payload) \<in> set (history (ws_db w) e)"
  shows "\<exists>r w'. track_contract env ops publisher k payload w = (Inr r, w') \<and> \<not> tr_inserted r \<and>
    tr_classification r = ''SAFE'' \<and> tr_diff_count r = 0 \<and> tr_affected r = 0 \<and>
    ws_db w' = ws_db w \<and> ws_net w' = ws_net w \<and> ws_pub w' = ws_pub w"
proof -
  obtain ns s m p where k: "k = (ns, s, m, p)" by (cases k)
  obtain q where q: "find_version (ws_db w) e (fingerprint (se_sha env) (canonicalize payload)) = Some q"
    using find_version_None [of "ws_db w" e] assms(2)
    by (cases "find_version (ws_db w) e (fingerprint (se_sha env) (canonicalize payload))") auto
  have "upsert_schema_version k (fingerprint (se_sha env) (canonicalize payload)) (canonicalize payload) ''SAFE'' (ws_db w)
      = ((e, name, q, False), ws_db w)"
    using endpoints.hit [OF assms(1)] q by (simp add: upsert_schema_version_def)
  then show ?thesis by (simp add: track_contract_def k Let_def)
qed

theorem track_known_contract_witness:
  "\<exists>r w'. track_contract (service_example None) (None :: unit doc_ops option) Noop example_key (JObj [(''a'', JInt 1)])
      (observed (JObj [(''a'', JInt 1)])) = (Inr r, w') \<and> \<not> tr_inserted r \<and> ws_db w' = ws_db (observed (JObj [(''a'', JInt 1)]))"
proof -
  note o = observed_ok [of "JObj [(''a'', JInt 1)]"]
  have "fingerprint (se_sha (service_example None)) (canonicalize (JObj [(''a'', JInt 1)]))
      \<in> set (history (ws_db (observed (JObj [(''a'', JInt 1)]))) ''0'')"
    using o by (simp add: history_def service_example_def)
  from track_known_contract [OF conjunct1 [OF conjunct2 [OF conjunct2 [OF o]]] this, of None Noop] show ?thesis by blast
qed

text \<open>
  Tracking a new contract of a known endpoint, in terms of what it runs: the version inserted, its
  verdict, and the loop over the affected subscriptions, whose result is the world it leaves.
\<close>

lemma track_superseding:
  assumes "registry_ok (ws_db w)" "outbox_ids (ws_db w)" "select_endpoint (ws_db w) (ns, s, m, p) = Some (e, name)"
    and "versions_of (ws_db w) e \<noteq> []" "fp = fingerprint (se_sha env) (canonicalize payload)"
    and "fp \<notin> set (history (ws_db w) e)"
    and "diff_and_classify (sv_canonical_schema (last (versions_of (ws_db w) e))) (canonicalize payload) = Inr ds"
    and "v = int (length (history (ws_db w) e)) + 1" "verdict = summarize_classification ds"
  shows "\<exists>r db1 w'.
    track_contract env ops publisher (ns, s, m, p) payload w =
      (Inr \<lparr>tr_endpoint_id = e, tr_endpoint_name = name, tr_namespace = ns, tr_schema_version = v,
         tr_fingerprint = fp, tr_inserted = True, tr_classification = verdict, tr_diff_count = length ds,
         tr_affected = length (select_affected_subscriptions (ws_db w) e v verdict)\<rparr>, w') \<and>
    insert_version e fp (canonicalize payload) ''SAFE'' (get_current_schema (ws_db w) e) (ws_db w) = (r, db1) \<and>
    registry_ok db1 \<and> outbox_ids (set_classification (sv_id r) verdict db1) \<and>
    fold (enqueue_one env e (notification (se_event_id env) e verdict v (map item_dict ds)))
      (select_affected_subscriptions (ws_db w) e v verdict) (set_classification (sv_id r) verdict db1, ws_net w) =
      (ws_db w', ws_net w')"
proof -
  have inj: "inj (db_uuid (ws_db w))" using assms(2) by (simp add: outbox_ids_def)
  from upsert_superseding [OF assms(1) inj assms(3,4,6)] obtain r db1 where
    up: "upsert_schema_version (ns, s, m, p) fp (canonicalize payload) ''SAFE'' (ws_db w) = ((e, name, r, True), db1)"
    and r: "sv_previous_version_id r = Some (sv_id (last (versions_of (ws_db w) e)))" "sv_version r = v" "sv_id r = new_uuid (ws_db w)"
    and ins: "insert_version e fp (canonicalize payload) ''SAFE'' (get_current_schema (ws_db w) e) (ws_db w) = (r, db1)"
    and prior: "hd (filter (\<lambda>q. sv_id q = sv_id (last (versions_of (ws_db w) e))) (db_versions db1)) =
      (last (versions_of (ws_db w) e))\<lparr>sv_is_current := False\<rparr>" and reg1: "registry_ok db1"
    unfolding assms(8) by blast
  have fr1: "db_outbox db1 = db_outbox (ws_db w)" "db_subscriptions db1 = db_subscriptions (ws_db w)"
    using ins by (auto simp: insert_version_def Let_def split: if_splits)
  have ids1: "outbox_ids (set_classification (sv_id r) verdict db1)"
    using assms(2) insert_version_rows(4,5) [OF ins] fr1(1)
    by (simp add: outbox_ids_def list_all_iff set_classification_def)
  let ?pay = "notification (se_event_id env) e verdict v (map item_dict ds)"
  let ?aff = "select_affected_subscriptions (ws_db w) e v verdict"
  obtain db2 net2 where f: "fold (enqueue_one env e ?pay) ?aff (set_classification (sv_id r) verdict db1, ws_net w) = (db2, net2)"
    by (metis prod.collapse)
  have aff: "select_affected_subscriptions (set_classification (sv_id r) verdict db1) e v verdict = ?aff"
    by (simp add: select_affected_subscriptions_def set_classification_def fr1)
  show ?thesis
    using up r prior f assms(7) ins reg1 ids1 aff
    by (simp add: track_contract_def report_drift_def Let_def enqueue_webhook_outbox_def
        assms(5,9) [symmetric])
qed

text \<open>The registry reads its two tables only; a version just inserted carries the verdict it is given.\<close>

lemma registry_tables:
  assumes "db_versions db' = db_versions db" "db_endpoints db' = db_endpoints db" "db_uuid db' = db_uuid db"
    and "db_next db \<le> db_next db'"
  shows "versions_of db' x = versions_of db x" "history db' x = history db x" "registry_ok db \<Longrightarrow> registry_ok db'"
proof -
  show vs: "versions_of db' x = versions_of db x" for x by (simp add: versions_of_def assms(1))
  show "history db' x = history db x" by (simp add: history_def vs)
  have "issued db' y" if "issued db y" for y
    using that assms(3,4) by (auto simp: issued_def intro: less_le_trans)
  then show "registry_ok db \<Longrightarrow> registry_ok db'" by (auto simp: registry_ok_def vs assms list_all_iff)
qed

lemma classified_version:
  assumes "chain_ok (versions_of db e)" "insert_version e fp schema ''SAFE'' (get_current_schema db e) db = (r, db1)"
  shows "\<exists>row \<in> set (versions_of (set_classification (sv_id r) verdict db1) e).
    sv_fingerprint row = fp \<and> sv_classification row = verdict \<and> sv_is_current row"
proof -
  let ?row = "r\<lparr>sv_canonical_schema := db_jsonb db schema\<rparr>"
  note fields = insert_version_row [OF assms(1) refl assms(2)]
  from versions_of_insert_version(1) [OF assms(1) refl assms(2)] have "?row \<in> set (versions_of db1 e)" by auto
  then have "?row \<in> set (db_versions db1)" by (simp add: versions_of_def)
  from in_update_rows [OF this, of "\<lambda>q. sv_id q = sv_id r" "\<lambda>q. q\<lparr>sv_classification := verdict\<rparr>"]
  have "?row\<lparr>sv_classification := verdict\<rparr> \<in> set (versions_of (set_classification (sv_id r) verdict db1) e)"
    using fields by (simp add: versions_of_def set_classification_def)
  then show ?thesis by (rule rev_bexI) (use fields in simp)
qed

text \<open>
  C1. A payload with a new contract for a known endpoint becomes its next version. The version, the
  answer and the notifications carry the verdict of the classifier on the contract it supersedes;
  every subscription the verdict reaches gets one outbox row; the registry stays well formed and the
  endpoint's history grows by the fingerprint.
\<close>

theorem track_new_version:
  assumes "registry_ok (ws_db w)" "outbox_ids (ws_db w)" "select_endpoint (ws_db w) k = Some (e, name)"
    and "versions_of (ws_db w) e \<noteq> []" "fp = fingerprint (se_sha env) (canonicalize payload)"
    and "fp \<notin> set (history (ws_db w) e)"
    and "diff_and_classify (sv_canonical_schema (last (versions_of (ws_db w) e))) (canonicalize payload) = Inr ds"
  defines "v \<equiv> int (length (history (ws_db w) e)) + 1" and "verdict \<equiv> summarize_classification ds"
  shows "\<exists>r w'. track_contract env ops publisher k payload w = (Inr r, w') \<and> tr_inserted r \<and>
    tr_schema_version r = v \<and> tr_classification r = verdict \<and> tr_diff_count r = length ds \<and>
    tr_affected r = length (select_affected_subscriptions (ws_db w) e v verdict) \<and>
    registry_ok (ws_db w') \<and> history (ws_db w') e = history (ws_db w) e @ [fp] \<and>
    (\<exists>row \<in> set (versions_of (ws_db w') e). sv_fingerprint row = fp \<and> sv_classification row = verdict \<and> sv_is_current row) \<and>
    (\<exists>rows. db_outbox (ws_db w') = db_outbox (ws_db w) @ rows \<and>
       list_all2 (enqueued env e (db_jsonb (ws_db w) (notification (se_event_id env) e verdict v (map item_dict ds))))
         (select_affected_subscriptions (ws_db w) e v verdict) rows)"
proof -
  obtain ns s m p where k: "k = (ns, s, m, p)" by (cases k)
  have ok: "chain_ok (versions_of (ws_db w) e)" using assms(1) by (simp add: registry_ok_def)
  let ?pay = "notification (se_event_id env) e verdict v (map item_dict ds)"
  let ?aff = "select_affected_subscriptions (ws_db w) e v verdict"
  obtain r db1 w' where
    t: "track_contract env ops publisher k payload w =
      (Inr \<lparr>tr_endpoint_id = e, tr_endpoint_name = name, tr_namespace = ns, tr_schema_version = v,
         tr_fingerprint = fp, tr_inserted = True, tr_classification = verdict, tr_diff_count = length ds,
         tr_affected = length ?aff\<rparr>, w')"
    and ins: "insert_version e fp (canonicalize payload) ''SAFE'' (get_current_schema (ws_db w) e) (ws_db w) = (r, db1)"
    and reg1: "registry_ok db1" and ids1: "outbox_ids (set_classification (sv_id r) verdict db1)"
    and f: "fold (enqueue_one env e ?pay) ?aff (set_classification (sv_id r) verdict db1, ws_net w) = (ws_db w', ws_net w')"
    using track_superseding [OF assms(1,2) assms(3) [unfolded k] assms(4-7) v_def [THEN meta_eq_to_obj_eq]
        verdict_def [THEN meta_eq_to_obj_eq], of ops publisher] unfolding k by blast
  have fr1: "db_outbox db1 = db_outbox (ws_db w)" "db_jsonb db1 = db_jsonb (ws_db w)"
    using ins by (auto simp: insert_version_def Let_def split: if_splits)
  from enqueue_all [OF ids1 f] obtain rows where
    rows: "db_outbox (ws_db w') = db_outbox (ws_db w) @ rows" "list_all2 (enqueued env e (db_jsonb (ws_db w) ?pay)) ?aff rows"
    and fr2: "db_versions (ws_db w') = db_versions (set_classification (sv_id r) verdict db1)"
      "db_endpoints (ws_db w') = db_endpoints db1" "db_uuid (ws_db w') = db_uuid db1" "db_next db1 \<le> db_next (ws_db w')"
    by (auto simp: set_classification_def fr1)
  have h: "history db1 e = history (ws_db w) e @ [fp]"
    using chain_ok_insert [OF ok refl _ ins] assms(6) by (simp add: find_version_None)
  let ?db2 = "set_classification (sv_id r) verdict db1"
  have "db_endpoints (ws_db w') = db_endpoints ?db2" "db_uuid (ws_db w') = db_uuid ?db2" "db_next ?db2 \<le> db_next (ws_db w')"
    using fr2 by (simp_all add: set_classification_def)
  note reg2 = registry_tables [OF fr2(1) this]
  have "history (ws_db w') e = history (ws_db w) e @ [fp]" by (simp add: reg2(2) h set_classification_registry)
  moreover have "registry_ok (ws_db w')" using reg1 by (intro reg2(3)) (simp add: set_classification_registry)
  moreover have "\<exists>row \<in> set (versions_of (ws_db w') e). sv_fingerprint row = fp \<and> sv_classification row = verdict \<and> sv_is_current row"
    unfolding reg2(1) by (rule classified_version [OF ok ins])
  ultimately show ?thesis using t rows by auto
qed

theorem track_new_version_witness:
  "\<exists>r w'. track_contract (service_example None) (None :: unit doc_ops option) Noop example_key (JObj [(''a'', JStr ''x'')])
      (observed (JObj [(''a'', JInt 1)])) = (Inr r, w') \<and> tr_schema_version r = 2 \<and> tr_classification r = ''BREAKING''"
proof -
  let ?w = "observed (JObj [(''a'', JInt 1)])"
  note o = observed_ok [of "JObj [(''a'', JInt 1)]"]
  have vs: "versions_of (ws_db ?w) ''0'' \<noteq> []" using o by simp
  have "fingerprint id (canonicalize (JObj [(''a'', JStr ''x'')])) \<noteq> fingerprint id (canonicalize (JObj [(''a'', JInt 1)]))"
    by code_simp
  then have fp: "fingerprint (se_sha (service_example None)) (canonicalize (JObj [(''a'', JStr ''x'')])) \<notin> set (history (ws_db ?w) ''0'')"
    using o by (simp add: history_def service_example_def del: canonicalize.simps)
  have "diff_and_classify (canonicalize (JObj [(''a'', JInt 1)])) (canonicalize (JObj [(''a'', JStr ''x'')])) =
      Inr [\<lparr>di_path = ''a'', di_old_type = Some ''integer'', di_new_type = Some ''string'', di_old_nullable = Some False,
            di_new_nullable = Some False, di_classification = ''BREAKING'', di_reason = ''type changed integer->string''\<rparr>]"
    by code_simp
  then have d: "diff_and_classify (sv_canonical_schema (last (versions_of (ws_db ?w) ''0''))) (canonicalize (JObj [(''a'', JStr ''x'')])) =
      Inr [\<lparr>di_path = ''a'', di_old_type = Some ''integer'', di_new_type = Some ''string'', di_old_nullable = Some False,
            di_new_nullable = Some False, di_classification = ''BREAKING'', di_reason = ''type changed integer->string''\<rparr>]"
    using o by simp
  have len: "length (history (ws_db ?w) ''0'') = 1" using o by (simp add: history_def)
  from track_new_version [OF conjunct1 [OF o] conjunct1 [OF conjunct2 [OF o]] conjunct1 [OF conjunct2 [OF conjunct2 [OF o]]] vs refl fp d,
      of None Noop]
  show ?thesis by (auto simp: len summarize_classification_def)
qed

text \<open>
  C24. When the classifier raises, so does tracking, and the request leaves no trace in the database:
  every table is as it was, nothing is posted or published. The document store alone keeps what it
  was given before, the payload snapshot under a fingerprint the registry does not know.
\<close>

theorem track_failure_leaves_no_trace:
  assumes "registry_ok (ws_db w)" "inj (db_uuid (ws_db w))" "select_endpoint (ws_db w) k = Some (e, name)"
    and "versions_of (ws_db w) e \<noteq> []" "fp = fingerprint (se_sha env) (canonicalize payload)"
    and "fp \<notin> set (history (ws_db w) e)"
    and "diff_and_classify (sv_canonical_schema (last (versions_of (ws_db w) e))) (canonicalize payload) = Inl x"
  shows "\<exists>n docs. track_contract env ops publisher k payload w =
    (Inl x, w\<lparr>ws_docs := docs, ws_db := (ws_db w)\<lparr>db_next := n\<rparr>\<rparr>) \<and> (ops = None \<longrightarrow> docs = ws_docs w)"
proof -
  obtain ns s m p where k: "k = (ns, s, m, p)" by (cases k)
  from upsert_superseding [OF assms(1-4,6)] obtain r db1 where
    up: "upsert_schema_version k fp (canonicalize payload) ''SAFE'' (ws_db w) = ((e, name, r, True), db1)"
    and r: "sv_previous_version_id r = Some (sv_id (last (versions_of (ws_db w) e)))"
    and prior: "hd (filter (\<lambda>q. sv_id q = sv_id (last (versions_of (ws_db w) e))) (db_versions db1)) =
      (last (versions_of (ws_db w) e))\<lparr>sv_is_current := False\<rparr>"
    by blast
  from up r prior assms(7) show ?thesis
    by (cases ops) (auto simp: track_contract_def report_drift_def k Let_def roll_back_def assms(5) [symmetric])
qed

lemma enum_raises_example:
  "diff_and_classify (canonicalize (JObj [(''type'', JStr ''a''), (''enum'', JList [JInt 1])]))
      (canonicalize (JObj [(''type'', JStr ''a''), (''enum'', JList [])])) = Inl (TypeError ''unhashable type: dict'')"
  by code_simp

theorem track_failure_leaves_no_trace_witness:
  "\<exists>x n docs. track_contract (service_example None) (None :: unit doc_ops option) Noop example_key
        (JObj [(''type'', JStr ''a''), (''enum'', JList [])])
        (observed (JObj [(''type'', JStr ''a''), (''enum'', JList [JInt 1])])) =
      (Inl (TypeError x), (observed (JObj [(''type'', JStr ''a''), (''enum'', JList [JInt 1])]))\<lparr>ws_docs := docs,
         ws_db := (ws_db (observed (JObj [(''type'', JStr ''a''), (''enum'', JList [JInt 1])])))\<lparr>db_next := n\<rparr>\<rparr>)"
proof -
  let ?p = "JObj [(''type'', JStr ''a''), (''enum'', JList [JInt 1])]" and ?q = "JObj [(''type'', JStr ''a''), (''enum'', JList [])]"
  note o = observed_ok [of ?p]
  have d: "diff_and_classify (sv_canonical_schema (last (versions_of (ws_db (observed ?p)) ''0''))) (canonicalize ?q)
      = Inl (TypeError ''unhashable type: dict'')"
    using o enum_raises_example by (simp del: canonicalize.simps)
  have vs: "versions_of (ws_db (observed ?p)) ''0'' \<noteq> []" and inj: "inj (db_uuid (ws_db (observed ?p)))"
    using o by (simp_all add: outbox_ids_def)
  have "fingerprint id (canonicalize ?q) \<noteq> fingerprint id (canonicalize ?p)" by code_simp
  then have fp: "fingerprint (se_sha (service_example None)) (canonicalize ?q) \<notin> set (history (ws_db (observed ?p)) ''0'')"
    using o by (simp add: history_def service_example_def del: canonicalize.simps)
  from track_failure_leaves_no_trace [OF conjunct1 [OF o] inj conjunct1 [OF conjunct2 [OF conjunct2 [OF o]]] vs refl fp d,
      of None Noop]
  show ?thesis by blast
qed

end
