(* ===== verification/Track.thy ===== *)
theory Track
  imports Engine Service
begin

text \<open>
  \<open>app/main.py\<close>: the \<open>/track\<close> handler, which runs the event-driven service and then, for all but
  benchmark namespaces, the older guard on its own tables, and the handler of validation errors.
\<close>

section \<open>The older guard\<close>

text \<open>The two updates that make one snapshot the active baseline.\<close>

definition activate_baseline :: "uuid \<Rightarrow> string \<Rightarrow> database \<Rightarrow> database" where
  "activate_baseline endpoint_id fp db =
     db\<lparr>db_snapshots :=
       update_rows (\<lambda>r. sn_endpoint_id r = endpoint_id \<and> sn_fingerprint r = fp) (\<lambda>r. r\<lparr>sn_active := True\<rparr>)
         (update_rows (\<lambda>r. sn_endpoint_id r = endpoint_id) (\<lambda>r. r\<lparr>sn_active := False\<rparr>) (db_snapshots db))\<rparr>"

record legacy_result =
  lr_endpoint_id :: uuid
  lr_structural :: string
  lr_inserted :: bool
  lr_safe :: nat
  lr_risky :: nat
  lr_breaking :: nat
  lr_diff_count :: nat

definition count_severity :: "string \<Rightarrow> drift_item list \<Rightarrow> nat" where
  "count_severity s ds = length (filter (\<lambda>d. dr_severity d = Some s) ds)"

text \<open>Lines 118-182.\<close>

definition legacy_track ::
  "(string \<Rightarrow> string) \<Rightarrow> string \<Rightarrow> string \<Rightarrow> string \<Rightarrow> json \<Rightarrow> database \<Rightarrow> py_exc + legacy_result \<times> database" where
  "legacy_track sha service_name http_method route_path payload db =
     (let normalized = normalize_types payload in
      case structural_string payload of
        Inl e \<Rightarrow> Inl e
      | Inr structural \<Rightarrow>
          (case fingerprint_schema sha payload of
             Inl e \<Rightarrow> Inl e
           | Inr legacy_fp \<Rightarrow>
               let ((endpoint_id, inserted), db1) =
                     register_payload_snapshot service_name http_method route_path legacy_fp normalized db;
                   row = get_active_baseline_snapshot db1 endpoint_id;
                   (baseline, db2) =
                     (case row of
                        None \<Rightarrow>
                          if inserted then (Some (legacy_fp, normalized), activate_baseline endpoint_id legacy_fp db1)
                          else (None, db1)
                      | Some b \<Rightarrow> (Some b, db1));
                   (legacy_diffs, db3) =
                     (case baseline of
                        None \<Rightarrow> ([], db2)
                      | Some (baseline_fp, baseline_schema) \<Rightarrow>
                          if baseline_fp = legacy_fp then ([], db2)
                          else
                            let ds = classify_contract_drift (structural_diff baseline_schema normalized)
                            in (ds, log_drift_violations endpoint_id legacy_fp ds db2))
               in Inr (\<lparr>lr_endpoint_id = endpoint_id, lr_structural = structural, lr_inserted = inserted,
                        lr_safe = count_severity ''SAFE'' legacy_diffs,
                        lr_risky = count_severity ''RISKY'' legacy_diffs,
                        lr_breaking = count_severity ''BREAKING'' legacy_diffs,
                        lr_diff_count = length (filter (\<lambda>d. dr_severity d \<noteq> None) legacy_diffs)\<rparr>, db3)))"

section \<open>The handlers\<close>

record PayloadSubmission =
  su_namespace :: string
  su_service_name :: string
  su_http_method :: string
  su_route_path :: string
  su_payload :: json

datatype track_answer = Runtime_only track_result | Combined track_result legacy_result nat bool

definition is_benchmark :: "string \<Rightarrow> bool" where
  "is_benchmark namespace = (take 2 (py_lower namespace) = ''k6'')"

text \<open>
  A failure of the older guard comes after the commit of the service's work, which stays. The
  combined answer carries the larger diff count and whether either side inserted something.
\<close>

definition track_payload ::
  "(string \<Rightarrow> string option) \<Rightarrow> service_env \<Rightarrow> 'ds doc_ops option \<Rightarrow> PayloadSubmission \<Rightarrow> ('ds, 's) world_state
     \<Rightarrow> (py_exc + track_answer) \<times> ('ds, 's) world_state" where
  "track_payload getenv env ops submission w =
     (case build_default_publisher getenv of
        Inl e \<Rightarrow> (Inl e, w)
      | Inr publisher \<Rightarrow>
          let http_method = py_upper (su_http_method submission);
              (outcome, w1) = track_contract env ops publisher
                (su_namespace submission, su_service_name submission, http_method, su_route_path submission)
                (su_payload submission) w
          in case outcome of
               Inl e \<Rightarrow> (Inl e, w1)
             | Inr result \<Rightarrow>
                 if is_benchmark (su_namespace submission) then (Inr (Runtime_only result), w1)
                 else
                   (case legacy_track (se_sha env) (su_service_name submission) http_method
                           (su_route_path submission) (su_payload submission) (ws_db w1) of
                      Inl e \<Rightarrow> (Inl e, w1)
                    | Inr (legacy, db2) \<Rightarrow>
                        (Inr (Combined result legacy (max (tr_diff_count result) (lr_diff_count legacy))
                                (tr_inserted result \<or> lr_inserted legacy)),
                         w1\<lparr>ws_db := db2\<rparr>)))"

text \<open>
  \<open>request_validation_handler\<close>: the error is stored when there is a store, whatever comes of it; the
  body is the decoded request body or, when reading it raised, the empty text.
\<close>

definition request_validation_handler ::
  "(validation_error_args \<Rightarrow> 'ds \<Rightarrow> py_exc option \<times> 'ds) option \<Rightarrow> string \<Rightarrow> string \<Rightarrow> string option \<Rightarrow> json list
     \<Rightarrow> 'ds \<Rightarrow> (int \<times> json) \<times> 'ds" where
  "request_validation_handler store path http_method body errors docs =
     ((422, JObj [(''detail'', JList errors)]),
      case store of
        None \<Rightarrow> docs
      | Some store_validation_error \<Rightarrow>
          snd (store_validation_error
            \<lparr>ve_source = ''fastapi-validation'', ve_path = path, ve_errors = errors,
             ve_raw_body = (case body of None \<Rightarrow> [] | Some b \<Rightarrow> b),
             ve_metadata = Some (JObj [(''method'', JStr http_method)])\<rparr> docs))"

section \<open>The baseline of an endpoint\<close>

lemma snapshots_log [simp]:
  "db_snapshots (log_drift_violations e fp ds db) = db_snapshots db"
  "db_api_endpoints (log_drift_violations e fp ds db) = db_api_endpoints db"
  "db_jsonb (log_drift_violations e fp ds db) = db_jsonb db"
  by (induction e fp ds db rule: log_drift_violations.induct) (simp_all split: option.split)

lemma log_drift_count:
  "length (db_violations (log_drift_violations e fp ds db)) =
     length (db_violations db) + length (filter (\<lambda>d. dr_severity d \<noteq> None) ds)"
  by (induction e fp ds db rule: log_drift_violations.induct) (simp_all split: option.split)

lemma log_drift_rows:
  "map (\<lambda>r. (vi_endpoint_id r, vi_fingerprint r, vi_severity r)) (db_violations (log_drift_violations e fp ds db)) =
     map (\<lambda>r. (vi_endpoint_id r, vi_fingerprint r, vi_severity r)) (db_violations db) @
     map (\<lambda>d. (e, fp, the (dr_severity d))) (filter (\<lambda>d. dr_severity d \<noteq> None) ds)"
  by (induction e fp ds db rule: log_drift_violations.induct) (simp_all split: option.split)

lemma baseline_cong:
  "db_snapshots db' = db_snapshots db \<Longrightarrow> get_active_baseline_snapshot db' = get_active_baseline_snapshot db"
  by (simp add: get_active_baseline_snapshot_def fun_eq_iff)

lemma register_snapshots:
  assumes "register_payload_snapshot s m r fp schema db = ((e, inserted), db1)"
  shows "db_snapshots db1 = db_snapshots db @ (if inserted then
      [\<lparr>sn_id = db_uuid db (db_next db1 - 1), sn_endpoint_id = e, sn_fingerprint = fp, sn_schema = db_jsonb db schema,
        sn_active = False, sn_created_at = db_now db\<rparr>] else [])"
proof -
  obtain db0 where en: "legacy_ensure_endpoint (s, m, r) db = (e, db0)"
    and reg: "register_snapshot e fp schema db0 = (inserted, db1)"
    using assms by (auto simp: register_payload_snapshot_def Let_def split: prod.splits)
  have "db_snapshots db0 = db_snapshots db" "db_jsonb db0 = db_jsonb db" "db_now db0 = db_now db" "db_uuid db0 = db_uuid db"
    using en by (auto split: option.splits)
  then show ?thesis
    using reg by (auto simp: register_snapshot_def new_uuid_def used_uuid_def split: if_splits)
qed

lemma register_keeps_baseline:
  assumes "register_payload_snapshot s m r fp schema db = ((e, inserted), db1)"
  shows "get_active_baseline_snapshot db1 = get_active_baseline_snapshot db"
  using register_snapshots [OF assms] by (simp add: get_active_baseline_snapshot_def fun_eq_iff)

lemma activate_baseline_result:
  assumes "distinct (map (\<lambda>r. (sn_endpoint_id r, sn_fingerprint r)) (db_snapshots db))"
    and "q \<in> set (db_snapshots db)" "sn_endpoint_id q = e" "sn_fingerprint q = fp"
  shows "get_active_baseline_snapshot (activate_baseline e fp db) e = Some (fp, sn_schema q)"
proof -
  let ?P = "\<lambda>r. sn_endpoint_id r = e \<and> sn_active r"
  have upd: "filter ?P (update_rows (\<lambda>r. sn_endpoint_id r = e \<and> sn_fingerprint r = fp) (\<lambda>r. r\<lparr>sn_active := True\<rparr>)
        (update_rows (\<lambda>r. sn_endpoint_id r = e) (\<lambda>r. r\<lparr>sn_active := False\<rparr>) rows)) =
      map (\<lambda>r. r\<lparr>sn_active := True\<rparr>) (filter (\<lambda>r. sn_endpoint_id r = e \<and> sn_fingerprint r = fp) rows)" for rows
    by (induction rows) (auto simp: update_rows_def)
  have "filter (\<lambda>r. sn_endpoint_id r = e \<and> sn_fingerprint r = fp) (db_snapshots db) = [q]"
    using filter_unique [of "\<lambda>r. (sn_endpoint_id r, sn_fingerprint r)" "db_snapshots db" q] assms by simp
  then have "filter ?P (db_snapshots (activate_baseline e fp db)) = [q\<lparr>sn_active := True\<rparr>]"
    using upd [of "db_snapshots db"] by (simp add: activate_baseline_def)
  then show ?thesis by (simp add: get_active_baseline_snapshot_def order_desc_def assms(4))
qed

text \<open>A request registers its payload, which touches no violation; the first one of an endpoint is new.\<close>

lemma legacy_track_registers:
  assumes "legacy_track sha s m p payload db = Inr (r, db')" "fingerprint_schema sha payload = Inr fp"
  obtains inserted db1 where
    "register_payload_snapshot s m p fp (normalize_types payload) db = ((lr_endpoint_id r, inserted), db1)"
    "db_violations db1 = db_violations db"
proof -
  obtain e inserted db1 where reg: "register_payload_snapshot s m p fp (normalize_types payload) db = ((e, inserted), db1)"
    by (metis prod.collapse)
  moreover have "e = lr_endpoint_id r"
    using assms reg by (auto simp: legacy_track_def Let_def split: sum.splits option.splits if_splits prod.splits)
  moreover have "db_violations db1 = db_violations db"
    using reg by (auto simp: register_payload_snapshot_def register_snapshot_def Let_def
        split: prod.splits if_splits option.splits)
  ultimately show ?thesis using that by blast
qed

lemma first_snapshot_is_new:
  assumes "register_payload_snapshot s m p fp schema db = ((e, inserted), db1)"
    and "\<forall>q \<in> set (db_snapshots db). sn_endpoint_id q \<noteq> e"
  shows inserted
proof (rule ccontr)
  assume "\<not> inserted"
  then have "find_snapshot db1 (e, fp) \<noteq> None \<and> db_snapshots db1 = db_snapshots db"
    using assms(1) register_snapshots [OF assms(1)]
    by (auto simp: register_payload_snapshot_def register_snapshot_def Let_def split: prod.splits if_splits)
  with assms(2) show False by (auto simp: find_snapshot_def snapshot_key_def dest: first_row_filter_SomeD)
qed

lemma first_payload_activated:
  assumes "snapshot_tables_ok db" "inj (db_uuid db)" "register_payload_snapshot s m p fp schema db = ((e, inserted), db1)"
    and "\<forall>q \<in> set (db_snapshots db). sn_endpoint_id q \<noteq> e"
  shows "get_active_baseline_snapshot (activate_baseline e fp db1) e = Some (fp, db_jsonb db schema)"
proof -
  let ?q = "\<lparr>sn_id = db_uuid db (db_next db1 - 1), sn_endpoint_id = e, sn_fingerprint = fp, sn_schema = db_jsonb db schema,
    sn_active = False, sn_created_at = db_now db\<rparr>"
  have "?q \<in> set (db_snapshots db1)"
    using register_snapshots [OF assms(3)] first_snapshot_is_new [OF assms(3,4)] by simp
  moreover have "distinct (map (\<lambda>r. (sn_endpoint_id r, sn_fingerprint r)) (db_snapshots db1))"
    using register_payload_snapshot_ok [OF assms(1-3)] by (simp add: snapshot_tables_ok_def)
  ultimately show ?thesis using activate_baseline_result [of db1 ?q e fp] by simp
qed

section \<open>Properties\<close>

text \<open>
  C28. The first payload the older guard sees for an endpoint without snapshots becomes its baseline
  and reports nothing. Every later payload is compared with that baseline, which stays: nothing is
  reported when its fingerprint is the baseline's; otherwise each graded difference to the baseline
  is logged as one violation, counted by severity, and logged again each time the payload recurs.
\<close>

theorem legacy_baseline_is_first_payload:
  assumes "snapshot_tables_ok db" "inj (db_uuid db)" "legacy_track sha s m p (JObj kvs) db = Inr (r, db')"
    and "fingerprint_schema sha (JObj kvs) = Inr fp"
  defines "e \<equiv> lr_endpoint_id r"
  shows "case get_active_baseline_snapshot db e of
      None \<Rightarrow>
        (\<forall>q \<in> set (db_snapshots db). sn_endpoint_id q \<noteq> e) \<longrightarrow>
          lr_diff_count r = 0 \<and> db_violations db' = db_violations db \<and>
          get_active_baseline_snapshot db' e = Some (fp, db_jsonb db (normalize_types (JObj kvs)))
    | Some (bfp, b) \<Rightarrow>
        get_active_baseline_snapshot db' e = Some (bfp, b) \<and>
        (let ds = (if bfp = fp then [] else classify_contract_drift (structural_diff b (normalize_types (JObj kvs))))
         in lr_diff_count r = length (filter (\<lambda>d. dr_severity d \<noteq> None) ds) \<and>
            lr_safe r = count_severity ''SAFE'' ds \<and> lr_risky r = count_severity ''RISKY'' ds \<and>
            lr_breaking r = count_severity ''BREAKING'' ds \<and>
            map (\<lambda>q. (vi_endpoint_id q, vi_fingerprint q, vi_severity q)) (db_violations db') =
              map (\<lambda>q. (vi_endpoint_id q, vi_fingerprint q, vi_severity q)) (db_violations db) @
              map (\<lambda>d. (e, fp, the (dr_severity d))) (filter (\<lambda>d. dr_severity d \<noteq> None) ds))"
proof -
  let ?n = "normalize_types (JObj kvs)"
  obtain st where st: "structural_string (JObj kvs) = Inr st" by (simp add: structural_string_def)
  from legacy_track_registers [OF assms(3,4)] obtain ins db1 where
    reg: "register_payload_snapshot s m p fp ?n db = ((e, ins), db1)" and viol: "db_violations db1 = db_violations db"
    unfolding e_def by blast
  note keep = register_keeps_baseline [OF reg]
  show ?thesis
  proof (cases "get_active_baseline_snapshot db e")
    case None
    have "lr_diff_count r = 0 \<and> db_violations db' = db_violations db \<and>
        get_active_baseline_snapshot db' e = Some (fp, db_jsonb db ?n)"
      if none: "\<forall>q \<in> set (db_snapshots db). sn_endpoint_id q \<noteq> e"
    proof -
      have "db' = activate_baseline e fp db1 \<and> lr_diff_count r = 0"
        using assms(3,4) st reg None keep first_snapshot_is_new [OF reg none] by (auto simp: legacy_track_def Let_def)
      with first_payload_activated [OF assms(1,2) reg none] viol show ?thesis by (simp add: activate_baseline_def)
    qed
    with None show ?thesis by simp
  next
    case (Some b)
    obtain bfp bs where b: "b = (bfp, bs)" by (cases b)
    let ?ds = "if bfp = fp then [] else classify_contract_drift (structural_diff bs ?n)"
    have "db' = log_drift_violations e fp ?ds db1"
      "r = \<lparr>lr_endpoint_id = e, lr_structural = st, lr_inserted = ins, lr_safe = count_severity ''SAFE'' ?ds,
         lr_risky = count_severity ''RISKY'' ?ds, lr_breaking = count_severity ''BREAKING'' ?ds,
         lr_diff_count = length (filter (\<lambda>d. dr_severity d \<noteq> None) ?ds)\<rparr>"
      using assms(3,4) st reg Some b keep by (auto simp: legacy_track_def Let_def split: if_splits)
    moreover have "get_active_baseline_snapshot (log_drift_violations e fp ?ds db1) = get_active_baseline_snapshot db"
      using keep baseline_cong [OF snapshots_log(1)] by metis
    ultimately show ?thesis
      using Some b viol log_drift_rows [of e fp ?ds db1] by (simp add: Let_def)
  qed
qed

text \<open>A database with one endpoint, whose baseline is the payload \<open>{"a": 1}\<close>.\<close>

definition baseline_db :: database where
  "baseline_db = (empty_db show_nat 7 sort_keys)
     \<lparr>db_api_endpoints := [\<lparr>ae_id = ''0'', ae_service = ''users'', ae_method = ''GET'', ae_route = ''/v1''\<rparr>],
      db_snapshots := [\<lparr>sn_id = ''1'', sn_endpoint_id = ''0'', sn_fingerprint = ''f0'',
        sn_schema = JObj [(''a'', JStr ''int'')], sn_active = True, sn_created_at = 5\<rparr>],
      db_next := 2\<rparr>"

lemma baseline_db_ok: "snapshot_tables_ok baseline_db" "inj (db_uuid baseline_db)"
proof -
  have "issued baseline_db ''0''" "issued baseline_db ''1''"
    unfolding issued_def baseline_db_def empty_db_def
    by (rule exI [of _ 0], simp add: show_nat_0) (rule exI [of _ 1], simp add: show_nat_1 [unfolded One_nat_def])
  then show "snapshot_tables_ok baseline_db"
    by (simp add: snapshot_tables_ok_def) (simp add: baseline_db_def empty_db_def)
qed (simp add: baseline_db_def empty_db_def inj_show_nat)

theorem legacy_baseline_is_first_payload_witness:
  "case legacy_track (\<lambda>_. ''f1'') ''users'' ''GET'' ''/v1'' (JObj [(''a'', JStr ''x'')]) baseline_db of
     Inl _ \<Rightarrow> False
   | Inr (r, db') \<Rightarrow>
       lr_breaking r = 1 \<and> get_active_baseline_snapshot db' ''0'' = Some (''f0'', JObj [(''a'', JStr ''int'')]) \<and>
       map (\<lambda>q. (vi_endpoint_id q, vi_fingerprint q, vi_severity q)) (db_violations db') = [(''0'', ''f1'', ''BREAKING'')]"
proof -
  let ?p = "JObj [(''a'', JStr ''x'')]"
  have fp: "fingerprint_schema (\<lambda>_. ''f1'') ?p = Inr ''f1''"
    by (simp add: fingerprint_schema_def structural_string_def)
  obtain r db' where t: "legacy_track (\<lambda>_. ''f1'') ''users'' ''GET'' ''/v1'' ?p baseline_db = Inr (r, db')"
    using fp by (cases "legacy_track (\<lambda>_. ''f1'') ''users'' ''GET'' ''/v1'' ?p baseline_db")
      (auto simp: legacy_track_def structural_string_def Let_def split: option.splits prod.splits if_splits)
  have reg: "i = ''0''"
    if "register_payload_snapshot ''users'' ''GET'' ''/v1'' ''f1'' n baseline_db = ((i, b), d)" for n i b d
    using that by (auto simp: register_payload_snapshot_def find_api_endpoint_def api_endpoint_key_def baseline_db_def empty_db_def
        split: prod.splits)
  have e: "lr_endpoint_id r = ''0''"
    using t fp by (auto simp: legacy_track_def Let_def dest: reg split: sum.splits option.splits prod.splits if_splits)
  have base: "get_active_baseline_snapshot baseline_db ''0'' = Some (''f0'', JObj [(''a'', JStr ''int'')])"
    "db_violations baseline_db = []"
    by (simp_all add: get_active_baseline_snapshot_def baseline_db_def empty_db_def order_desc_def)
  have norm: "normalize_types ?p = JObj [(''a'', JStr ''string'')]" by code_simp
  have ds: "classify_contract_drift (structural_diff (JObj [(''a'', JStr ''int'')]) (JObj [(''a'', JStr ''string'')])) =
      [\<lparr>dr_path = ''a'', dr_old = Some ''int'', dr_new = Some ''string'', dr_severity = Some ''BREAKING''\<rparr>]"
    by code_simp
  note result = legacy_baseline_is_first_payload [OF baseline_db_ok t fp, unfolded e base norm]
  show ?thesis using result by (simp add: t ds base Let_def count_severity_def)
qed

end
