(* ===== verification/Tracker_System.thy ===== *)
theory Tracker_System
  imports Track Transitions "HOL-Library.Sublist"
begin

text \<open>
  The runtime tracker as one system: its requests, the polls of the outbox worker and the passing of
  time, in any order, each taken to its end. The lemmas show that no reachable database breaks a
  key or a reference of \<open>migrations/*.sql\<close>, which is why the operations may take their statements to
  succeed, and that contracts and baselines, once recorded, stay.
\<close>

section \<open>Steps\<close>

text \<open>
  One request or poll. What each takes from outside, its environment, its clock, the store that may
  fail, is arbitrary and may differ from step to step.
\<close>

inductive tracker_step ::
  "(string \<Rightarrow> string option) \<Rightarrow> 'ds doc_ops option \<Rightarrow> ('ds, 's) world_state \<Rightarrow> ('ds, 's) world_state \<Rightarrow> bool"
  for getenv ops where
  tracks: "track_payload getenv env ops submission w = (answer, w') \<Longrightarrow> tracker_step getenv ops w w'"
| subscribes: "create_handler req (ws_db w) = (sub, db') \<Longrightarrow> tracker_step getenv ops w (w\<lparr>ws_db := db'\<rparr>)"
| patches: "patch_handler i upd (ws_db w) = (sub, db') \<Longrightarrow> tracker_step getenv ops w (w\<lparr>ws_db := db'\<rparr>)"
| replays: "replay_webhook_dlq store i now (ws_db w, ws_net w) (ws_docs w) = (result, (db', net'), docs') \<Longrightarrow>
     tracker_step getenv ops w (w\<lparr>ws_db := db', ws_net := net', ws_docs := docs'\<rparr>)"
| polls: "poll_once env' n (ws_db w, ws_net w) = (outcome, db', net') \<Longrightarrow>
     tracker_step getenv ops w (w\<lparr>ws_db := db', ws_net := net'\<rparr>)"
| ticks: "db_now (ws_db w) \<le> t \<Longrightarrow> tracker_step getenv ops w (w\<lparr>ws_db := (ws_db w)\<lparr>db_now := t\<rparr>\<rparr>)"

inductive tracker_reachable ::
  "(string \<Rightarrow> string option) \<Rightarrow> 'ds doc_ops option \<Rightarrow> ('ds, 's) world_state \<Rightarrow> ('ds, 's) world_state \<Rightarrow> bool"
  for getenv ops w0 where
  init: "tracker_reachable getenv ops w0 w0"
| more: "tracker_reachable getenv ops w0 w \<Longrightarrow> tracker_step getenv ops w w' \<Longrightarrow> tracker_reachable getenv ops w0 w'"

interpretation tracker: transitions "tracker_step getenv ops" "tracker_reachable getenv ops" for getenv ops
  by unfold_locales (auto intro: tracker_reachable.intros elim: tracker_reachable.induct)

section \<open>The constraints of the tables\<close>

definition registered :: "database \<Rightarrow> uuid set" where
  "registered db = er_id ` set (db_endpoints db)"

definition subs_ok :: "database \<Rightarrow> bool" where
  "subs_ok db \<longleftrightarrow> distinct (map sub_id (db_subscriptions db)) \<and>
     (\<forall>r \<in> set (db_subscriptions db). issued db (sub_id r) \<and> sub_endpoint_id r \<in> registered db)"

definition outbox_refs :: "database \<Rightarrow> bool" where
  "outbox_refs db \<longleftrightarrow> (\<forall>r \<in> set (db_outbox db). ob_endpoint_id r \<in> registered db \<and>
     ob_subscription_id r \<in> sub_id ` set (db_subscriptions db) \<and> ob_status r \<noteq> DELIVERING)"

definition logs_ok :: "database \<Rightarrow> bool" where
  "logs_ok db \<longleftrightarrow> dlq_ok db \<and> distinct (map dq_id (db_dlq db)) \<and>
     (\<forall>r \<in> set (db_dlq db). issued db (dq_id r) \<and> dq_endpoint_id r \<in> registered db) \<and>
     (\<forall>r \<in> set (db_attempts db). at_endpoint_id r \<in> registered db)"

definition violations_ok :: "database \<Rightarrow> bool" where
  "violations_ok db \<longleftrightarrow> distinct (map vi_id (db_violations db)) \<and>
     (\<forall>r \<in> set (db_violations db). issued db (vi_id r) \<and> vi_endpoint_id r \<in> ae_id ` set (db_api_endpoints db))"

definition single_baselines :: "database \<Rightarrow> bool" where
  "single_baselines db \<longleftrightarrow>
     (\<forall>e. length (filter (\<lambda>r. sn_endpoint_id r = e \<and> sn_active r) (db_snapshots db)) \<le> 1)"

text \<open>What the server guarantees: ids differ, and JSONB keeps objects objects.\<close>

definition server_ok :: "database \<Rightarrow> bool" where
  "server_ok db \<longleftrightarrow> inj (db_uuid db) \<and> (\<forall>kvs. is_obj (db_jsonb db (JObj kvs)))"

definition tracker_ok :: "database \<Rightarrow> bool" where
  "tracker_ok db \<longleftrightarrow> server_ok db \<and> registry_ok db \<and> subs_ok db \<and> outbox_ok db \<and> outbox_ids db \<and> outbox_refs db \<and>
     logs_ok db \<and> snapshot_tables_ok db \<and> violations_ok db \<and> single_baselines db"

text \<open>A later database: its server is the same, and what could be referred to is still there.\<close>

definition later :: "database \<Rightarrow> database \<Rightarrow> bool" where
  "later db db' \<longleftrightarrow> db_uuid db' = db_uuid db \<and> db_jsonb db' = db_jsonb db \<and> db_next db \<le> db_next db' \<and>
     registered db \<subseteq> registered db' \<and> sub_id ` set (db_subscriptions db) \<subseteq> sub_id ` set (db_subscriptions db')"

lemma later_issued: "later db db' \<Longrightarrow> issued db i \<Longrightarrow> issued db' i"
  by (auto simp: later_def issued_def intro: less_le_trans)

lemma later_refl: "later db db"
  by (simp add: later_def)

lemma later_trans: "later a b \<Longrightarrow> later b c \<Longrightarrow> later a c"
  unfolding later_def by (elim conjE, intro conjI) (simp, simp, simp, blast+)

text \<open>A table that is left alone keeps its constraints.\<close>

lemma later_server: "later db db' \<Longrightarrow> server_ok db \<Longrightarrow> server_ok db'"
  by (simp add: later_def server_ok_def)

lemma later_registry:
  assumes "later db db'" "db_endpoints db' = db_endpoints db" "db_versions db' = db_versions db" "registry_ok db"
  shows "registry_ok db'"
  using assms(4) later_issued [OF assms(1)] by (auto simp: registry_ok_def versions_of_def assms(2,3) list_all_iff)

lemma later_subs:
  assumes "later db db'" "db_subscriptions db' = db_subscriptions db" "subs_ok db"
  shows "subs_ok db'"
  using assms later_issued [OF assms(1)] by (auto simp: subs_ok_def later_def)

lemma later_outbox:
  assumes "later db db'" "db_outbox db' = db_outbox db"
  shows "outbox_ok db \<Longrightarrow> outbox_ok db'" "outbox_ids db \<Longrightarrow> outbox_ids db'" "outbox_refs db \<Longrightarrow> outbox_refs db'"
  using assms later_issued [OF assms(1)] by (auto simp: outbox_ok_def outbox_ids_def outbox_refs_def later_def list_all_iff)

lemma later_logs:
  assumes "later db db'" "db_dlq db' = db_dlq db" "db_attempts db' = db_attempts db" "logs_ok db"
  shows "logs_ok db'"
  using assms later_issued [OF assms(1)] by (auto simp: logs_ok_def dlq_ok_def later_def)

lemma later_legacy:
  assumes "later db db'" "db_api_endpoints db' = db_api_endpoints db" "db_snapshots db' = db_snapshots db"
    and "db_violations db' = db_violations db"
  shows "snapshot_tables_ok db \<Longrightarrow> snapshot_tables_ok db'" "violations_ok db \<Longrightarrow> violations_ok db'"
    "single_baselines db \<Longrightarrow> single_baselines db'"
  using later_issued [OF assms(1)]
  by (auto simp: snapshot_tables_ok_def violations_ok_def single_baselines_def assms(2-4) list_all_iff)

lemmas later_tables = later_server later_registry later_subs later_outbox later_logs later_legacy

section \<open>Sending\<close>

text \<open>What a delivery writes: the log of attempts, the dead letters, and nothing else.\<close>

definition rest_of :: "database \<Rightarrow> _" where
  "rest_of db = (db_endpoints db, db_versions db, db_subscriptions db, db_api_endpoints db, db_snapshots db,
     db_violations db, db_uuid db, db_jsonb db, db_now db)"

definition sends :: "database \<Rightarrow> database \<Rightarrow> bool" where
  "sends db db' \<longleftrightarrow> rest_of db' = rest_of db \<and> db_next db \<le> db_next db' \<and>
     (inj (db_uuid db) \<longrightarrow> logs_ok db \<longrightarrow> logs_ok db')"

lemma sends_refl: "sends db db"
  by (simp add: sends_def)

lemma sends_trans: "sends a b \<Longrightarrow> sends b c \<Longrightarrow> sends a c"
  by (auto simp: sends_def rest_of_def)

lemma sends_later: "sends db db' \<Longrightarrow> later db db'"
  by (auto simp: sends_def later_def rest_of_def registered_def)

lemma sends_outbox: "sends db (db\<lparr>db_outbox := rows\<rparr>)"
  by (simp add: sends_def rest_of_def logs_ok_def dlq_ok_def registered_def)

lemma sends_update: "sends db (update_outbox i f db)"
  unfolding update_outbox_def by (rule sends_outbox)

lemma sends_log: "dv_endpoint_id d \<in> registered db \<Longrightarrow> sends db (log_attempt d r n db)"
  by (auto simp: sends_def rest_of_def log_attempt_def logs_ok_def dlq_ok_def registered_def)

lemma sends_upsert_dlq:
  assumes "ep \<in> registered db"
  shows "sends db (upsert_dlq e c ep url p reason n db)" (is "sends db ?db'")
  unfolding sends_def
proof (intro conjI impI)
  show "rest_of ?db' = rest_of db" by (simp add: rest_of_def upsert_dlq_def Let_def)
  show "db_next db \<le> db_next ?db'" by (rule upsert_dlq_uuid)
  assume inj: "inj (db_uuid db)" and ok: "logs_ok db"
  have fresh: "new_uuid db \<notin> dq_id ` set (db_dlq db)"
    using ok new_uuid_fresh [OF inj] by (auto simp: logs_ok_def)
  have "dlq_ok ?db'" using ok by (intro dlq_ok_upsert) (simp add: logs_ok_def)
  moreover have "distinct (map dq_id (db_dlq ?db'))"
    using ok fresh by (auto simp: logs_ok_def upsert_dlq_def Let_def map_update_rows)
  moreover have "\<forall>r \<in> set (db_dlq ?db'). issued ?db' (dq_id r) \<and> dq_endpoint_id r \<in> registered ?db'"
    using ok assms by (auto simp: logs_ok_def upsert_dlq_def Let_def registered_def set_update_rows issued_used_uuid)
  moreover have "\<forall>r \<in> set (db_attempts ?db'). at_endpoint_id r \<in> registered ?db'"
    using ok by (simp add: logs_ok_def registered_def)
  ultimately show "logs_ok ?db'" by (simp add: logs_ok_def)
qed

lemma registered_sends: "sends db db' \<Longrightarrow> registered db' = registered db"
  by (simp add: sends_def rest_of_def registered_def)

lemma sends_deliver:
  assumes "deliver_with_retry d 1 (db, net) = (ok, db', net')" "dv_endpoint_id d \<in> registered db"
  shows "sends db db'" "db_outbox db' = db_outbox db"
proof -
  show "db_outbox db' = db_outbox db" using webhook.frame [OF assms(1)] by simp
  show "sends db db'"
  proof (cases "dv_active d")
    case True
    let ?f = "failure_of (nw_replies net (length (nw_sent net)))"
    let ?db1 = "log_attempt d ?f 1 db"
    have log: "sends db ?db1" by (rule sends_log [OF assms(2)])
    then have "sends ?db1 (dead_letter d reason 1 ?db1)" for reason
      using assms(2) registered_sends [OF log]
      by (cases "dv_persist_dlq d") (auto simp: dead_letter_def sends_refl intro: sends_upsert_dlq)
    with log have "sends db (dead_letter d reason 1 ?db1)" for reason by (rule sends_trans)
    with log show ?thesis
      using assms(1) by (auto simp: deliver_once [OF True] Let_def split: option.splits)
  qed (use assms(1) in \<open>simp add: deliver_with_retry_def sends_refl\<close>)
qed

lemma sends_settle:
  assumes "ob_endpoint_id item \<in> registered db"
  shows "sends db (settle_item env item sub ok db)"
proof -
  have up: "sends db (update_outbox (ob_id item) f db)" for f by (rule sends_update)
  have "ob_endpoint_id item \<in> registered (update_outbox (ob_id item) f db)" for f
    using assms registered_sends [OF up] by simp
  from sends_trans [OF up sends_upsert_dlq [OF this]] up show ?thesis by (simp add: settle_item_def Let_def)
qed

lemma sends_process_item:
  assumes "process_item env item (db, net) = (e, db', net')" "ob_endpoint_id item \<in> registered db"
  shows "sends db db'"
proof -
  let ?db1 = "update_outbox (ob_id item) (\<lambda>r. r\<lparr>ob_status := DELIVERING\<rparr>) db"
  have 1: "sends db ?db1" by (rule sends_update)
  note reg1 = registered_sends [OF 1]
  show ?thesis
  proof (cases "outbox_subscription ?db1 (ob_subscription_id item)")
    case None
    with assms(1) have "db' = update_outbox (ob_id item) (\<lambda>r. r\<lparr>ob_status := FAILED\<rparr>) ?db1"
      by (auto simp: process_item_def Let_def)
    with sends_trans [OF 1 sends_update] show ?thesis by simp
  next
    case (Some sub)
    show ?thesis
    proof (cases "event_body env (ob_payload item)")
      case (Inl x)
      with assms(1) Some 1 show ?thesis by (simp add: process_item_def Let_def)
    next
      case (Inr body)
      obtain ok db2 net2 where d: "deliver_with_retry
          \<lparr>dv_event_id = event_id_of env (ob_payload item), dv_endpoint_id = ob_endpoint_id item,
           dv_consumer_id = sub_consumer_id sub, dv_target_url = sub_target_url sub,
           dv_active = sub_active sub, dv_payload = body, dv_persist_dlq = False,
           dv_now = env_now env\<rparr> 1 (?db1, net) = (ok, db2, net2)" by (metis prod.collapse)
      then have db': "db' = settle_item env item sub ok db2"
        using assms(1) Some Inr by (simp add: process_item_def Let_def)
      have 2: "sends ?db1 db2" by (rule sends_deliver(1) [OF d]) (simp add: reg1 assms(2))
      have "sends db2 db'" unfolding db' by (rule sends_settle) (simp add: registered_sends [OF 2] reg1 assms(2))
      from sends_trans [OF sends_trans [OF 1 2] this] show ?thesis .
    qed
  qed
qed

lemma sends_process_items:
  "process_items env items n (db, net) = (res, db', net') \<Longrightarrow> \<forall>r \<in> set items. ob_endpoint_id r \<in> registered db \<Longrightarrow>
     sends db db'"
proof (induction items arbitrary: n db net)
  case (Cons item items)
  obtain e db1 net1 where i: "process_item env item (db, net) = (e, db1, net1)" by (metis prod.collapse)
  have 1: "sends db db1" by (rule sends_process_item [OF i]) (use Cons.prems(2) in simp)
  show ?case
  proof (cases e)
    case None
    with Cons.prems(1) i have "process_items env items (n + 1) (db1, net1) = (res, db', net')" by simp
    from Cons.IH [OF this] Cons.prems(2) have "sends db1 db'" by (simp add: registered_sends [OF 1])
    with 1 show ?thesis by (rule sends_trans)
  next
    case (Some x)
    with Cons.prems(1) i 1 show ?thesis by simp
  qed
qed (simp add: sends_refl)

lemma sends_enqueue_one:
  assumes "enqueue_one env e payload sub (db, net) = (db', net')" "e \<in> registered db"
  shows "sends db db'"
proof -
  obtain i db1 where ins: "insert_outbox sub e payload db = (i, db1)" by (metis prod.collapse)
  then have "sends (used_uuid db) db1" by (auto simp: insert_outbox_def intro: sends_outbox)
  moreover have "sends db (used_uuid db)"
    by (auto simp: sends_def rest_of_def logs_ok_def dlq_ok_def registered_def issued_used_uuid) (simp add: used_uuid_def)
  ultimately have 1: "sends db db1" by (blast intro: sends_trans)
  show ?thesis
  proof (cases "inline_delivery env")
    case False
    with assms(1) ins 1 show ?thesis by (simp add: enqueue_one_def)
  next
    case True
    obtain ok db2 net2 where d: "deliver_with_retry
        \<lparr>dv_event_id = se_event_id env, dv_endpoint_id = e, dv_consumer_id = sub_consumer_id sub,
         dv_target_url = sub_target_url sub, dv_active = sub_active sub, dv_payload = payload,
         dv_persist_dlq = True, dv_now = se_now env\<rparr> 1 (db1, net) = (ok, db2, net2)" by (metis prod.collapse)
    have 2: "sends db1 db2" by (rule sends_deliver(1) [OF d]) (simp add: registered_sends [OF 1] assms(2))
    have "sends db2 db'" using assms(1) True ins d by (auto simp: enqueue_one_def Let_def sends_update)
    from sends_trans [OF sends_trans [OF 1 2] this] show ?thesis .
  qed
qed

lemma sends_enqueue_all:
  "fold (enqueue_one env e payload) subs (db, net) = (db', net') \<Longrightarrow> e \<in> registered db \<Longrightarrow> sends db db'"
proof (induction subs arbitrary: db net)
  case (Cons sub subs)
  obtain db1 net1 where i: "enqueue_one env e payload sub (db, net) = (db1, net1)" by (metis prod.collapse)
  note 1 = sends_enqueue_one [OF i Cons.prems(2)]
  from Cons.prems i have "fold (enqueue_one env e payload) subs (db1, net1) = (db', net')" by simp
  from Cons.IH [OF this] Cons.prems(2) have "sends db1 db'" by (simp add: registered_sends [OF 1])
  with 1 show ?case by (rule sends_trans)
qed (simp add: sends_refl)

text \<open>Sending keeps the tables it does not write.\<close>

lemma sends_tables:
  assumes "sends db db'" "tracker_ok db"
  shows "server_ok db'" "registry_ok db'" "subs_ok db'" "logs_ok db'" "snapshot_tables_ok db'" "violations_ok db'"
    "single_baselines db'" "registered db' = registered db" "db_subscriptions db' = db_subscriptions db"
proof -
  have l: "later db db'" and r: "rest_of db' = rest_of db" by (rule sends_later [OF assms(1)]) (use assms(1) in \<open>simp add: sends_def\<close>)
  note ok = assms(2) [unfolded tracker_ok_def]
  show "server_ok db'" "registry_ok db'" "subs_ok db'" "snapshot_tables_ok db'" "violations_ok db'"
    "single_baselines db'" "registered db' = registered db" "db_subscriptions db' = db_subscriptions db"
    using later_tables [OF l] r ok by (simp_all add: rest_of_def registered_def)
  show "logs_ok db'" using assms(1) ok by (simp add: sends_def server_ok_def)
qed

section \<open>One step\<close>

text \<open>What a step may do: keep the constraints, extend histories, and leave baselines alone.\<close>

definition extends :: "database \<Rightarrow> database \<Rightarrow> bool" where
  "extends db db' \<longleftrightarrow> (\<forall>e. prefix (history db e) (history db' e)) \<and>
     (\<forall>e b. get_active_baseline_snapshot db e = Some b \<longrightarrow> get_active_baseline_snapshot db' e = Some b)"

definition good_step :: "database \<Rightarrow> database \<Rightarrow> bool" where
  "good_step db db' \<longleftrightarrow> tracker_ok db' \<and> extends db db'"

lemma extends_trans: "extends a b \<Longrightarrow> extends b c \<Longrightarrow> extends a c"
  unfolding extends_def by (meson prefix_order.trans)

lemma good_step_trans: "good_step a b \<Longrightarrow> good_step b c \<Longrightarrow> good_step a c"
  unfolding good_step_def by (blast intro: extends_trans)

lemma extends_same:
  "db_versions db' = db_versions db \<Longrightarrow> db_snapshots db' = db_snapshots db \<Longrightarrow> extends db db'"
  by (simp add: extends_def history_def versions_of_def get_active_baseline_snapshot_def)

lemma good_step_refl: "tracker_ok db \<Longrightarrow> good_step db db"
  by (simp add: good_step_def extends_same)

text \<open>The tables that neither the registry nor a delivery writes.\<close>

definition others :: "database \<Rightarrow> _" where
  "others db = (db_subscriptions db, db_attempts db, db_dlq db, db_outbox db, db_api_endpoints db, db_snapshots db,
     db_violations db, db_uuid db, db_jsonb db)"

lemma others_ok:
  assumes "later db db'" "others db' = others db" "registry_ok db'" "tracker_ok db"
  shows "tracker_ok db'"
  using later_tables [OF assms(1)] assms(2-4) by (simp add: tracker_ok_def others_def)

lemma upsert_others:
  assumes "upsert_schema_version k fp schema cls db = ((e, name, r, inserted), db')"
  shows "others db' = others db" "later db db'"
proof -
  obtain n s m p where k: "k = (n, s, m, p)" by (cases k)
  obtain row db1 where en: "ensure_endpoint k db = (row, db1)" by (metis prod.collapse)
  have 1: "others db1 = others db" "db_next db \<le> db_next db1" "set (db_endpoints db) \<subseteq> set (db_endpoints db1)"
    using en by (auto simp: k Let_def others_def used_uuid_def split: option.splits if_splits)
  have ins: "others (snd (insert_version e fp schema cls c db1)) = others db1" "db_next db1 \<le> db_next (snd (insert_version e fp schema cls c db1))"
    "db_endpoints (snd (insert_version e fp schema cls c db1)) = db_endpoints db1" for c
    by (simp_all add: insert_version_def Let_def others_def used_uuid_def)
  have "db' = db1 \<or> (\<exists>c. db' = snd (insert_version e fp schema cls c db1))"
    using assms en
    by (auto simp: upsert_schema_version_def upsert_locked_def Let_def split: prod.splits option.splits) (metis snd_conv)+
  then have "others db' = others db1 \<and> db_next db1 \<le> db_next db' \<and> db_endpoints db' = db_endpoints db1" using ins by auto
  with 1 show "others db' = others db" "later db db'" by (auto simp: later_def others_def registered_def)
qed

lemma upsert_good:
  assumes "tracker_ok db" "upsert_schema_version k fp schema cls db = ((e, name, r, inserted), db')"
  shows "good_step db db'" "e \<in> registered db'"
proof -
  note up = upsert_refines_observe_step [OF _ _ assms(2)]
  have reg: "registry_ok db" "inj (db_uuid db)" using assms(1) by (simp_all add: tracker_ok_def server_ok_def)
  note facts = up [OF reg]
  have "tracker_ok db'" using others_ok [OF upsert_others(2,1) [OF assms(2)]] facts assms(1) by simp
  moreover have "extends db db'"
    unfolding extends_def
  proof (intro conjI allI impI)
    show "prefix (history db x) (history db' x)" for x using facts by (cases "x = e") (simp_all add: observe_def)
    show "get_active_baseline_snapshot db' x = Some b" if "get_active_baseline_snapshot db x = Some b" for x b
      using that upsert_others(1) [OF assms(2)] by (simp add: get_active_baseline_snapshot_def others_def)
  qed
  ultimately show "good_step db db'" by (simp add: good_step_def)
  show "e \<in> registered db'" using facts by (auto simp: select_endpoint_def registered_def dest: first_row_filter_SomeD)
qed

lemma set_classification_good:
  assumes "tracker_ok db"
  shows "good_step db (set_classification i c db)"
proof -
  let ?db' = "set_classification i c db"
  have "others ?db' = others db" "later db ?db'" by (simp_all add: set_classification_def others_def later_def registered_def)
  with assms have "tracker_ok ?db'"
    by (intro others_ok [of db ?db']) (simp_all add: set_classification_registry tracker_ok_def)
  then show ?thesis
    by (simp add: good_step_def extends_def set_classification_registry(2))
       (simp add: set_classification_def get_active_baseline_snapshot_def)
qed

lemma roll_back_good:
  assumes "tracker_ok db" "db_next db \<le> db_next db1"
  shows "good_step db (roll_back db db1)"
proof -
  have l: "later db (roll_back db db1)" using assms(2) by (simp add: later_def roll_back_def registered_def)
  have "registry_ok (roll_back db db1)"
    by (rule later_registry [OF l]) (use assms(1) in \<open>simp_all add: roll_back_def tracker_ok_def\<close>)
  then have "tracker_ok (roll_back db db1)"
    by (intro others_ok [OF l _ _ assms(1)]) (simp_all add: roll_back_def others_def)
  then show ?thesis by (simp add: good_step_def extends_same roll_back_def)
qed

lemma enqueue_good:
  assumes "tracker_ok db" "e \<in> registered db"
    and "enqueue_webhook_outbox env e cls v diffs (db, net) = (n, db', net')"
  shows "good_step db db'"
proof -
  let ?payload = "notification (se_event_id env) e cls v diffs"
  let ?subs = "select_affected_subscriptions db e v cls"
  have f: "fold (enqueue_one env e ?payload) ?subs (db, net) = (db', net')"
    using assms(3) by (simp add: enqueue_webhook_outbox_def Let_def)
  have s: "sends db db'" by (rule sends_enqueue_all [OF f assms(2)])
  note ok = assms(1) [unfolded tracker_ok_def]
  have "outbox_ids db" using ok by simp
  from enqueue_all [OF this f] obtain rows where
    rows: "db_outbox db' = db_outbox db @ rows" "list_all2 (enqueued env e (db_jsonb db ?payload)) ?subs rows"
    and ids: "outbox_ids db'" by blast
  have obj: "is_obj (db_jsonb db ?payload)" using ok by (simp add: server_ok_def notification_def)
  have new: "is_obj (ob_payload r) \<and> 0 \<le> ob_attempts r \<and> ob_attempts r \<le> ob_max_attempts r \<and>
      (ob_status r = PENDING \<longrightarrow> ob_attempts r < ob_max_attempts r) \<and> ob_status r \<noteq> DELIVERING \<and>
      ob_endpoint_id r = e \<and> ob_subscription_id r \<in> sub_id ` set (db_subscriptions db)" if "r \<in> set rows" for r
  proof -
    from that rows(2) obtain sub where "sub \<in> set ?subs" and q: "enqueued env e (db_jsonb db ?payload) sub r"
      by (metis in_set_conv_nth list_all2_conv_all_nth)
    then have "sub \<in> set (db_subscriptions db)" by (simp add: select_affected_subscriptions_def)
    with q obj show ?thesis by (auto simp: enqueued_def split: if_splits)
  qed
  note same = sends_tables [OF s assms(1)]
  have "outbox_ok db'"
    using ok ids new by (auto simp: outbox_ok_def outbox_ids_def list_all_iff rows(1))
  moreover have "outbox_refs db'"
    using ok new assms(2) by (auto simp: outbox_refs_def rows(1) same(8,9))
  ultimately have "tracker_ok db'" using ids same by (simp add: tracker_ok_def)
  moreover have "extends db db'" using s by (intro extends_same) (simp_all add: sends_def rest_of_def)
  ultimately show ?thesis by (simp add: good_step_def)
qed

lemma report_drift_good:
  assumes "tracker_ok committed" "good_step committed (ws_db w)" "later committed (ws_db w)" "e \<in> registered (ws_db w)"
    and "report_drift env ops publisher k schema fp e name r previous committed w = (outcome, w')"
  shows "good_step committed (ws_db w')"
proof -
  obtain n s m p where k: "k = (n, s, m, p)" by (cases k)
  let ?p = "hd (filter (\<lambda>r. sv_id r = previous) (db_versions (ws_db w)))"
  show ?thesis
  proof (cases "diff_and_classify (sv_canonical_schema ?p) schema")
    case (Inl x)
    with assms(5) have "ws_db w' = roll_back committed (ws_db w)" by (auto simp: report_drift_def k Let_def)
    with roll_back_good [OF assms(1)] assms(3) show ?thesis by (simp add: later_def)
  next
    case (Inr ds)
    let ?cls = "summarize_classification ds"
    let ?db1 = "set_classification (sv_id r) ?cls (ws_db w)"
    obtain a db2 net2 where q: "enqueue_webhook_outbox env e ?cls (sv_version r) (map item_dict ds) (?db1, ws_net w) = (a, db2, net2)"
      by (metis prod.collapse)
    then have "ws_db w' = db2" using assms(5) Inr by (auto simp: report_drift_def k Let_def)
    moreover have "good_step (ws_db w) ?db1"
      by (rule set_classification_good) (use assms(2) in \<open>simp add: good_step_def\<close>)
    moreover have "good_step ?db1 db2"
      by (rule enqueue_good [OF _ _ q])
         (use calculation(2) assms(4) in \<open>simp_all add: good_step_def, simp add: set_classification_def registered_def\<close>)
    ultimately show ?thesis using assms(2) good_step_trans by blast
  qed
qed

lemma track_contract_good:
  assumes "tracker_ok (ws_db w)" "track_contract env ops publisher k payload w = (outcome, w')"
  shows "good_step (ws_db w) (ws_db w')"
proof -
  obtain n s m p where k: "k = (n, s, m, p)" by (cases k)
  let ?fp = "fingerprint (se_sha env) (canonicalize payload)"
  obtain e name r inserted db1 where up:
    "upsert_schema_version k ?fp (canonicalize payload) ''SAFE'' (ws_db w) = ((e, name, r, inserted), db1)" by (metis prod.collapse)
  note good = upsert_good [OF assms(1) up]
  show ?thesis
  proof (cases "if inserted then sv_previous_version_id r else None")
    case None
    with assms(2) up have "ws_db w' = db1" by (auto simp: track_contract_def k Let_def split: if_splits)
    with good(1) show ?thesis by simp
  next
    case (Some previous)
    define docs where "docs = (case ops of None \<Rightarrow> ws_docs w
      | Some store \<Rightarrow> persist_document (do_payload_snapshot store
          \<lparr>ps_namespace = n, ps_service_name = s, ps_http_method = m, ps_route_path = p, ps_payload = payload,
           ps_fingerprint = ?fp, ps_classification = ''SAFE'', ps_source = ''runtime-track'', ps_schema_version = None,
           ps_metadata = Some (JObj [(''route_path'', JStr p), (''service_name'', JStr s)])\<rparr>) (ws_docs w))"
    let ?w1 = "w\<lparr>ws_db := db1, ws_docs := docs\<rparr>"
    obtain out w2 where r: "report_drift env ops publisher k (canonicalize payload) ?fp e name r previous (ws_db w) ?w1 = (out, w2)"
      by (metis prod.collapse)
    then have "w' = w2"
      using assms(2) up Some unfolding track_contract_def k by (simp add: Let_def docs_def [symmetric] k)
    moreover have "good_step (ws_db w) (ws_db w2)"
      by (rule report_drift_good [OF assms(1) _ _ _ r]) (simp_all add: good upsert_others(2) [OF up])
    ultimately show ?thesis by simp
  qed
qed

section \<open>The older guard\<close>

lemma others_legacy:
  assumes "later db db'" "tracker_ok db" "db_endpoints db' = db_endpoints db" "db_versions db' = db_versions db"
    and "db_subscriptions db' = db_subscriptions db" "db_outbox db' = db_outbox db" "db_dlq db' = db_dlq db"
    and "db_attempts db' = db_attempts db" "snapshot_tables_ok db'" "violations_ok db'" "single_baselines db'"
  shows "tracker_ok db'"
  using later_tables [OF assms(1)] assms(2-) by (simp add: tracker_ok_def)

text \<open>The tables the older guard leaves alone.\<close>

definition tracked_tables :: "database \<Rightarrow> _" where
  "tracked_tables db = (db_endpoints db, db_versions db, db_subscriptions db, db_outbox db, db_dlq db, db_attempts db,
     db_uuid db, db_jsonb db)"

lemma tracked_later: "tracked_tables db' = tracked_tables db \<Longrightarrow> db_next db \<le> db_next db' \<Longrightarrow> later db db'"
  by (simp add: tracked_tables_def later_def registered_def)

lemma legacy_good:
  assumes "tracker_ok db" "tracked_tables db' = tracked_tables db" "db_next db \<le> db_next db'"
    and "snapshot_tables_ok db'" "violations_ok db'" "single_baselines db'"
    and "\<And>e b. get_active_baseline_snapshot db e = Some b \<Longrightarrow> get_active_baseline_snapshot db' e = Some b"
  shows "good_step db db'"
proof -
  have "tracker_ok db'"
    by (rule others_legacy [OF tracked_later [OF assms(2,3)] assms(1)]) (use assms(2,4-6) in \<open>simp_all add: tracked_tables_def\<close>)
  moreover have "history db' e = history db e" for e using assms(2) by (simp add: history_def versions_of_def tracked_tables_def)
  ultimately show ?thesis using assms(7) by (simp add: good_step_def extends_def)
qed

lemma register_good:
  assumes "tracker_ok db" "register_payload_snapshot s m r fp schema db = ((e, inserted), db')"
  shows "good_step db db'" "e \<in> ae_id ` set (db_api_endpoints db')"
proof -
  obtain db1 where en: "legacy_ensure_endpoint (s, m, r) db = (e, db1)" and reg: "register_snapshot e fp schema db1 = (inserted, db')"
    using assms(2) by (auto simp: register_payload_snapshot_def Let_def split: prod.splits)
  have ok: "snapshot_tables_ok db" "inj (db_uuid db)" using assms(1) by (simp_all add: tracker_ok_def server_ok_def)
  have 1: "tracked_tables db1 = tracked_tables db" "db_next db \<le> db_next db1" "db_violations db1 = db_violations db"
    "set (db_api_endpoints db) \<subseteq> set (db_api_endpoints db1)"
    using en by (auto simp: tracked_tables_def used_uuid_def split: option.splits)
  have 2: "tracked_tables db' = tracked_tables db1" "db_next db1 \<le> db_next db'" "db_violations db' = db_violations db1"
    "db_api_endpoints db' = db_api_endpoints db1"
    using reg by (auto simp: register_snapshot_def tracked_tables_def used_uuid_def split: if_splits)
  show "e \<in> ae_id ` set (db_api_endpoints db')" using snapshot_tables_endpoint [OF ok en] 2(4) by simp
  have l: "later db db'" using 1 2 by (intro tracked_later) simp_all
  have vi: "violations_ok db" and si: "single_baselines db" using assms(1) by (simp_all add: tracker_ok_def)
  show "good_step db db'"
  proof (rule legacy_good [OF assms(1)])
    show "tracked_tables db' = tracked_tables db" "db_next db \<le> db_next db'" using 1 2 by simp_all
    show "snapshot_tables_ok db'" by (rule register_payload_snapshot_ok [OF ok assms(2)])
    show "violations_ok db'"
      using vi later_issued [OF l] by (auto simp: violations_ok_def 1(3) 2(3,4) intro: subsetD [OF image_mono [OF 1(4)]])
    show "single_baselines db'" using si register_snapshots [OF assms(2)] by (simp add: single_baselines_def)
    show "get_active_baseline_snapshot db' x = Some b" if "get_active_baseline_snapshot db x = Some b" for x b
      using that register_keeps_baseline [OF assms(2)] by simp
  qed
qed

lemma register_endpoints:
  assumes "register_payload_snapshot s m r fp schema db = ((e, inserted), db')"
  shows "set (db_api_endpoints db) \<subseteq> set (db_api_endpoints db')"
  using assms
  by (auto simp: register_payload_snapshot_def register_snapshot_def Let_def split: prod.splits option.splits if_splits)

text \<open>Activating a snapshot keeps the tables, and the baselines of the other endpoints.\<close>

lemma activate_tables:
  assumes "tracker_ok db"
  shows "tracker_ok (activate_baseline e fp db)"
    "x \<noteq> e \<Longrightarrow> get_active_baseline_snapshot (activate_baseline e fp db) x = get_active_baseline_snapshot db x"
proof -
  let ?on = "\<lambda>x rows. filter (\<lambda>r. sn_endpoint_id r = x \<and> sn_active r)
      (update_rows (\<lambda>r. sn_endpoint_id r = e \<and> sn_fingerprint r = fp) (\<lambda>r. r\<lparr>sn_active := True\<rparr>)
        (update_rows (\<lambda>r. sn_endpoint_id r = e) (\<lambda>r. r\<lparr>sn_active := False\<rparr>) rows))"
  have on: "?on x rows = (if x = e then map (\<lambda>r. r\<lparr>sn_active := True\<rparr>) (filter (\<lambda>r. sn_endpoint_id r = e \<and> sn_fingerprint r = fp) rows)
      else filter (\<lambda>r. sn_endpoint_id r = x \<and> sn_active r) rows)" for x rows
    by (induction rows) (auto simp: update_rows_def)
  have ok: "snapshot_tables_ok db" "violations_ok db" "single_baselines db" using assms(1) by (simp_all add: tracker_ok_def)
  have keep: "map g (db_snapshots (activate_baseline e fp db)) = map g (db_snapshots db)"
    if "\<And>r b. g (r\<lparr>sn_active := b\<rparr>) = g r" for g :: "snapshot_row \<Rightarrow> 'b"
    by (simp add: activate_baseline_def map_update_rows that)
  have refs: "list_all (\<lambda>r. issued db (sn_id r) \<and> sn_endpoint_id r \<in> E) rows =
      list_all (\<lambda>(i, x). issued db i \<and> x \<in> E) (map (\<lambda>r. (sn_id r, sn_endpoint_id r)) rows)" for E rows
    by (simp add: list.pred_map comp_def)
  have same: "db_api_endpoints (activate_baseline e fp db) = db_api_endpoints db" "issued (activate_baseline e fp db) = issued db"
    by (simp_all add: activate_baseline_def)
  have sn: "snapshot_tables_ok (activate_baseline e fp db)"
    using ok(1) unfolding snapshot_tables_ok_def same refs
    by (simp add: keep [of sn_id] keep [of "\<lambda>r. (sn_endpoint_id r, sn_fingerprint r)"] keep [of "\<lambda>r. (sn_id r, sn_endpoint_id r)"]
        del: list.pred_map)
  have vi: "violations_ok (activate_baseline e fp db)" using ok(2) by (simp add: violations_ok_def activate_baseline_def)
  have keys: "distinct (map (\<lambda>r. (sn_endpoint_id r, sn_fingerprint r)) (db_snapshots db))" using ok(1) by (simp add: snapshot_tables_ok_def)
  have "length (filter (\<lambda>r. sn_endpoint_id r = e \<and> sn_fingerprint r = fp) rows) \<le> 1"
    if "distinct (map (\<lambda>r. (sn_endpoint_id r, sn_fingerprint r)) rows)" for rows
    using that by (induction rows) (auto simp: filter_empty_conv image_iff)
  from this [OF keys] have si: "single_baselines (activate_baseline e fp db)"
    using ok(3) on [of _ "db_snapshots db"] by (simp add: single_baselines_def activate_baseline_def)
  have tables: "tracked_tables (activate_baseline e fp db) = tracked_tables db" "db_next db \<le> db_next (activate_baseline e fp db)"
    by (simp_all add: activate_baseline_def tracked_tables_def)
  show "tracker_ok (activate_baseline e fp db)"
    by (rule others_legacy [OF tracked_later [OF tables] assms]) (use tables(1) sn vi si in \<open>simp_all add: tracked_tables_def\<close>)
  show "get_active_baseline_snapshot (activate_baseline e fp db) x = get_active_baseline_snapshot db x" if "x \<noteq> e"
    using that on [of x "db_snapshots db"] by (simp add: get_active_baseline_snapshot_def activate_baseline_def)
qed

lemma activate_good:
  assumes "tracker_ok db" "get_active_baseline_snapshot db e = None"
  shows "good_step db (activate_baseline e fp db)"
proof -
  have "get_active_baseline_snapshot (activate_baseline e fp db) x = Some b" if "get_active_baseline_snapshot db x = Some b" for x b
    using that assms(2) activate_tables(2) [OF assms(1), of x e fp] by (cases "x = e") simp_all
  moreover have "history (activate_baseline e fp db) = history db"
    by (simp add: history_def versions_of_def activate_baseline_def fun_eq_iff)
  ultimately show ?thesis using activate_tables(1) [OF assms(1)] by (simp add: good_step_def extends_def)
qed

lemma log_drift_good:
  "tracker_ok db \<Longrightarrow> e \<in> ae_id ` set (db_api_endpoints db) \<Longrightarrow> good_step db (log_drift_violations e fp ds db)"
proof (induction e fp ds db rule: log_drift_violations.induct)
  case (2 e fp item ds db)
  show ?case
  proof (cases "dr_severity item")
    case (Some severity)
    let ?db1 = "(used_uuid db)\<lparr>db_violations := db_violations db @ [\<lparr>vi_id = new_uuid db, vi_endpoint_id = e, vi_fingerprint = fp,
        vi_severity = severity, vi_payload = db_jsonb db (JObj [(''path'', JStr (dr_path item)),
          (''old'', json_opt (dr_old item)), (''new'', json_opt (dr_new item))])\<rparr>]\<rparr>"
    have ok: "snapshot_tables_ok db" "violations_ok db" "single_baselines db" "inj (db_uuid db)"
      using 2(3) by (simp_all add: tracker_ok_def server_ok_def)
    have "new_uuid db \<notin> vi_id ` set (db_violations db)"
      using ok(2) new_uuid_fresh [OF ok(4)] by (auto simp: violations_ok_def)
    then have 1: "good_step db ?db1"
      using ok(1-3) 2(3,4)
      by (intro legacy_good)
         (auto simp: tracked_tables_def snapshot_tables_ok_def violations_ok_def single_baselines_def list_all_iff issued_used_uuid
            get_active_baseline_snapshot_def, simp_all add: used_uuid_def)
    then have "good_step ?db1 (log_drift_violations e fp ds ?db1)"
      using 2(4) by (intro 2(2) [OF Some]) (simp_all add: good_step_def)
    with 1 Some show ?thesis by (auto intro: good_step_trans)
  qed (use 2 in simp)
qed (simp add: good_step_refl)

lemma legacy_track_good:
  assumes "tracker_ok db" "legacy_track sha s m p payload db = Inr (r, db')"
  shows "good_step db db'"
proof -
  obtain fp where fp: "fingerprint_schema sha payload = Inr fp"
    using assms(2) by (auto simp: legacy_track_def Let_def split: sum.splits)
  obtain e inserted db1 where reg: "register_payload_snapshot s m p fp (normalize_types payload) db = ((e, inserted), db1)"
    by (metis prod.collapse)
  note 1 = register_good [OF assms(1) reg]
  let ?row = "get_active_baseline_snapshot db1 e"
  let ?db2 = "if ?row = None \<and> inserted then activate_baseline e fp db1 else db1"
  have 2: "good_step db1 ?db2" "db_api_endpoints ?db2 = db_api_endpoints db1"
    using 1(1) by (auto simp: good_step_def activate_good [unfolded good_step_def] extends_same) (simp add: activate_baseline_def)
  have "\<exists>ds. db' = log_drift_violations e fp ds ?db2"
    using assms(2) fp reg
    by (auto simp: legacy_track_def Let_def split: sum.splits option.splits if_splits)
       (rule exI, (rule refl | rule log_drift_violations.simps(1) [symmetric]))+
  then obtain ds where db': "db' = log_drift_violations e fp ds ?db2" ..
  have "good_step ?db2 db'"
    unfolding db' using 1(2) 2 by (intro log_drift_good) (simp_all only: good_step_def)
  with 1(1) 2(1) show ?thesis by (blast intro: good_step_trans)
qed

section \<open>Requests and polls\<close>

lemma track_payload_good:
  assumes "tracker_ok (ws_db w)" "track_payload getenv env ops submission w = (answer, w')"
  shows "good_step (ws_db w) (ws_db w')"
proof (cases "build_default_publisher getenv :: py_exc + 'b backend")
  case (Inl x)
  with assms show ?thesis by (simp add: track_payload_def good_step_refl)
next
  case (Inr publisher)
  obtain outcome w1 where t: "track_contract env ops publisher
      (su_namespace submission, su_service_name submission, py_upper (su_http_method submission), su_route_path submission)
      (su_payload submission) w = (outcome, w1)" by (metis prod.collapse)
  note 1 = track_contract_good [OF assms(1) t]
  then have ok1: "tracker_ok (ws_db w1)" by (simp add: good_step_def)
  have "ws_db w' = ws_db w1 \<or> (\<exists>legacy. legacy_track (se_sha env) (su_service_name submission)
      (py_upper (su_http_method submission)) (su_route_path submission) (su_payload submission) (ws_db w1) = Inr (legacy, ws_db w'))"
    using assms(2) Inr t by (auto simp: track_payload_def Let_def split: sum.splits if_splits)
  then show ?thesis using 1 legacy_track_good [OF ok1] by (auto intro: good_step_trans)
qed

lemma create_good:
  assumes "tracker_ok db" "create_handler req db = (sub, db')"
  shows "good_step db db'"
proof (cases "cr_endpoint_id req \<in> registered db")
  case False
  with assms show ?thesis by (simp add: create_handler_def registered_def good_step_refl)
next
  case True
  let ?r = "\<lparr>sub_id = new_uuid db, sub_consumer_id = cr_consumer_id req, sub_endpoint_id = cr_endpoint_id req,
     sub_target_url = cr_target_url req, sub_threshold = cr_severity_threshold req,
     sub_schema_version = cr_schema_version req, sub_active = cr_active req, sub_created_at = db_now db, sub_updated_at = db_now db\<rparr>"
  have db': "db' = (used_uuid db)\<lparr>db_subscriptions := db_subscriptions db @ [?r]\<rparr>"
    using assms(2) True by (auto simp: create_handler_def registered_def create_subscription_def Let_def)
  have l: "later db db'" by (auto simp: db' later_def registered_def) (simp add: used_uuid_def)
  note ok = assms(1) [unfolded tracker_ok_def]
  have "new_uuid db \<notin> sub_id ` set (db_subscriptions db)"
    using ok new_uuid_fresh [of db] by (auto simp: subs_ok_def server_ok_def)
  then have "subs_ok db'"
    using ok True by (auto simp: subs_ok_def db' issued_used_uuid registered_def)
  then have "tracker_ok db'" using later_tables [OF l] ok by (simp add: tracker_ok_def db')
  then show ?thesis by (simp add: good_step_def extends_same db')
qed

lemma patch_good:
  assumes "tracker_ok db" "patch_handler i upd db = (sub, db')"
  shows "good_step db db'"
proof (cases "dump_patch upd = []")
  case True
  with assms show ?thesis by (simp add: patch_handler_def update_subscription_def good_step_refl)
next
  case False
  let ?rows = "update_rows (\<lambda>r. sub_id r = i) (\<lambda>r. (patched upd r)\<lparr>sub_updated_at := db_now db\<rparr>) (db_subscriptions db)"
  have db': "db' = db\<lparr>db_subscriptions := ?rows\<rparr>"
    using assms(2) patch_handler_update(1) [OF False, of i db] by simp
  have ids: "map sub_id ?rows = map sub_id (db_subscriptions db)" by (simp add: map_update_rows)
  have "sub_id ` set ?rows = sub_id ` set (db_subscriptions db)" using arg_cong [OF ids, of set] by simp
  then have l: "later db db'" by (simp add: later_def db' registered_def)
  note ok = assms(1) [unfolded tracker_ok_def]
  have "subs_ok db'"
    unfolding subs_ok_def db' using ok ids
    by (auto simp: subs_ok_def set_update_rows registered_def patched_def)
  then have "tracker_ok db'" using later_tables [OF l] ok by (simp add: tracker_ok_def db')
  then show ?thesis by (simp add: good_step_def extends_same db')
qed

lemma sends_good:
  assumes "tracker_ok db" "sends db db'" "outbox_ok db'" "outbox_ids db'" "outbox_refs db'"
  shows "good_step db db'"
  using sends_tables [OF assms(2,1)] assms(2-5)
  by (simp add: good_step_def tracker_ok_def extends_same sends_def rest_of_def)

lemma replay_good:
  assumes "tracker_ok db" "replay_webhook_dlq store i now (db, net) docs = (result, (db', net'), docs')"
  shows "good_step db db'"
proof -
  have r: "\<exists>out. replay_dlq_entry store i now (db, net) docs = (out, (db', net'), docs')"
    using assms(2) by (auto simp: replay_webhook_dlq_def Let_def split: prod.splits)
  have "db' = db \<or> (\<exists>d ok. dv_endpoint_id d \<in> registered db \<and> deliver_with_retry d 1 (db, net) = (ok, db', net'))"
  proof (cases "get_dlq_entry db i")
    case None
    with r show ?thesis by (simp add: replay_dlq_entry_def)
  next
    case (Some entry)
    then have "entry \<in> set (db_dlq db)" by (auto simp: get_dlq_entry_def dest: first_row_filter_SomeD)
    then have e: "dq_endpoint_id entry \<in> registered db" using assms(1) by (simp add: tracker_ok_def logs_ok_def)
    show ?thesis
    proof (cases "newest_subscription db (dq_endpoint_id entry) (dq_consumer_id entry)")
      case None
      with Some r show ?thesis by (simp add: replay_dlq_entry_def)
    next
      case (Some sub)
      let ?d = "\<lparr>dv_event_id = dq_event_id entry, dv_endpoint_id = dq_endpoint_id entry,
          dv_consumer_id = sub_consumer_id sub, dv_target_url = sub_target_url sub, dv_active = sub_active sub,
          dv_payload = replay_payload (dq_payload entry), dv_persist_dlq = False, dv_now = now\<rparr>"
      obtain ok db1 net1 where d: "deliver_with_retry ?d 1 (db, net) = (ok, db1, net1)" by (metis prod.collapse)
      with \<open>get_dlq_entry db i = Some entry\<close> Some r have "db' = db1" "net' = net1"
        by (auto simp: replay_dlq_entry_def Let_def split: prod.splits)
      with e d show ?thesis by (intro disjI2 exI [of _ ?d] exI [of _ ok]) simp
    qed
  qed
  then show ?thesis
  proof
    assume "\<exists>d ok. dv_endpoint_id d \<in> registered db \<and> deliver_with_retry d 1 (db, net) = (ok, db', net')"
    then obtain d ok where d: "dv_endpoint_id d \<in> registered db" "deliver_with_retry d 1 (db, net) = (ok, db', net')" by blast
    note s = sends_deliver [OF d(2,1)]
    from later_outbox [OF sends_later [OF s(1)] s(2)] assms(1) show ?thesis
      by (intro sends_good [OF assms(1) s(1)]) (simp_all add: tracker_ok_def)
  qed (simp add: good_step_refl assms(1))
qed

lemma poll_good:
  assumes "tracker_ok db" "poll_once env n (db, net) = (res, db', net')"
  shows "good_step db db'"
proof -
  note ok = assms(1) [unfolded tracker_ok_def]
  have o: "outbox_ok db" using ok by simp
  note rows = poll_rows [OF o assms(2)]
  have due: "\<forall>r \<in> set (due_rows db n). ob_endpoint_id r \<in> registered db"
    using ok by (auto simp: due_rows_def limit_rows_def outbox_refs_def dest!: in_set_takeD)
  have "process_items env (due_rows db n) 0 (db, net) = (res, db', net')" using assms(2) by (simp add: poll_once_def)
  then have s: "sends db db'" by (rule sends_process_items) (rule due)
  have same: "ob_id r' = ob_id r \<and> ob_endpoint_id r' = ob_endpoint_id r \<and> ob_subscription_id r' = ob_subscription_id r \<and>
      (ob_status r \<noteq> DELIVERING \<longrightarrow> ob_status r' \<noteq> DELIVERING)"
    if "if r \<in> set (due_rows db n) then row_step (db_now db) r r' \<and> ob_status r' \<noteq> DELIVERING else r' = r" for r r'
    using that by (auto dest: row_step_frame split: if_splits)
  have old: "\<exists>r \<in> set (db_outbox db). ob_id r' = ob_id r \<and> ob_endpoint_id r' = ob_endpoint_id r \<and>
      ob_subscription_id r' = ob_subscription_id r \<and> (ob_status r \<noteq> DELIVERING \<longrightarrow> ob_status r' \<noteq> DELIVERING)"
    if r': "r' \<in> set (db_outbox db')" for r'
  proof -
    from r' obtain i where i: "i < length (db_outbox db')" "r' = db_outbox db' ! i" by (metis in_set_conv_nth)
    with rows(1) have len: "i < length (db_outbox db)" by (simp add: list_all2_lengthD)
    from same [OF list_all2_nthD [OF rows(1) len]] i(2) nth_mem [OF len] show ?thesis by blast
  qed
  note l = sends_later [OF s]
  have "issued db' (ob_id r')" if r': "r' \<in> set (db_outbox db')" for r'
  proof -
    obtain r where r: "r \<in> set (db_outbox db)" "ob_id r' = ob_id r" using old [OF r'] by blast
    then have "issued db (ob_id r)" using ok by (simp add: outbox_ids_def list_all_iff)
    with r(2) later_issued [OF l] show ?thesis by simp
  qed
  moreover have "inj (db_uuid db')" using ok l by (simp add: server_ok_def later_def)
  ultimately have "outbox_ids db'" using rows(3) by (simp add: outbox_ids_def outbox_ok_def list_all_iff)
  moreover have "outbox_refs db'"
    using ok old sends_tables(8,9) [OF s assms(1)] by (fastforce simp: outbox_refs_def)
  ultimately show ?thesis using sends_good [OF assms(1) s rows(3)] by simp
qed

lemma tick_good: "tracker_ok db \<Longrightarrow> good_step db (db\<lparr>db_now := t\<rparr>)"
proof -
  assume ok: "tracker_ok db"
  have l: "later db (db\<lparr>db_now := t\<rparr>)" by (simp add: later_def registered_def)
  have "tracker_ok (db\<lparr>db_now := t\<rparr>)" using later_tables [OF l] ok by (simp add: tracker_ok_def)
  then show ?thesis by (simp add: good_step_def extends_same)
qed

lemma tracker_step_good: "tracker_step getenv ops w w' \<Longrightarrow> tracker_ok (ws_db w) \<Longrightarrow> good_step (ws_db w) (ws_db w')"
  by (induction rule: tracker_step.induct)
     (auto intro: track_payload_good create_good patch_good replay_good poll_good tick_good)

lemma tracker_reachable_good:
  "tracker_reachable getenv ops w0 w \<Longrightarrow> tracker_ok (ws_db w0) \<Longrightarrow> good_step (ws_db w0) (ws_db w)"
  using tracker.invariant_rel [where ok = "\<lambda>w. tracker_ok (ws_db w)" and R = "\<lambda>w w'. good_step (ws_db w) (ws_db w')"]
    tracker_step_good good_step_refl good_step_trans good_step_def by blast

lemma tracker_ok_empty:
  "inj uuids \<Longrightarrow> \<forall>kvs. is_obj (jsonb (JObj kvs)) \<Longrightarrow> tracker_ok (empty_db uuids now jsonb)"
  using registry_ok_empty [of uuids now jsonb]
  by (simp add: tracker_ok_def server_ok_def subs_ok_def outbox_ok_def outbox_ids_def outbox_refs_def logs_ok_def dlq_ok_def
      snapshot_tables_ok_def violations_ok_def single_baselines_def) (simp add: empty_db_def)

section \<open>Properties\<close>

text \<open>
  C3. Whatever is tracked, subscribed, changed, replayed and polled, in whatever order and with
  whatever outcomes, the database the tracker started empty stays consistent: ids and natural keys
  are unique; every version, subscription, outbox row, attempt, dead letter, snapshot and violation
  refers to a row that is there; each endpoint's versions form a chain with one current; each has at
  most one baseline; pending rows have attempts left; and no row is left in delivery by a poll that
  is not interrupted.
\<close>

theorem tracker_constraints_hold:
  assumes "inj uuids" "\<forall>kvs. is_obj (jsonb (JObj kvs))" "ws_db w0 = empty_db uuids now jsonb"
    and "tracker_reachable getenv ops w0 w"
  shows "tracker_ok (ws_db w)"
  using tracker_reachable_good [OF assms(4)] tracker_ok_empty [OF assms(1,2)] assms(3) by (simp add: good_step_def)

text \<open>
  C31. The tracker forgets nothing when requests and polls are taken one after the other, each run to
  its end: from a consistent database on, the history of an endpoint is only ever extended at its end,
  and a baseline of the older guard stays what it is. Requests that overlap between their commits can
  replace a baseline, as \<open>Legacy_Race\<close> shows.
\<close>

theorem contracts_are_never_forgotten:
  assumes "tracker_ok (ws_db w0)" "tracker_reachable getenv ops w0 w"
  shows "prefix (history (ws_db w0) e) (history (ws_db w) e) \<and>
    (get_active_baseline_snapshot (ws_db w0) e' = Some b \<longrightarrow> get_active_baseline_snapshot (ws_db w) e' = Some b)"
  using tracker_reachable_good [OF assms(2,1)] by (simp only: good_step_def extends_def) blast

definition example_submission :: PayloadSubmission where
  "example_submission = \<lparr>su_namespace = ''default'', su_service_name = ''users'', su_http_method = ''get'',
     su_route_path = ''/v1/users'', su_payload = JObj [(''id'', JInt 1)]\<rparr>"

definition start_world :: "(unit, unit) world_state" where
  "start_world = \<lparr>ws_db = empty_db show_nat 0 id, ws_net = flaky [], ws_docs = (), ws_pub = ((), 0)\<rparr>"

lemma example_track:
  "tracker_reachable (\<lambda>_. None) None w (snd (track_payload (\<lambda>_. None) (service_example None) None example_submission w))"
  by (rule tracker.single [OF tracker_step.tracks]) (rule prod.collapse [symmetric])

theorem tracker_constraints_hold_witness:
  "tracker_ok (ws_db (snd (track_payload (\<lambda>_. None) (service_example None) None example_submission start_world)))"
  by (rule tracker_constraints_hold [OF inj_show_nat _ _ example_track, where jsonb = id and now = 0]) (simp_all add: start_world_def is_obj_def)

lemma observed_consistent: "tracker_ok (ws_db (observed payload))"
proof -
  have ok: "tracker_ok (empty_db show_nat 0 id)" by (rule tracker_ok_empty [OF inj_show_nat]) (simp add: is_obj_def)
  obtain e name r inserted db' where u: "upsert_schema_version example_key (fingerprint id (canonicalize payload))
      (canonicalize payload) ''SAFE'' (empty_db show_nat 0 id) = ((e, name, r, inserted), db')" by (metis prod.collapse)
  from upsert_good(1) [OF ok u] show ?thesis by (simp add: good_step_def observed_def u)
qed

theorem contracts_are_never_forgotten_witness:
  "fingerprint id (canonicalize (JObj [])) \<in>
     set (history (ws_db (snd (track_payload (\<lambda>_. None) (service_example None) None example_submission (observed (JObj []))))) ''0'')"
proof -
  have "history (ws_db (observed (JObj []))) ''0'' = [fingerprint id (canonicalize (JObj []))]"
    using observed_ok [of "JObj []"] by (simp add: history_def)
  with contracts_are_never_forgotten [OF observed_consistent [of "JObj []"] example_track, of "''0''" "''0''" "([], JNull)"]
  show ?thesis by (auto dest: set_mono_prefix)
qed

end
