(* ===== verification/Gateway_Track.thy ===== *)
theory Gateway_Track
  imports Gateway Tracker_System
begin

text \<open>
  The gateway in front of the tracker: \<open>gateway/src/forward.ts\<close> posts to \<open>/track\<close> of \<open>app/main.py\<close>.
  The lemmas show what an accepted webhook leaves in the registry, and what a retry does.
\<close>

section \<open>What tracking leaves in the registry\<close>

text \<open>Where an answer and the registry it leaves agree with one observation of the fingerprint.\<close>

definition observed_at :: "endpoint_key \<Rightarrow> string \<Rightarrow> uuid \<Rightarrow> database \<Rightarrow> database \<Rightarrow> bool" where
  "observed_at k fp e db db' \<longleftrightarrow>
     map_option fst (select_endpoint db' k) = Some e \<and> history db' e = observe fp (history db e) \<and>
     (\<forall>x. x \<noteq> e \<longrightarrow> history db' x = history db x) \<and> (\<forall>y. map_option fst (select_endpoint db k) = Some y \<longrightarrow> y = e)"

lemma observed_at_cong:
  assumes "observed_at k fp e db db1" "db_endpoints db2 = db_endpoints db1" "\<And>x. history db2 x = history db1 x"
  shows "observed_at k fp e db db2"
  using assms by (simp add: observed_at_def select_endpoint_def)

text \<open>Observing once more changes no history.\<close>

lemma observed_again:
  assumes "observed_at k fp e a b" "observed_at k fp e' b c"
  shows "e' = e" "history c x = history b x"
proof -
  show e: "e' = e" using assms by (auto simp: observed_at_def)
  show "history c x = history b x" using assms unfolding e by (cases "x = e") (auto simp: observed_at_def observe_def)
qed

lemma upsert_known: "upsert_schema_version k fp schema cls db = ((e, rest), db') \<Longrightarrow> select_endpoint db k = Some i \<Longrightarrow> fst i = e"
  by (cases k) (auto simp: upsert_schema_version_def Let_def split: option.splits prod.splits)

lemma report_drift_registry:
  assumes "report_drift env ops publisher k schema fp e name r previous committed w = (Inr out, w')" "e \<in> registered (ws_db w)"
  shows "db_endpoints (ws_db w') = db_endpoints (ws_db w)" "history (ws_db w') x = history (ws_db w) x"
proof -
  obtain n s m p where k: "k = (n, s, m, p)" by (cases k)
  let ?p = "hd (filter (\<lambda>r. sv_id r = previous) (db_versions (ws_db w)))"
  from assms(1) obtain ds where d: "diff_and_classify (sv_canonical_schema ?p) schema = Inr ds"
    by (auto simp: report_drift_def k Let_def split: sum.splits)
  let ?db1 = "set_classification (sv_id r) (summarize_classification ds) (ws_db w)"
  obtain a db2 net2 where q: "enqueue_webhook_outbox env e (summarize_classification ds) (sv_version r) (map item_dict ds) (?db1, ws_net w) =
      (a, db2, net2)" by (metis prod.collapse)
  then have w': "ws_db w' = db2" using assms(1) d by (auto simp: report_drift_def k Let_def)
  have "e \<in> registered ?db1" using assms(2) by (simp add: set_classification_def registered_def)
  with q have "sends ?db1 db2" by (auto simp: enqueue_webhook_outbox_def Let_def intro: sends_enqueue_all)
  then have same: "db_endpoints db2 = db_endpoints ?db1" "db_versions db2 = db_versions ?db1"
    by (simp_all add: sends_def rest_of_def)
  then show "db_endpoints (ws_db w') = db_endpoints (ws_db w)" by (simp add: w' set_classification_def)
  have "history db2 x = history ?db1 x" using same(2) by (simp add: history_def versions_of_def)
  then show "history (ws_db w') x = history (ws_db w) x" by (simp add: w' set_classification_registry)
qed

lemma track_contract_observes:
  assumes "tracker_ok (ws_db w)" "track_contract env ops publisher k payload w = (Inr res, w')"
  shows "observed_at k (fingerprint (se_sha env) (canonicalize payload)) (tr_endpoint_id res) (ws_db w) (ws_db w')"
proof -
  obtain n s m p where k: "k = (n, s, m, p)" by (cases k)
  let ?fp = "fingerprint (se_sha env) (canonicalize payload)"
  obtain e name r inserted db1 where up:
    "upsert_schema_version k ?fp (canonicalize payload) ''SAFE'' (ws_db w) = ((e, name, r, inserted), db1)" by (metis prod.collapse)
  have "observed_at k ?fp e (ws_db w) db1"
    using upsert_refines_observe_step [OF _ _ up] upsert_known [OF up] assms(1)
    by (auto simp: observed_at_def tracker_ok_def server_ok_def)
  note seen = this upsert_good(2) [OF assms(1) up]
  show ?thesis
  proof (cases "if inserted then sv_previous_version_id r else None")
    case None
    with assms(2) up have "ws_db w' = db1" "tr_endpoint_id res = e" by (auto simp: track_contract_def k Let_def split: if_splits)
    with seen(1) show ?thesis by simp
  next
    case (Some previous)
    define docs where "docs = (case ops of None \<Rightarrow> ws_docs w
      | Some store \<Rightarrow> persist_document (do_payload_snapshot store
          \<lparr>ps_namespace = n, ps_service_name = s, ps_http_method = m, ps_route_path = p, ps_payload = payload,
           ps_fingerprint = ?fp, ps_classification = ''SAFE'', ps_source = ''runtime-track'', ps_schema_version = None,
           ps_metadata = Some (JObj [(''route_path'', JStr p), (''service_name'', JStr s)])\<rparr>) (ws_docs w))"
    let ?w1 = "w\<lparr>ws_db := db1, ws_docs := docs\<rparr>"
    obtain out w2 where r: "report_drift env ops publisher k (canonicalize payload) ?fp e name r previous (ws_db w) ?w1 = (out, w2)"
      by (metis prod.collapse)
    then have "w' = w2 \<and> (\<exists>x. out = Inr x) \<and> tr_endpoint_id res = e"
      using assms(2) up Some unfolding track_contract_def k
      by (auto simp: Let_def docs_def [symmetric] k split: sum.splits prod.splits)
    then obtain x where w': "w' = w2" "out = Inr x" "tr_endpoint_id res = e" by blast
    have "e \<in> registered (ws_db ?w1)" using seen(2) by simp
    note same = report_drift_registry [OF r [unfolded w'(2)] this]
    show ?thesis unfolding w'(1,3)
      by (rule observed_at_cong [OF seen(1)]) (simp_all add: same)
  qed
qed

text \<open>The older guard writes to tables of its own.\<close>

lemma log_drift_endpoints_versions:
  "db_endpoints (log_drift_violations e fp ds db) = db_endpoints db"
  "db_versions (log_drift_violations e fp ds db) = db_versions db"
  by (induction e fp ds db rule: log_drift_violations.induct) (simp_all add: used_uuid_def split: option.split)

lemma legacy_track_registry:
  assumes "legacy_track sha s m p payload db = Inr (legacy, db')"
  shows "db_endpoints db' = db_endpoints db" "db_versions db' = db_versions db"
proof -
  have reg: "db_endpoints d1 = db_endpoints d \<and> db_versions d1 = db_versions d"
    if "register_payload_snapshot s m p fp schema d = (x, d1)" for fp schema d x d1
    using that by (auto simp: register_payload_snapshot_def register_snapshot_def used_uuid_def Let_def
        split: prod.splits if_splits option.splits)
  show "db_endpoints db' = db_endpoints db" "db_versions db' = db_versions db"
    using assms
    by (auto simp: legacy_track_def Let_def log_drift_endpoints_versions activate_baseline_def dest!: reg
        split: sum.splits prod.splits option.splits if_splits)
qed

fun answer_result :: "track_answer \<Rightarrow> track_result" where
  "answer_result (Runtime_only r) = r"
| "answer_result (Combined r _ _ _) = r"

lemma track_payload_observes:
  assumes "tracker_ok (ws_db w)" "track_payload getenv env ops sub w = (Inr answer, w')"
  shows "observed_at (su_namespace sub, su_service_name sub, py_upper (su_http_method sub), su_route_path sub)
    (fingerprint (se_sha env) (canonicalize (su_payload sub))) (tr_endpoint_id (answer_result answer)) (ws_db w) (ws_db w')"
proof -
  let ?k = "(su_namespace sub, su_service_name sub, py_upper (su_http_method sub), su_route_path sub)"
  from assms(2) obtain publisher :: "'b backend" where p: "build_default_publisher getenv = Inr publisher"
    by (auto simp: track_payload_def split: sum.splits)
  obtain outcome w1 where t: "track_contract env ops publisher ?k (su_payload sub) w = (outcome, w1)" by (metis prod.collapse)
  with assms(2) p obtain res where r: "outcome = Inr res" by (cases outcome) (auto simp: track_payload_def Let_def)
  note seen = track_contract_observes [OF assms(1) t [unfolded r]]
  have "tr_endpoint_id (answer_result answer) = tr_endpoint_id res \<and>
    (ws_db w' = ws_db w1 \<or> (\<exists>legacy. legacy_track (se_sha env) (su_service_name sub) (py_upper (su_http_method sub))
      (su_route_path sub) (su_payload sub) (ws_db w1) = Inr (legacy, ws_db w')))"
    using assms(2) p t r by (auto simp: track_payload_def Let_def split: sum.splits if_splits)
  then have e: "tr_endpoint_id (answer_result answer) = tr_endpoint_id res"
    and same: "db_endpoints (ws_db w') = db_endpoints (ws_db w1)" "db_versions (ws_db w') = db_versions (ws_db w1)"
    by (auto simp: legacy_track_registry)
  show ?thesis
    unfolding e by (rule observed_at_cong [OF seen same(1)]) (simp add: history_def versions_of_def same(2))
qed


section \<open>The runtime behind the gateway\<close>

text \<open>
  The body of the forward as the tracker reads it. Text arrives as it is; \<open>wire\<close> is what becomes of
  the payload between \<open>JSON.stringify\<close> and \<open>json.loads\<close>: JavaScript's numbers are doubles.
\<close>

definition received :: "(json \<Rightarrow> json) \<Rightarrow> json \<Rightarrow> json" where
  "received wire body =
     (case body of
        JObj kvs \<Rightarrow> JObj (map (\<lambda>(k, v). (k, if k = ''payload'' then wire v else v)) kvs)
      | _ \<Rightarrow> body)"

text \<open>The validation of \<open>PayloadSubmission\<close>.\<close>

definition required_text :: "json \<Rightarrow> string \<Rightarrow> string option" where
  "required_text body k = (case jget body k of Some (JStr s) \<Rightarrow> Some s | _ \<Rightarrow> None)"

definition parse_submission :: "json \<Rightarrow> PayloadSubmission option" where
  "parse_submission body =
     (case (if jget body ''namespace'' = None then Some ''default'' else required_text body ''namespace'', required_text body ''service_name'', required_text body ''http_method'',
            required_text body ''route_path'', jget body ''payload'') of
        (Some namespace, Some service_name, Some http_method, Some route_path, Some (JObj kvs)) \<Rightarrow>
          Some \<lparr>su_namespace = namespace, su_service_name = service_name, su_http_method = http_method,
                su_route_path = route_path, su_payload = JObj kvs\<rparr>
      | _ \<Rightarrow> None)"

text \<open>The response to an answer of the handler, which raises no \<open>HTTPException\<close>: what it raises is answered 500.\<close>

definition track_response :: "py_exc + track_answer \<Rightarrow> runtime_reply" where
  "track_response answer =
     (case answer of
        Inr _ \<Rightarrow> Replied 200 None
      | Inl _ \<Rightarrow> Replied 500 (Some ''Internal Server Error''))"

text \<open>What the network makes of one post.\<close>

datatype fate = Arrives | Answer_lost string | Unreachable string

definition runtime_post ::
  "fate \<Rightarrow> (json \<Rightarrow> json) \<Rightarrow> (string \<Rightarrow> string option) \<Rightarrow> service_env \<Rightarrow> 'ds doc_ops option \<Rightarrow> json
     \<Rightarrow> ('ds, 's) world_state \<Rightarrow> runtime_reply \<times> ('ds, 's) world_state" where
  "runtime_post fate wire getenv env ops body w =
     (let (r, w') =
        (case parse_submission (received wire body) of
           None \<Rightarrow> (Replied 422 None, w)
         | Some submission \<Rightarrow>
             let (answer, w') = track_payload getenv env ops submission w in (track_response answer, w'))
      in case fate of
           Arrives \<Rightarrow> (r, w')
         | Answer_lost message \<Rightarrow> (Fetch_failed message, w')
         | Unreachable message \<Rightarrow> (Fetch_failed message, w))"

text \<open>The submission of a forwarded webhook.\<close>

definition webhook_submission :: "string \<Rightarrow> json \<Rightarrow> PayloadSubmission" where
  "webhook_submission source payload =
     \<lparr>su_namespace = ''gateway'', su_service_name = source, su_http_method = ''POST'',
      su_route_path = ''/webhooks/'' @ source, su_payload = payload\<rparr>"

lemma parse_forward:
  "parse_submission (received wire (forward_body source payload)) =
     (if is_obj (wire payload) then Some (webhook_submission source (wire payload)) else None)"
  by (cases "wire payload")
     (simp_all add: parse_submission_def received_def forward_body_def required_text_def webhook_submission_def is_obj_def)

lemma track_response_ok: "forward_result (track_response answer) = None \<longleftrightarrow> (\<exists>a. answer = Inr a)"
  by (auto simp: track_response_def forward_result_def split: sum.splits)


section \<open>Properties\<close>

text \<open>One post to the tracker, when it gets there.\<close>

lemma runtime_post_arrives:
  assumes "tracker_ok (ws_db w)" "runtime_post fate wire getenv env ops (forward_body s payload) w = (r, w')" "forward_result r = None"
  shows "\<exists>e. observed_at (''gateway'', s, ''POST'', ''/webhooks/'' @ s) (fingerprint (se_sha env) (canonicalize (wire payload))) e
    (ws_db w) (ws_db w') \<and> tracker_ok (ws_db w')"
proof -
  have obj: "is_obj (wire payload)" and arr: "fate = Arrives"
    using assms(2,3) by (auto simp: runtime_post_def parse_forward forward_result_def Let_def split: fate.splits prod.splits if_splits)
  obtain answer w1 where t: "track_payload getenv env ops (webhook_submission s (wire payload)) w = (answer, w1)" by (metis prod.collapse)
  with obj arr assms(2) have r: "r = track_response answer" "w' = w1"
    by (simp_all add: runtime_post_def parse_forward Let_def)
  with assms(3) obtain a where "answer = Inr a" by (auto simp: track_response_ok)
  from track_payload_observes [OF assms(1) t [unfolded this]]
  have "observed_at (''gateway'', s, ''POST'', ''/webhooks/'' @ s) (fingerprint (se_sha env) (canonicalize (wire payload)))
      (tr_endpoint_id (answer_result a)) (ws_db w) (ws_db w')"
    by (simp add: webhook_submission_def r(2) py_upper_def upper_char_def code_of_def Let_def)
  moreover have "tracker_ok (ws_db w')" using track_payload_good [OF assms(1) t] by (simp add: good_step_def r(2))
  ultimately show ?thesis by blast
qed

text \<open>
  C4. An accepted webhook has been tracked. In a consistent database, when the gateway answers 202 the
  contract of the body is in the history of the endpoint registered for its source under the
  namespace \<open>gateway\<close>: added at the end if it was new, every other history as it was; and the key is
  stored.
\<close>

theorem accepted_webhook_is_tracked:
  assumes "tracker_ok (ws_db w)"
    and "handle opts (runtime_post fate wire getenv env ops) rq (store, w) = (Accepted s k, store', w')"
  shows "\<exists>body payload e. wh_body rq = Some body \<and> go_parse opts body = Inr payload \<and> s = wh_source rq \<and>
    observed_at (''gateway'', s, ''POST'', ''/webhooks/'' @ s) (fingerprint (se_sha env) (canonicalize (wire payload))) e
      (ws_db w) (ws_db w') \<and>
    tracker_ok (ws_db w') \<and> k \<notin> set store \<and> k \<in> set store'"
  using assms(2)
proof (cases rule: handle_cases)
  case refused
  then show ?thesis using admit_never_accepts by blast
next
  case failed
  then show ?thesis by simp
next
  case (accepted payload k' r)
  from runtime_post_arrives [OF assms(1) accepted(2,3)] accepted(1,4,5) show ?thesis
    by (auto simp: admit_Forward)
qed

text \<open>A contract that was observed is known: tracking it once more succeeds, and tells nobody.\<close>

lemma legacy_track_total:
  assumes "is_obj payload"
  shows "\<exists>r. legacy_track sha s m p payload db = Inr r"
proof -
  obtain kvs where "payload = JObj kvs" using assms by (cases payload) (simp_all add: is_obj_def)
  then obtain structural fp where "structural_string payload = Inr structural" "fingerprint_schema sha payload = Inr fp"
    by (simp add: structural_string_def fingerprint_schema_def)
  then show ?thesis by (simp add: legacy_track_def Let_def split: prod.split option.split)
qed

lemma track_payload_again:
  fixes w :: "('ds, 's) world_state" and publisher :: "'s backend"
  assumes "build_default_publisher getenv = Inr publisher" "is_obj (su_payload sub)"
    and "observed_at (su_namespace sub, su_service_name sub, py_upper (su_http_method sub), su_route_path sub)
      (fingerprint (se_sha env) (canonicalize (su_payload sub))) e db (ws_db w)"
  shows "\<exists>answer w'. track_payload getenv env ops sub w = (Inr answer, w') \<and> ws_net w' = ws_net w \<and> ws_pub w' = ws_pub w"
proof -
  let ?k = "(su_namespace sub, su_service_name sub, py_upper (su_http_method sub), su_route_path sub)"
  obtain name where "select_endpoint (ws_db w) ?k = Some (e, name)" using assms(3) by (auto simp: observed_at_def)
  moreover have "fingerprint (se_sha env) (canonicalize (su_payload sub)) \<in> set (history (ws_db w) e)"
    using assms(3) by (auto simp: observed_at_def observe_def)
  ultimately obtain r w1 where t: "track_contract env ops publisher ?k (su_payload sub) w = (Inr r, w1)"
    "ws_net w1 = ws_net w" "ws_pub w1 = ws_pub w" using track_known_contract by blast
  obtain legacy db2 where "legacy_track (se_sha env) (su_service_name sub) (py_upper (su_http_method sub)) (su_route_path sub)
      (su_payload sub) (ws_db w1) = Inr (legacy, db2)" using legacy_track_total [OF assms(2)] by (metis prod.collapse)
  then show ?thesis using assms(1) t by (simp add: track_payload_def Let_def)
qed

text \<open>
  C19. A forward that fails may have been tracked, and a retry is safe for the contracts. When the
  answer of a tracked webhook is lost, the gateway answers 502 and does not store the key. The retry
  of the same request is then accepted under its key, which is stored: it is tracked again, leaves
  every history as the first left it, and nobody is notified and nothing published once more.
\<close>

theorem retry_after_lost_answer:
  fixes w :: "('ds, 's) world_state"
  assumes "tracker_ok (ws_db w)" "admit opts store rq = Forward payload k" "is_obj (wire payload)"
    and "track_payload getenv env ops (webhook_submission (wh_source rq) (wire payload)) w = (Inr answer, w1)"
    and "se_sha env' = se_sha env"
  shows "handle opts (runtime_post (Answer_lost message) wire getenv env ops) rq (store, w) =
      (Rejected 502 ''enqueue_failed'' message, store, w1) \<and>
    (\<exists>store' w2. handle opts (runtime_post Arrives wire getenv env' ops) rq (store, w1) =
        (Accepted (wh_source rq) k, store', w2) \<and> k \<in> set store' \<and>
      (\<forall>x. history (ws_db w2) x = history (ws_db w1) x) \<and> ws_net w2 = ws_net w1 \<and> ws_pub w2 = ws_pub w1)"
proof
  let ?sub = "webhook_submission (wh_source rq) (wire payload)"
  have "runtime_post (Answer_lost message) wire getenv env ops (forward_body (wh_source rq) payload) w = (Fetch_failed message, w1)"
    using assms(3,4) by (simp add: runtime_post_def parse_forward)
  then show "handle opts (runtime_post (Answer_lost message) wire getenv env ops) rq (store, w) =
      (Rejected 502 ''enqueue_failed'' message, store, w1)"
    using assms(2) by (simp add: handle_def Let_def conclude_def forward_result_def)
  obtain publisher :: "'s backend" where pub: "build_default_publisher getenv = Inr publisher"
    using assms(4) by (auto simp: track_payload_def split: sum.splits)
  note seen = track_payload_observes [OF assms(1,4)]
  have ok: "tracker_ok (ws_db w1)" using track_payload_good [OF assms(1,4)] by (simp add: good_step_def)
  obtain answer2 w2 where again: "track_payload getenv env' ops ?sub w1 = (Inr answer2, w2)" "ws_net w2 = ws_net w1" "ws_pub w2 = ws_pub w1"
    using track_payload_again [OF pub, where env = env' and sub = ?sub] seen assms(3,5) by (fastforce simp: webhook_submission_def)
  note seen2 = track_payload_observes [OF ok again(1)]
  have same: "history (ws_db w2) x = history (ws_db w1) x" for x
    by (rule observed_again(2) [OF seen seen2 [unfolded assms(5)]])
  have "handle opts (runtime_post Arrives wire getenv env' ops) rq (store, w1) = (Accepted (wh_source rq) k, store_add k store, w2)"
    using assms(2,3) again(1)
    by (simp add: handle_def runtime_post_def parse_forward track_response_def forward_result_def conclude_def)
  with same again(2,3) show "\<exists>store' w2. handle opts (runtime_post Arrives wire getenv env' ops) rq (store, w1) =
        (Accepted (wh_source rq) k, store', w2) \<and> k \<in> set store' \<and>
      (\<forall>x. history (ws_db w2) x = history (ws_db w1) x) \<and> ws_net w2 = ws_net w1 \<and> ws_pub w2 = ws_pub w1"
    by (intro exI [of _ "store_add k store"] exI [of _ w2]) (simp add: store_add_def)
qed


section \<open>An example\<close>

abbreviation example_post :: "fate \<Rightarrow> json \<Rightarrow> (unit, unit) world_state \<Rightarrow> runtime_reply \<times> (unit, unit) world_state" where
  "example_post fate \<equiv> runtime_post fate id (\<lambda>_. None) (service_example None) None"

text \<open>The tracker answers the example webhook, and its retry.\<close>

lemma example_answers:
  obtains answer w1 answer2 w2 where
    "track_payload (\<lambda>_. None) (service_example None) None (webhook_submission ''shop'' (JObj [])) start_world = (Inr answer, w1)"
    "track_payload (\<lambda>_. None) (service_example None) None (webhook_submission ''shop'' (JObj [])) w1 = (Inr answer2, w2)"
proof -
  let ?track = "track_payload (\<lambda>_. None) (service_example None) None (webhook_submission ''shop'' (JObj []))"
  have "(case ?track start_world of (Inl _, _) \<Rightarrow> False | (Inr _, w1) \<Rightarrow> (case fst (?track w1) of Inl _ \<Rightarrow> False | Inr _ \<Rightarrow> True))"
    by code_simp
  then obtain answer w1 answer2 where "?track start_world = (Inr answer, w1)" "fst (?track w1) = Inr answer2"
    by (auto split: prod.splits sum.splits)
  with that show thesis by (metis prod.collapse)
qed

lemma example_handled:
  assumes "track_payload (\<lambda>_. None) (service_example None) None (webhook_submission ''shop'' (JObj [])) w = (Inr answer, w')"
  shows "handle example_options (example_post Arrives) example_webhook ([], w) = (Accepted ''shop'' ''k1'', [''k1''], w')"
proof -
  have s: "wh_source example_webhook = ''shop''" by (simp add: example_webhook_def)
  show ?thesis
    using assms by (simp add: handle_def example_admitted s runtime_post_def parse_forward is_obj_def track_response_def
        forward_result_def conclude_def store_add_def)
qed

lemma start_world_ok: "tracker_ok (ws_db start_world)"
  by (simp add: start_world_def tracker_ok_empty [OF inj_show_nat] is_obj_def)

theorem accepted_webhook_is_tracked_witness:
  "\<exists>w' e. handle example_options (example_post Arrives) example_webhook ([], start_world) = (Accepted ''shop'' ''k1'', [''k1''], w') \<and>
     history (ws_db w') e = [fingerprint id (canonicalize (JObj []))]"
proof -
  obtain answer w1 where "track_payload (\<lambda>_. None) (service_example None) None (webhook_submission ''shop'' (JObj [])) start_world = (Inr answer, w1)"
    by (rule example_answers)
  note h = example_handled [OF this]
  have "history (ws_db start_world) e = []" for e by (simp add: start_world_def history_def versions_of_def) (simp add: empty_db_def)
  with accepted_webhook_is_tracked [OF start_world_ok h] h show ?thesis
    by (auto simp: observed_at_def observe_def service_example_def example_options_def)
qed

theorem retry_after_lost_answer_witness:
  "\<exists>w1 w2 store. handle example_options (example_post (Answer_lost ''timeout'')) example_webhook ([], start_world) =
      (Rejected 502 ''enqueue_failed'' ''timeout'', [], w1) \<and>
    handle example_options (example_post Arrives) example_webhook ([], w1) = (Accepted ''shop'' ''k1'', store, w2) \<and>
    history (ws_db w2) ''0'' = history (ws_db w1) ''0''"
proof -
  obtain answer w1 answer2 w2 where
    t: "track_payload (\<lambda>_. None) (service_example None) None (webhook_submission ''shop'' (JObj [])) start_world = (Inr answer, w1)"
    by (rule example_answers)
  have s: "wh_source example_webhook = ''shop''" by (simp add: example_webhook_def)
  have "track_payload (\<lambda>_. None) (service_example None) None (webhook_submission (wh_source example_webhook) (id (JObj []))) start_world = (Inr answer, w1)"
    "is_obj (id (JObj []))"
    using t by (simp_all add: s is_obj_def)
  from retry_after_lost_answer [where wire = id and message = "''timeout''", OF start_world_ok example_admitted this(2,1) refl] s
  show ?thesis by auto
qed

end
