(* ===== verification/Outbox_Race.thy ===== *)
theory Outbox_Race
  imports Outbox_Worker Subscriptions Transitions
begin

text \<open>
  Several workers on one outbox: every server process starts \<open>run_outbox_worker\<close>, and the selection of
  \<open>app/workers/outbox_worker.py\<close> takes row locks, skipping the rows others hold. The locks last until
  the worker's next commit, which is the claim of the first row of its batch. With batches of one row
  no two workers ever hold the same row; with two rows an interleaving posts a notification twice.
  A worker may stop between any two steps.
\<close>

section \<open>Workers and steps\<close>

text \<open>The two halves of an iteration, separated by the commit of the claim.\<close>

definition claim_item :: "outbox_row \<Rightarrow> database \<Rightarrow> database" where
  "claim_item item db = update_outbox (ob_id item) (\<lambda>r. r\<lparr>ob_status := DELIVERING\<rparr>) db"

definition deliver_item :: "env \<Rightarrow> outbox_row \<Rightarrow> database \<times> network \<Rightarrow> py_exc option \<times> database \<times> network" where
  "deliver_item env item w =
     (case outbox_subscription (fst w) (ob_subscription_id item) of
        None \<Rightarrow> (None, update_outbox (ob_id item) (\<lambda>r. r\<lparr>ob_status := FAILED\<rparr>) (fst w), snd w)
      | Some sub \<Rightarrow>
          (case event_body env (ob_payload item) of
             Inl e \<Rightarrow> (Some e, w)
           | Inr body \<Rightarrow>
               let (ok, db2, net2) = deliver_with_retry
                     \<lparr>dv_event_id = event_id_of env (ob_payload item), dv_endpoint_id = ob_endpoint_id item,
                      dv_consumer_id = sub_consumer_id sub, dv_target_url = sub_target_url sub,
                      dv_active = sub_active sub, dv_payload = body, dv_persist_dlq = False,
                      dv_now = env_now env\<rparr> 1 w
               in (None, settle_item env item sub ok db2, net2)))"

lemma process_item_halves:
  "process_item env item (db, net) = deliver_item env item (claim_item item db, net)"
  by (simp add: process_item_def deliver_item_def claim_item_def Let_def split: option.split sum.split)

datatype worker =
    Idle
  | Batch "outbox_row list"                  \<comment> \<open>rows read and not yet claimed\<close>
  | Claimed outbox_row "outbox_row list"     \<comment> \<open>one row claimed, the rest of the batch\<close>

record outbox_world =
  ow_db :: database
  ow_net :: network
  ow_locks :: "(uuid \<times> nat) list"   \<comment> \<open>row and holder\<close>
  ow_workers :: "worker list"

definition available_rows :: "outbox_world \<Rightarrow> int \<Rightarrow> outbox_row list" where
  "available_rows w batch_size =
     limit_rows batch_size (order_asc ob_created_at
       (filter (\<lambda>r. ob_status r = PENDING \<and> ob_next_retry_at r \<le> db_now (ow_db w) \<and> ob_id r \<notin> fst ` set (ow_locks w))
         (db_outbox (ow_db w))))"

text \<open>An update waits for the row locks of the others.\<close>

definition free_for :: "outbox_world \<Rightarrow> nat \<Rightarrow> outbox_row \<Rightarrow> bool" where
  "free_for w i item = list_all (\<lambda>(l, j). l = ob_id item \<longrightarrow> j = i) (ow_locks w)"

definition set_worker :: "nat \<Rightarrow> worker \<Rightarrow> outbox_world \<Rightarrow> outbox_world" where
  "set_worker i k w = w\<lparr>ow_workers := (ow_workers w)[i := k]\<rparr>"

definition unlock :: "nat \<Rightarrow> outbox_world \<Rightarrow> outbox_world" where
  "unlock i w = w\<lparr>ow_locks := filter (\<lambda>(l, j). j \<noteq> i) (ow_locks w)\<rparr>"

text \<open>
  A worker may stop at any moment, cancelled when the application shuts down (\<open>lifespan\<close> in
  \<open>app/main.py\<close>) or with its process: what it has not committed is rolled back, its locks are gone, and
  another starts in its place. One that has posted may have committed the log of the attempt.
\<close>

inductive outbox_step :: "env \<Rightarrow> int \<Rightarrow> outbox_world \<Rightarrow> outbox_world \<Rightarrow> bool" for env batch_size where
  select: "i < length (ow_workers w) \<Longrightarrow> ow_workers w ! i = Idle \<Longrightarrow>
     items = available_rows w batch_size \<Longrightarrow> items \<noteq> [] \<Longrightarrow>
     outbox_step env batch_size w
       (set_worker i (Batch items) (w\<lparr>ow_locks := map (\<lambda>r. (ob_id r, i)) items @ ow_locks w\<rparr>))"
| claim: "i < length (ow_workers w) \<Longrightarrow> ow_workers w ! i = Batch (item # rest) \<Longrightarrow> free_for w i item \<Longrightarrow>
     outbox_step env batch_size w
       (set_worker i (Claimed item rest) (unlock i (w\<lparr>ow_db := claim_item item (ow_db w)\<rparr>)))"
| deliver: "i < length (ow_workers w) \<Longrightarrow> ow_workers w ! i = Claimed item rest \<Longrightarrow> free_for w i item \<Longrightarrow>
     deliver_item env item (ow_db w, ow_net w) = (e, db', net') \<Longrightarrow>
     outbox_step env batch_size w
       (set_worker i (if e = None \<and> rest \<noteq> [] then Batch rest else Idle) (w\<lparr>ow_db := db', ow_net := net'\<rparr>))"
| stops: "i < length (ow_workers w) \<Longrightarrow> outbox_step env batch_size w (set_worker i Idle (unlock i w))"
| posts_and_stops: "i < length (ow_workers w) \<Longrightarrow> ow_workers w ! i = Claimed item rest \<Longrightarrow>
     deliver_item env item (ow_db w, ow_net w) = (e, db', net') \<Longrightarrow>
     db'' = ow_db w \<or> db'' = db'\<lparr>db_outbox := db_outbox (ow_db w), db_dlq := db_dlq (ow_db w)\<rparr> \<Longrightarrow>
     outbox_step env batch_size w (set_worker i Idle (unlock i (w\<lparr>ow_db := db'', ow_net := net'\<rparr>)))"
| tick: "db_now (ow_db w) \<le> t \<Longrightarrow> outbox_step env batch_size w (w\<lparr>ow_db := (ow_db w)\<lparr>db_now := t\<rparr>\<rparr>)"

inductive outbox_reachable :: "env \<Rightarrow> int \<Rightarrow> outbox_world \<Rightarrow> outbox_world \<Rightarrow> bool" for env batch_size w0 where
  init: "outbox_reachable env batch_size w0 w0"
| more: "outbox_reachable env batch_size w0 w \<Longrightarrow> outbox_step env batch_size w w' \<Longrightarrow>
     outbox_reachable env batch_size w0 w'"

interpretation outboxes: transitions "outbox_step env n" "outbox_reachable env n" for env n
  by unfold_locales (auto intro: outbox_reachable.intros elim: outbox_reachable.induct)

definition resting :: "outbox_world \<Rightarrow> bool" where
  "resting w \<longleftrightarrow> ow_locks w = [] \<and> list_all (\<lambda>k. k = Idle) (ow_workers w) \<and> distinct (map ob_id (db_outbox (ow_db w)))"

lemma world_simps [simp]:
  "ow_db (set_worker i k w) = ow_db w" "ow_net (set_worker i k w) = ow_net w" "ow_locks (set_worker i k w) = ow_locks w"
  "ow_workers (set_worker i k w) = (ow_workers w)[i := k]"
  "ow_db (unlock i w) = ow_db w" "ow_net (unlock i w) = ow_net w" "ow_workers (unlock i w) = ow_workers w"
  "ow_locks (unlock i w) = filter (\<lambda>(l, j). j \<noteq> i) (ow_locks w)"
  by (simp_all add: set_worker_def unlock_def)

section \<open>Batches of one row\<close>

fun in_hand :: "worker \<Rightarrow> outbox_row list" where
  "in_hand Idle = []"
| "in_hand (Batch items) = items"
| "in_hand (Claimed item rest) = item # rest"

definition status_of :: "database \<Rightarrow> uuid \<Rightarrow> outbox_status option" where
  "status_of db i = map_option ob_status (first_row (filter (\<lambda>r. ob_id r = i) (db_outbox db)))"

text \<open>A waiting row is locked by its worker, a claimed one is in DELIVERING, and nobody else has it.\<close>

definition worker_ok :: "outbox_world \<Rightarrow> nat \<Rightarrow> bool" where
  "worker_ok w i \<longleftrightarrow>
     (case ow_workers w ! i of
        Idle \<Rightarrow> i \<notin> snd ` set (ow_locks w)
      | Batch items \<Rightarrow> (\<exists>r. items = [r] \<and> (\<forall>l. (l, i) \<in> set (ow_locks w) \<longleftrightarrow> l = ob_id r))
      | Claimed r rest \<Rightarrow> rest = [] \<and> i \<notin> snd ` set (ow_locks w) \<and> status_of (ow_db w) (ob_id r) = Some DELIVERING)"

definition one_hand :: "outbox_world \<Rightarrow> bool" where
  "one_hand w \<longleftrightarrow> distinct (map ob_id (db_outbox (ow_db w))) \<and> (\<forall>i < length (ow_workers w). worker_ok w i) \<and>
     snd ` set (ow_locks w) \<subseteq> {..< length (ow_workers w)} \<and>
     (\<forall>l \<in> fst ` set (ow_locks w). status_of (ow_db w) l = Some PENDING) \<and>
     (\<forall>i < length (ow_workers w). \<forall>j < length (ow_workers w). i \<noteq> j \<longrightarrow>
        ob_id ` set (in_hand (ow_workers w ! i)) \<inter> ob_id ` set (in_hand (ow_workers w ! j)) = {})"

lemma status_of_update:
  assumes "\<And>r. ob_id (f r) = ob_id r"
  shows "status_of (update_outbox i f db) j =
    (if i = j then map_option (\<lambda>r. ob_status (f r)) (first_row (filter (\<lambda>r. ob_id r = j) (db_outbox db))) else status_of db j)"
  unfolding status_of_def update_outbox_frame by (subst first_row_update) (simp_all add: assms option.map_comp comp_def)

lemma settle_item_outbox:
  "\<exists>f. (\<forall>r. ob_id (f r) = ob_id r) \<and>
     db_outbox (settle_item env item sub ok db) = db_outbox (update_outbox (ob_id item) f db)"
proof (cases ok)
  case True
  show ?thesis
    by (rule exI [of _ "\<lambda>r. r\<lparr>ob_status := DELIVERED, ob_attempts := ob_attempts r + 1\<rparr>"]) (simp add: settle_item_def True)
next
  case False
  show ?thesis
  proof (cases "ob_max_attempts item \<le> ob_attempts item + 1")
    case True
    show ?thesis
      by (rule exI [of _ "\<lambda>r. r\<lparr>ob_status := FAILED, ob_attempts := ob_attempts item + 1\<rparr>"])
         (simp add: settle_item_def False True Let_def)
  next
    case more: False
    show ?thesis
      by (rule exI [of _ "\<lambda>r. r\<lparr>ob_status := PENDING, ob_attempts := ob_attempts item + 1,
            ob_next_retry_at := db_now db + backoff_seconds (ob_attempts item + 1)\<rparr>"])
         (simp add: settle_item_def False more Let_def)
  qed
qed

text \<open>Delivering touches one row of the outbox.\<close>

lemma deliver_item_outbox:
  assumes "deliver_item env item (db, net) = (e, db', net')"
  shows "\<exists>f. (\<forall>r. ob_id (f r) = ob_id r) \<and> (db_outbox db' = db_outbox (update_outbox (ob_id item) f db) \<or> db' = db)"
proof (cases "outbox_subscription db (ob_subscription_id item)")
  case None
  then show ?thesis
    using assms by (intro exI [of _ "\<lambda>r. r\<lparr>ob_status := FAILED\<rparr>"]) (auto simp: deliver_item_def)
next
  case sub: (Some sub)
  show ?thesis
  proof (cases "event_body env (ob_payload item)")
    case (Inl x)
    then show ?thesis using assms sub by (intro exI [of _ id]) (simp add: deliver_item_def)
  next
    case (Inr body)
    let ?d = "\<lparr>dv_event_id = event_id_of env (ob_payload item), dv_endpoint_id = ob_endpoint_id item,
          dv_consumer_id = sub_consumer_id sub, dv_target_url = sub_target_url sub,
          dv_active = sub_active sub, dv_payload = body, dv_persist_dlq = False, dv_now = env_now env\<rparr>"
    obtain ok db2 net2 where d: "deliver_with_retry ?d 1 (db, net) = (ok, db2, net2)" by (metis prod.collapse)
    with Inr sub assms have db': "db' = settle_item env item sub ok db2" by (simp add: deliver_item_def)
    have fr: "db_outbox db2 = db_outbox db" "db_now db2 = db_now db" using webhook.frame [OF d] by simp_all
    obtain f where f: "\<forall>r. ob_id (f r) = ob_id r" "db_outbox db' = db_outbox (update_outbox (ob_id item) f db2)"
      unfolding db' using settle_item_outbox [of env item sub ok db2] by blast
    then have "db_outbox db' = db_outbox (update_outbox (ob_id item) f db)" by (simp add: fr)
    with f(1) show ?thesis by blast
  qed
qed

lemma deliver_item_others:
  assumes "deliver_item env item (db, net) = (e, db', net')"
  shows "map ob_id (db_outbox db') = map ob_id (db_outbox db)"
    and "j \<noteq> ob_id item \<Longrightarrow> status_of db' j = status_of db j"
proof -
  obtain f where f: "\<And>r. ob_id (f r) = ob_id r"
    and db': "db_outbox db' = db_outbox (update_outbox (ob_id item) f db) \<or> db' = db"
    using deliver_item_outbox [OF assms] by blast
  show "map ob_id (db_outbox db') = map ob_id (db_outbox db)" using db' by (auto simp: map_update_rows f)
  show "status_of db' j = status_of db j" if "j \<noteq> ob_id item"
  proof -
    have "status_of (update_outbox (ob_id item) f db) j = status_of db j" using status_of_update [of f, OF f] that by simp
    then show ?thesis using db' by (auto simp: status_of_def)
  qed
qed

lemma claim_item_rows:
  "map ob_id (db_outbox (claim_item r db)) = map ob_id (db_outbox db)"
  "status_of (claim_item r db) j =
     (if j = ob_id r then map_option (\<lambda>_. DELIVERING) (status_of db j) else status_of db j)"
  by (simp add: claim_item_def map_update_rows)
     (simp add: claim_item_def status_of_update, simp add: status_of_def option.map_comp comp_def)

lemma available_row:
  assumes "distinct (map ob_id (db_outbox (ow_db w)))" "r \<in> set (available_rows w n)"
  shows "status_of (ow_db w) (ob_id r) = Some PENDING \<and> ob_id r \<notin> fst ` set (ow_locks w)"
proof -
  have r: "r \<in> set (db_outbox (ow_db w))" "ob_status r = PENDING" "ob_id r \<notin> fst ` set (ow_locks w)"
    using in_set_takeD [OF assms(2) [unfolded available_rows_def limit_rows_def]] by simp_all
  have "first_row (filter (\<lambda>q. ob_id q = ob_id r) (db_outbox (ow_db w))) = Some r"
    by (rule first_row_unique [OF r(1)]) (use assms(1) r(1) in \<open>auto simp: distinct_map inj_on_def\<close>)
  then show ?thesis using r by (simp add: status_of_def)
qed

lemma available_one:
  assumes "available_rows w 1 = items" "items \<noteq> []"
  shows "\<exists>r. items = [r]"
proof -
  have "length items \<le> 1" using assms(1) by (auto simp: available_rows_def limit_rows_def)
  with assms(2) show ?thesis by (cases items) auto
qed

text \<open>What another worker holds is locked by it, waiting, or in DELIVERING.\<close>

lemma held_status:
  assumes "one_hand w" "j < length (ow_workers w)" "q \<in> set (in_hand (ow_workers w ! j))"
  shows "ob_id q \<in> fst ` set (ow_locks w) \<or> status_of (ow_db w) (ob_id q) = Some DELIVERING"
proof -
  have ok: "worker_ok w j" using assms(1,2) by (simp add: one_hand_def)
  show ?thesis
  proof (cases "ow_workers w ! j")
    case (Batch items)
    with ok obtain r where r: "items = [r]" "\<forall>l. (l, j) \<in> set (ow_locks w) \<longleftrightarrow> l = ob_id r"
      unfolding worker_ok_def by auto
    then have "q = r" using assms(3) Batch by simp
    then have "(ob_id q, j) \<in> set (ow_locks w)" using r(2) by blast
    then show ?thesis by (metis fst_conv image_eqI)
  next
    case Idle
    then show ?thesis using assms(3) by simp
  next
    case (Claimed r rest)
    then show ?thesis using ok assms(3) by (simp add: worker_ok_def)
  qed
qed

lemma one_handD:
  assumes "one_hand w"
  shows "distinct (map ob_id (db_outbox (ow_db w)))" "j < length (ow_workers w) \<Longrightarrow> worker_ok w j"
    "(l, j) \<in> set (ow_locks w) \<Longrightarrow> j < length (ow_workers w)"
    "(l, j) \<in> set (ow_locks w) \<Longrightarrow> status_of (ow_db w) l = Some PENDING"
    "i < length (ow_workers w) \<Longrightarrow> j < length (ow_workers w) \<Longrightarrow> i \<noteq> j \<Longrightarrow>
       ob_id ` set (in_hand (ow_workers w ! i)) \<inter> ob_id ` set (in_hand (ow_workers w ! j)) = {}"
proof -
  note h = assms [unfolded one_hand_def]
  note tail = conjunct2 [OF conjunct2 [OF h]]
  show "distinct (map ob_id (db_outbox (ow_db w)))" by (rule conjunct1 [OF h])
  show "j < length (ow_workers w) \<Longrightarrow> worker_ok w j" using conjunct1 [OF conjunct2 [OF h]] by simp
  show "i < length (ow_workers w) \<Longrightarrow> j < length (ow_workers w) \<Longrightarrow> i \<noteq> j \<Longrightarrow>
       ob_id ` set (in_hand (ow_workers w ! i)) \<inter> ob_id ` set (in_hand (ow_workers w ! j)) = {}"
    using conjunct2 [OF conjunct2 [OF tail]] by simp
  assume lock: "(l, j) \<in> set (ow_locks w)"
  have "snd (l, j) \<in> {..<length (ow_workers w)}" by (rule subsetD [OF conjunct1 [OF tail] imageI [OF lock]])
  then show "j < length (ow_workers w)" by simp
  have "status_of (ow_db w) (fst (l, j)) = Some PENDING"
    by (rule bspec [OF conjunct1 [OF conjunct2 [OF tail]] imageI [OF lock]])
  then show "status_of (ow_db w) l = Some PENDING" by simp
qed

lemma one_handI:
  assumes "distinct (map ob_id (db_outbox (ow_db w)))" "\<And>j. j < length (ow_workers w) \<Longrightarrow> worker_ok w j"
    and "\<And>l j. (l, j) \<in> set (ow_locks w) \<Longrightarrow> j < length (ow_workers w) \<and> status_of (ow_db w) l = Some PENDING"
    and "\<And>i j. i < length (ow_workers w) \<Longrightarrow> j < length (ow_workers w) \<Longrightarrow> i \<noteq> j \<Longrightarrow>
       ob_id ` set (in_hand (ow_workers w ! i)) \<inter> ob_id ` set (in_hand (ow_workers w ! j)) = {}"
  shows "one_hand w"
  unfolding one_hand_def using assms by (intro conjI ballI allI impI) auto

lemma lock_owner:
  assumes "one_hand w" "(l, j) \<in> set (ow_locks w)"
  shows "\<exists>q. ow_workers w ! j = Batch [q] \<and> ob_id q = l"
proof -
  have j: "j \<in> snd ` set (ow_locks w)" using assms(2) by (metis image_eqI snd_conv)
  have "worker_ok w j" using one_handD(2,3) [OF assms(1)] assms(2) by blast
  then show ?thesis using j assms(2) by (auto simp: worker_ok_def split: worker.splits)
qed

lemma one_hand_select:
  assumes "one_hand w" "i < length (ow_workers w)" "ow_workers w ! i = Idle"
    and "items = available_rows w 1" "items \<noteq> []"
  shows "one_hand (set_worker i (Batch items) (w\<lparr>ow_locks := map (\<lambda>r. (ob_id r, i)) items @ ow_locks w\<rparr>))"
    (is "one_hand ?w")
proof -
  obtain r where r: "items = [r]" using available_one assms(4,5) by blast
  then have "r \<in> set (available_rows w 1)" using assms(4) by simp
  note st = available_row [OF one_handD(1) [OF assms(1)] this]
  have new: "ob_id r \<notin> ob_id ` set (in_hand (ow_workers w ! j))" if "j < length (ow_workers w)" for j
    using held_status [OF assms(1) that] st by fastforce
  have idle: "i \<notin> snd ` set (ow_locks w)" using one_handD(2) [OF assms(1,2)] assms(3) by (simp add: worker_ok_def)
  show ?thesis
  proof (rule one_handI)
    show "worker_ok ?w j" if "j < length (ow_workers ?w)" for j
    proof (cases "j = i")
      case True
      then show ?thesis using assms(2) idle by (auto simp: worker_ok_def r image_iff)
    next
      case False
      have "worker_ok w j" using one_handD(2) [OF assms(1)] that by simp
      then show ?thesis using False by (auto simp: worker_ok_def r split: worker.splits)
    qed
    show "j < length (ow_workers ?w) \<and> status_of (ow_db ?w) l = Some PENDING" if "(l, j) \<in> set (ow_locks ?w)" for l j
      using that st assms(2) one_handD(3,4) [OF assms(1)] by (auto simp: r)
    show "ob_id ` set (in_hand (ow_workers ?w ! a)) \<inter> ob_id ` set (in_hand (ow_workers ?w ! b)) = {}"
      if "a < length (ow_workers ?w)" "b < length (ow_workers ?w)" "a \<noteq> b" for a b
      using that new [of a] new [of b] one_handD(5) [OF assms(1), of a b] assms(2) by (simp add: r nth_list_update)
  qed (use one_handD(1) [OF assms(1)] in simp)
qed

lemma one_hand_claim:
  assumes "one_hand w" "i < length (ow_workers w)" "ow_workers w ! i = Batch (item # rest)"
  shows "one_hand (set_worker i (Claimed item rest) (unlock i (w\<lparr>ow_db := claim_item item (ow_db w)\<rparr>)))"
    (is "one_hand ?w")
proof -
  from one_handD(2) [OF assms(1,2)] assms(3) have rest: "rest = []" and lock: "(ob_id item, i) \<in> set (ow_locks w)"
    by (auto simp: worker_ok_def)
  have other: "ob_id q \<noteq> ob_id item" if "j < length (ow_workers w)" "j \<noteq> i" "q \<in> set (in_hand (ow_workers w ! j))" for j q
    using one_handD(5) [OF assms(1) that(1) assms(2) that(2)] imageI [OF that(3), of ob_id] assms(3) by auto
  have mine: "l \<noteq> ob_id item" if "(l, j) \<in> set (ow_locks w)" "j \<noteq> i" for l j
    using lock_owner [OF assms(1) that(1)] other [OF one_handD(3) [OF assms(1) that(1)] that(2)] by auto
  have pend: "status_of (ow_db w) (ob_id item) = Some PENDING" by (rule one_handD(4) [OF assms(1) lock])
  show ?thesis
  proof (rule one_handI)
    show "worker_ok ?w j" if "j < length (ow_workers ?w)" for j
    proof (cases "j = i")
      case True
      then show ?thesis using assms(2) rest pend by (auto simp: worker_ok_def claim_item_rows image_iff)
    next
      case False
      have j: "j < length (ow_workers w)" using that by simp
      show ?thesis
        using one_handD(2) [OF assms(1) j] other [OF j False] False
        by (auto simp: worker_ok_def claim_item_rows image_iff split: worker.splits)
    qed
    show "j < length (ow_workers ?w) \<and> status_of (ow_db ?w) l = Some PENDING" if "(l, j) \<in> set (ow_locks ?w)" for l j
      using that mine [of l j] one_handD(3,4) [OF assms(1), of l j] by (auto simp: claim_item_rows)
    show "ob_id ` set (in_hand (ow_workers ?w ! a)) \<inter> ob_id ` set (in_hand (ow_workers ?w ! b)) = {}"
      if "a < length (ow_workers ?w)" "b < length (ow_workers ?w)" "a \<noteq> b" for a b
      using that one_handD(5) [OF assms(1), of a b] assms(2,3) by (cases "a = i"; cases "b = i") simp_all
  qed (use one_handD(1) [OF assms(1)] in \<open>simp add: claim_item_rows\<close>)
qed

lemma one_hand_deliver:
  assumes "one_hand w" "i < length (ow_workers w)" "ow_workers w ! i = Claimed item rest"
    and "deliver_item env item (ow_db w, ow_net w) = (e, db', net')"
  shows "one_hand (set_worker i (if e = None \<and> rest \<noteq> [] then Batch rest else Idle) (w\<lparr>ow_db := db', ow_net := net'\<rparr>))"
    (is "one_hand ?w")
proof -
  from one_handD(2) [OF assms(1,2)] assms(3) have rest: "rest = []" and free: "i \<notin> snd ` set (ow_locks w)"
    and claimed: "status_of (ow_db w) (ob_id item) = Some DELIVERING"
    by (auto simp: worker_ok_def)
  note rows = deliver_item_others [OF assms(4)]
  have other: "ob_id q \<noteq> ob_id item" if "j < length (ow_workers w)" "j \<noteq> i" "q \<in> set (in_hand (ow_workers w ! j))" for j q
    using one_handD(5) [OF assms(1) that(1) assms(2) that(2)] imageI [OF that(3), of ob_id] assms(3) by auto
  have mine: "l \<noteq> ob_id item" if "(l, j) \<in> set (ow_locks w)" for l j
    using one_handD(4) [OF assms(1) that] claimed by auto
  show ?thesis
  proof (rule one_handI)
    show "worker_ok ?w j" if "j < length (ow_workers ?w)" for j
    proof (cases "j = i")
      case True
      then show ?thesis using assms(2) rest free by (auto simp: worker_ok_def)
    next
      case False
      have j: "j < length (ow_workers w)" using that by simp
      show ?thesis
        using one_handD(2) [OF assms(1) j] other [OF j False] False
        by (auto simp: worker_ok_def rows(2) split: worker.splits)
    qed
    show "j < length (ow_workers ?w) \<and> status_of (ow_db ?w) l = Some PENDING" if "(l, j) \<in> set (ow_locks ?w)" for l j
      using that mine [of l j] one_handD(3,4) [OF assms(1), of l j] by (auto simp: rows(2))
    show "ob_id ` set (in_hand (ow_workers ?w ! a)) \<inter> ob_id ` set (in_hand (ow_workers ?w ! b)) = {}"
      if "a < length (ow_workers ?w)" "b < length (ow_workers ?w)" "a \<noteq> b" for a b
      using that one_handD(5) [OF assms(1), of a b] assms(2) rest by (cases "a = i"; cases "b = i") simp_all
  qed (use one_handD(1) [OF assms(1)] in \<open>simp add: rows(1)\<close>)
qed

lemma one_hand_cong:
  assumes "ow_workers w' = ow_workers w" "ow_locks w' = ow_locks w" "db_outbox (ow_db w') = db_outbox (ow_db w)"
  shows "one_hand w' = one_hand w"
  using assms by (simp add: one_hand_def worker_ok_def status_of_def cong: worker.case_cong)

text \<open>A worker that stops leaves its row to nobody.\<close>

lemma one_hand_stop:
  assumes "one_hand w" "i < length (ow_workers w)"
  shows "one_hand (set_worker i Idle (unlock i w))" (is "one_hand ?w")
proof (rule one_handI)
  show "worker_ok ?w j" if "j < length (ow_workers ?w)" for j
  proof (cases "j = i")
    case True
    then show ?thesis using assms(2) by (auto simp: worker_ok_def)
  next
    case False
    have "worker_ok w j" using one_handD(2) [OF assms(1)] that by simp
    then show ?thesis using False by (auto simp: worker_ok_def image_iff split: worker.splits)
  qed
  show "j < length (ow_workers ?w) \<and> status_of (ow_db ?w) l = Some PENDING" if "(l, j) \<in> set (ow_locks ?w)" for l j
    using that one_handD(3,4) [OF assms(1), of l j] by auto
  show "ob_id ` set (in_hand (ow_workers ?w ! a)) \<inter> ob_id ` set (in_hand (ow_workers ?w ! b)) = {}"
    if "a < length (ow_workers ?w)" "b < length (ow_workers ?w)" "a \<noteq> b" for a b
    using that one_handD(5) [OF assms(1), of a b] assms(2) by (cases "a = i"; cases "b = i") simp_all
qed (use one_handD(1) [OF assms(1)] in simp)

lemma one_hand_step: "outbox_step env 1 w w' \<Longrightarrow> one_hand w \<Longrightarrow> one_hand w'"
proof (induction rule: outbox_step.induct)
  case (select i w items)
  then show ?case by (intro one_hand_select)
next
  case (claim i w item rest)
  then show ?case by (intro one_hand_claim)
next
  case (deliver i w item rest e db' net')
  then show ?case by (intro one_hand_deliver)
next
  case (stops i w)
  then show ?case by (intro one_hand_stop)
next
  case (posts_and_stops i w item rest e db' net' db'')
  then have "one_hand (w\<lparr>ow_db := db'', ow_net := net'\<rparr>)"
    by (subst one_hand_cong [of _ w]) auto
  with posts_and_stops(1) show ?case by (intro one_hand_stop) simp_all
next
  case (tick w t)
  then show ?case by (subst one_hand_cong [of _ w]) simp_all
qed

lemma one_hand_resting: "resting w \<Longrightarrow> one_hand w"
  by (intro one_handI) (simp_all add: resting_def worker_ok_def list_all_length)

lemma one_hand_reachable: "outbox_reachable env 1 w0 w \<Longrightarrow> resting w0 \<Longrightarrow> one_hand w"
  by (rule outboxes.invariant [where ok = one_hand, OF one_hand_step]) (auto intro: one_hand_resting)

text \<open>
  C13. With batches of one row any number of workers share the outbox safely, in every interleaving:
  a row is in the hands of one worker at most, and a row that is being delivered is in DELIVERING,
  so that nobody else can take it.
\<close>

theorem single_row_batches_are_exclusive:
  assumes "resting w0" "outbox_reachable env 1 w0 w" "i < length (ow_workers w)" "ow_workers w ! i = Claimed r rest"
  shows "rest = [] \<and> status_of (ow_db w) (ob_id r) = Some DELIVERING \<and>
    r \<notin> set (available_rows w n) \<and>
    list_all (\<lambda>j. j = i \<or> ob_id r \<notin> ob_id ` set (in_hand (ow_workers w ! j))) [0..<length (ow_workers w)]"
proof -
  note inv = one_hand_reachable [OF assms(2,1)]
  have ok: "rest = []" "status_of (ow_db w) (ob_id r) = Some DELIVERING"
    using one_handD(2) [OF inv assms(3)] assms(4) by (simp_all add: worker_ok_def)
  have "r \<notin> set (available_rows w n)"
    using available_row [OF one_handD(1) [OF inv], of r n] ok(2) by auto
  moreover have "j = i \<or> ob_id r \<notin> ob_id ` set (in_hand (ow_workers w ! j))" if "j < length (ow_workers w)" for j
    using one_handD(5) [OF inv that assms(3)] assms(4) by (cases "j = i") auto
  ultimately show ?thesis using ok by (simp add: list_all_length)
qed

definition example_race :: outbox_world where
  "example_race =
     \<lparr>ow_db = (subs_db [example_sub ''RISKY''])\<lparr>db_outbox := [example_row ''o1'' PENDING, example_row ''o2'' PENDING]\<rparr>,
      ow_net = flaky [], ow_locks = [], ow_workers = [Idle, Idle]\<rparr>"

lemma resting_example: "resting example_race"
  by (simp add: resting_def example_race_def example_row_def)

theorem single_row_batches_are_exclusive_witness:
  "\<exists>w. outbox_reachable example_env 1 example_race w \<and> ow_workers w ! 0 = Claimed (example_row ''o1'' PENDING) [] \<and>
     status_of (ow_db w) ''o1'' = Some DELIVERING \<and> example_row ''o1'' PENDING \<notin> set (available_rows w 1)"
proof -
  let ?r = "example_row ''o1'' PENDING"
  have "available_rows example_race 1 = [?r]"
    by (simp add: available_rows_def limit_rows_def order_asc_def example_race_def example_row_def subs_db_def empty_db_def)
  then have 1: "outbox_reachable example_env 1 example_race
      (set_worker 0 (Batch [?r]) (example_race\<lparr>ow_locks := [(''o1'', 0)]\<rparr>))" (is "outbox_reachable _ _ _ ?w1")
    using outbox_reachable.more [OF outbox_reachable.init outbox_step.select [of 0 example_race "[?r]" 1 example_env]]
    by (simp add: example_race_def example_row_def)
  obtain w where w: "outbox_reachable example_env 1 example_race w" "ow_workers w = [Claimed ?r [], Idle]"
    using outbox_reachable.more [OF 1 outbox_step.claim [of 0 ?w1 ?r "[]"]]
    by (force simp: free_for_def example_race_def example_row_def)
  have "0 < length (ow_workers w)" "ow_workers w ! 0 = Claimed ?r []" using w(2) by simp_all
  from single_row_batches_are_exclusive [OF resting_example w(1) this, of 1] w show ?thesis
    by (auto simp: example_row_def)
qed

section \<open>Larger batches\<close>

text \<open>A delivery to an active subscription, whatever the answer, posts and does not raise.\<close>

lemma deliver_item_posts:
  assumes "outbox_subscription db (ob_subscription_id item) = Some sub" "sub_active sub" "is_obj (ob_payload item)"
  shows "\<exists>db'. deliver_item env item (db, net) =
      (None, db', net\<lparr>nw_sent := nw_sent net @ [(sub_target_url sub, ob_payload item)]\<rparr>) \<and>
    db_subscriptions db' = db_subscriptions db \<and> db_now db' = db_now db"
proof -
  have body: "event_body env (ob_payload item) = Inr (ob_payload item)"
    using assms(3) by (cases "ob_payload item") (simp_all add: event_body_def is_obj_def)
  show ?thesis
    using assms(1,2) body
    by (simp add: deliver_item_def deliver_once Let_def log_attempt_def dead_letter_def settle_item_frame split: option.split)
qed

lemma claim_item_frame:
  "db_subscriptions (claim_item r db) = db_subscriptions db" "db_now (claim_item r db) = db_now db"
  by (simp_all add: claim_item_def)

lemma outbox_subscription_cong: "db_subscriptions db' = db_subscriptions db \<Longrightarrow> outbox_subscription db' i = outbox_subscription db i"
  by (simp add: outbox_subscription_def)

text \<open>One more step of a worker, as the state it leaves.\<close>

lemma reach_select:
  assumes "outbox_reachable env n w0 w" "i < length (ow_workers w)" "ow_workers w ! i = Idle"
    and "available_rows w n = items" "items \<noteq> []"
  shows "\<exists>w'. outbox_reachable env n w0 w' \<and> ow_workers w' = (ow_workers w)[i := Batch items] \<and>
    ow_locks w' = map (\<lambda>r. (ob_id r, i)) items @ ow_locks w \<and> ow_db w' = ow_db w \<and> ow_net w' = ow_net w"
  by (rule exI, rule conjI [OF outbox_reachable.more [OF assms(1)
        outbox_step.select [OF assms(2,3) assms(4) [symmetric] assms(5)]]]) simp

lemma reach_claim:
  assumes "outbox_reachable env n w0 w" "i < length (ow_workers w)" "ow_workers w ! i = Batch (item # rest)" "free_for w i item"
  shows "\<exists>w'. outbox_reachable env n w0 w' \<and> ow_workers w' = (ow_workers w)[i := Claimed item rest] \<and>
    ow_locks w' = filter (\<lambda>(l, j). j \<noteq> i) (ow_locks w) \<and> ow_db w' = claim_item item (ow_db w) \<and> ow_net w' = ow_net w"
  by (rule exI, rule conjI [OF outbox_reachable.more [OF assms(1) outbox_step.claim [OF assms(2-4)]]]) simp

lemma reach_deliver:
  assumes "outbox_reachable env n w0 w" "i < length (ow_workers w)" "ow_workers w ! i = Claimed item rest" "free_for w i item"
    and "outbox_subscription (ow_db w) (ob_subscription_id item) = Some sub" "sub_active sub" "is_obj (ob_payload item)"
  shows "\<exists>w'. outbox_reachable env n w0 w' \<and>
    ow_workers w' = (ow_workers w)[i := if rest \<noteq> [] then Batch rest else Idle] \<and> ow_locks w' = ow_locks w \<and>
    db_subscriptions (ow_db w') = db_subscriptions (ow_db w) \<and>
    nw_sent (ow_net w') = nw_sent (ow_net w) @ [(sub_target_url sub, ob_payload item)]"
proof -
  obtain db' where d: "deliver_item env item (ow_db w, ow_net w) =
      (None, db', (ow_net w)\<lparr>nw_sent := nw_sent (ow_net w) @ [(sub_target_url sub, ob_payload item)]\<rparr>)"
    and s: "db_subscriptions db' = db_subscriptions (ow_db w)"
    using deliver_item_posts [OF assms(5-7)] by blast
  show ?thesis
    by (rule exI, rule conjI [OF outbox_reachable.more [OF assms(1) outbox_step.deliver [OF assms(2-4) d]]]) (simp add: s)
qed

text \<open>A batch of two leaves its second row to another worker; in two hands it is posted by both.\<close>

lemma second_row_in_two_hands:
  assumes "resting w0" "ow_workers w0 = [Idle, Idle]" "db_outbox (ow_db w0) = [r1, r2]" "2 \<le> n"
    and "ob_status r1 = PENDING" "ob_status r2 = PENDING"
    and "ob_next_retry_at r1 \<le> db_now (ow_db w0)" "ob_next_retry_at r2 \<le> db_now (ow_db w0)" "ob_created_at r1 \<le> ob_created_at r2"
  shows "\<exists>w. outbox_reachable env n w0 w \<and> ow_workers w = [Claimed r1 [r2], Claimed r2 []] \<and> ow_locks w = [] \<and>
    db_subscriptions (ow_db w) = db_subscriptions (ow_db w0) \<and> ow_net w = ow_net w0"
proof -
  have locks: "ow_locks w0 = []" and ids: "ob_id r1 \<noteq> ob_id r2" using assms(1,3) by (auto simp: resting_def)
  have "available_rows w0 n = [r1, r2]"
    using assms(3-9) by (simp add: available_rows_def limit_rows_def order_asc_def locks)
  then obtain w1 where
    1: "outbox_reachable env n w0 w1" "ow_workers w1 = [Batch [r1, r2], Idle]" "ow_locks w1 = [(ob_id r1, 0), (ob_id r2, 0)]"
      "ow_db w1 = ow_db w0" "ow_net w1 = ow_net w0"
    using reach_select [OF outboxes.start, where i = 0 and w = w0 and items = "[r1, r2]"] assms(2) by (auto simp: locks)
  obtain w2 where
    2: "outbox_reachable env n w0 w2" "ow_workers w2 = [Claimed r1 [r2], Idle]" "ow_locks w2 = []"
      "ow_db w2 = claim_item r1 (ow_db w0)" "ow_net w2 = ow_net w0"
    using reach_claim [OF 1(1), where i = 0 and item = r1 and rest = "[r2]"] 1(2-) by (auto simp: free_for_def)
  have "db_outbox (ow_db w2) = [r1\<lparr>ob_status := DELIVERING, ob_updated_at := db_now (ow_db w0)\<rparr>, r2]"
    using assms(3) ids by (simp add: 2 claim_item_def update_rows_def)
  then have "available_rows w2 n = [r2]"
    using assms(4,6,8) by (simp add: available_rows_def limit_rows_def order_asc_def 2 claim_item_frame)
  then obtain w3 where
    3: "outbox_reachable env n w0 w3" "ow_workers w3 = [Claimed r1 [r2], Batch [r2]]" "ow_locks w3 = [(ob_id r2, 1)]"
      "ow_db w3 = claim_item r1 (ow_db w0)" "ow_net w3 = ow_net w0"
    using reach_select [OF 2(1), where i = 1 and items = "[r2]"] 2(2-) by auto
  show ?thesis
    using reach_claim [OF 3(1), where i = 1 and item = r2 and rest = "[]"] 3(2-)
    by (auto simp: free_for_def claim_item_frame)
qed

lemma two_hands_post_twice:
  assumes "outbox_reachable env n w0 w" "ow_workers w = [Claimed r1 [r2], Claimed r2 []]" "ow_locks w = []"
    and "outbox_subscription (ow_db w) (ob_subscription_id r1) = Some s1" "sub_active s1" "is_obj (ob_payload r1)"
    and "outbox_subscription (ow_db w) (ob_subscription_id r2) = Some s2" "sub_active s2" "is_obj (ob_payload r2)"
  shows "\<exists>w'. outbox_reachable env n w0 w' \<and> nw_sent (ow_net w') = nw_sent (ow_net w) @
    [(sub_target_url s2, ob_payload r2), (sub_target_url s1, ob_payload r1), (sub_target_url s2, ob_payload r2)]"
proof -
  have subs: "outbox_subscription db (ob_subscription_id r1) = Some s1" "outbox_subscription db (ob_subscription_id r2) = Some s2"
    if "db_subscriptions db = db_subscriptions (ow_db w)" for db
    using outbox_subscription_cong [OF that] assms(4,7) by simp_all
  obtain w1 where
    1: "outbox_reachable env n w0 w1" "ow_workers w1 = [Claimed r1 [r2], Idle]" "ow_locks w1 = []"
      "db_subscriptions (ow_db w1) = db_subscriptions (ow_db w)"
      "nw_sent (ow_net w1) = nw_sent (ow_net w) @ [(sub_target_url s2, ob_payload r2)]"
    using reach_deliver [OF assms(1), where i = 1 and item = r2 and rest = "[]" and sub = s2] assms(2,3,7-9)
    by (auto simp: free_for_def)
  obtain w2 where
    2: "outbox_reachable env n w0 w2" "ow_workers w2 = [Batch [r2], Idle]" "ow_locks w2 = []"
      "db_subscriptions (ow_db w2) = db_subscriptions (ow_db w)"
      "nw_sent (ow_net w2) = nw_sent (ow_net w) @ [(sub_target_url s2, ob_payload r2), (sub_target_url s1, ob_payload r1)]"
    using reach_deliver [OF 1(1), where i = 0 and item = r1 and rest = "[r2]" and sub = s1] 1(2-) subs(1) [OF 1(4)] assms(5,6)
    by (auto simp: free_for_def)
  obtain w3 where
    3: "outbox_reachable env n w0 w3" "ow_workers w3 = [Claimed r2 [], Idle]" "ow_locks w3 = []"
      "db_subscriptions (ow_db w3) = db_subscriptions (ow_db w)" "nw_sent (ow_net w3) = nw_sent (ow_net w2)"
    using reach_claim [OF 2(1), where i = 0 and item = r2 and rest = "[]"] 2(2-)
    by (auto simp: free_for_def claim_item_frame)
  show ?thesis
    using reach_deliver [OF 3(1), where i = 0 and item = r2 and rest = "[]" and sub = s2] 3(2-) 2(5) subs(2) [OF 3(4)] assms(8,9)
    by (auto simp: free_for_def)
qed

text \<open>
  C15. With batches of two rows or more the locks do not last: the commit that claims the first row
  of a batch releases the others, which are still pending. A second worker takes the second row and
  delivers it, and the first worker, which has it in memory, claims and delivers it once more. The
  notification is posted twice whatever the subscriber answers.
\<close>

theorem notification_posted_twice:
  assumes "resting w0" "ow_workers w0 = [Idle, Idle]" "db_outbox (ow_db w0) = [r1, r2]" "2 \<le> n"
    and "ob_status r1 = PENDING" "ob_status r2 = PENDING"
    and "ob_next_retry_at r1 \<le> db_now (ow_db w0)" "ob_next_retry_at r2 \<le> db_now (ow_db w0)"
    and "ob_created_at r1 \<le> ob_created_at r2" "is_obj (ob_payload r1)" "is_obj (ob_payload r2)"
    and "outbox_subscription (ow_db w0) (ob_subscription_id r1) = Some s1" "sub_active s1"
    and "outbox_subscription (ow_db w0) (ob_subscription_id r2) = Some s2" "sub_active s2"
  shows "\<exists>w. outbox_reachable env n w0 w \<and>
    nw_sent (ow_net w) = nw_sent (ow_net w0) @
      [(sub_target_url s2, ob_payload r2), (sub_target_url s1, ob_payload r1), (sub_target_url s2, ob_payload r2)]"
proof -
  obtain w where
    w: "outbox_reachable env n w0 w" "ow_workers w = [Claimed r1 [r2], Claimed r2 []]" "ow_locks w = []"
      "db_subscriptions (ow_db w) = db_subscriptions (ow_db w0)" "ow_net w = ow_net w0"
    using second_row_in_two_hands [OF assms(1-9)] by blast
  note known = outbox_subscription_cong [OF w(4)]
  have "outbox_subscription (ow_db w) (ob_subscription_id r1) = Some s1" "outbox_subscription (ow_db w) (ob_subscription_id r2) = Some s2"
    using assms(12,14) by (simp_all add: known)
  from two_hands_post_twice [OF w(1-3) this(1) assms(13,10) this(2) assms(15,11)] show ?thesis by (simp add: w(5))
qed

theorem notification_posted_twice_witness:
  "\<exists>w. outbox_reachable example_env 50 example_race w \<and> length (nw_sent (ow_net w)) = 3"
proof -
  let ?r1 = "example_row ''o1'' PENDING" and ?r2 = "example_row ''o2'' PENDING"
  have "ow_workers example_race = [Idle, Idle]" "db_outbox (ow_db example_race) = [?r1, ?r2]" "2 \<le> (50::int)"
    "ob_status ?r1 = PENDING" "ob_status ?r2 = PENDING" "ob_next_retry_at ?r1 \<le> db_now (ow_db example_race)"
    "ob_next_retry_at ?r2 \<le> db_now (ow_db example_race)" "ob_created_at ?r1 \<le> ob_created_at ?r2"
    "is_obj (ob_payload ?r1)" "is_obj (ob_payload ?r2)"
    "outbox_subscription (ow_db example_race) (ob_subscription_id ?r1) = Some (example_sub ''RISKY'')"
    "sub_active (example_sub ''RISKY'')"
    "outbox_subscription (ow_db example_race) (ob_subscription_id ?r2) = Some (example_sub ''RISKY'')"
    "sub_active (example_sub ''RISKY'')"
    by (simp_all add: example_race_def example_row_def subs_db_def empty_db_def outbox_subscription_def example_sub_def is_obj_def)
  from notification_posted_twice [OF resting_example this, of example_env] show ?thesis
    by (auto simp: example_race_def flaky_def)
qed

end
