(* ===== verification/Notification_Life.thy ===== *)
theory Notification_Life
  imports Outbox_Race "HOL-Library.Multiset"
begin

text \<open>
  What the outbox promises of one notification: \<open>life_step\<close> is the whole life of a row of
  \<open>notification_outbox\<close> as a machine of five moves over its status and its counters. The lemmas show
  that any number of workers with batches of one row, and a single worker with batches of any size,
  however they interleave, only ever run that machine (\<open>simulation\<close>), so that a notification that was
  delivered or given up stays so; and that the machine stands still for good at a notification whose
  worker stops after the claim.
\<close>

section \<open>The life of a notification\<close>

text \<open>Status, attempts made and attempts allowed.\<close>

type_synonym progress = "outbox_status \<times> int \<times> int"

inductive life_step :: "progress option \<Rightarrow> progress option \<Rightarrow> bool" where
  claimed: "life_step (Some (PENDING, a, m)) (Some (DELIVERING, a, m))"
| delivered: "life_step (Some (DELIVERING, a, m)) (Some (DELIVERED, a + 1, m))"
| retried: "a + 1 < m \<Longrightarrow> life_step (Some (DELIVERING, a, m)) (Some (PENDING, a + 1, m))"
| exhausted: "m \<le> a + 1 \<Longrightarrow> life_step (Some (DELIVERING, a, m)) (Some (FAILED, a + 1, m))"
| orphaned: "life_step (Some (DELIVERING, a, m)) (Some (FAILED, a, m))"

inductive_cases life_stepE: "life_step p q"

inductive life :: "progress option \<Rightarrow> progress option \<Rightarrow> bool" for p where
  unborn: "life p p"
| lives: "life p q \<Longrightarrow> life_step q r \<Longrightarrow> life p r"

interpretation living: transitions life_step life
  by unfold_locales (auto intro: life.intros elim: life.induct)

text \<open>The last two states are final.\<close>

lemma life_final:
  assumes "life (Some (s, a, m)) q" "s = DELIVERED \<or> s = FAILED"
  shows "q = Some (s, a, m)"
proof (rule living.invariant [where ok = "\<lambda>q. q = Some (s, a, m)", OF _ assms(1)])
  show "t = Some (s, a, m)" if "life_step q t" "q = Some (s, a, m)" for q t
    using that assms(2) by (auto elim: life_stepE)
qed simp

text \<open>A waiting notification has attempts left, whatever it has been through.\<close>

definition has_attempts :: "progress option \<Rightarrow> bool" where
  "has_attempts p = (case p of None \<Rightarrow> True | Some (s, a, m) \<Rightarrow> a \<le> m \<and> (s = PENDING \<or> s = DELIVERING \<longrightarrow> a < m))"

lemma life_attempts: "life p q \<Longrightarrow> has_attempts p \<Longrightarrow> has_attempts q"
proof (erule living.invariant [rotated])
  show "has_attempts r" if "life_step q r" "has_attempts q" for q r
    using that by cases (auto simp: has_attempts_def)
qed

section \<open>A row of the table\<close>

definition progress_of :: "outbox_row \<Rightarrow> progress" where
  "progress_of r = (ob_status r, ob_attempts r, ob_max_attempts r)"

definition progress :: "database \<Rightarrow> uuid \<Rightarrow> progress option" where
  "progress db x = map_option progress_of (first_row (filter (\<lambda>r. ob_id r = x) (db_outbox db)))"

lemma progress_cong: "db_outbox db' = db_outbox db \<Longrightarrow> progress db' x = progress db x"
  by (simp add: progress_def)

lemma progress_status: "status_of db x = map_option fst (progress db x)"
  by (simp add: status_of_def progress_def progress_of_def option.map_comp comp_def)

lemma progress_update:
  assumes "\<And>r. ob_id (f r) = ob_id r"
  shows "progress (update_outbox i f db) x =
    (if i = x then map_option (\<lambda>r. progress_of (f r)) (first_row (filter (\<lambda>r. ob_id r = x) (db_outbox db))) else progress db x)"
  unfolding progress_def update_outbox_frame
  by (subst first_row_update) (simp_all add: assms option.map_comp comp_def progress_of_def)

lemma progress_row:
  assumes "distinct (map ob_id (db_outbox db))" "r \<in> set (db_outbox db)"
  shows "progress db (ob_id r) = Some (progress_of r)"
proof -
  have "first_row (filter (\<lambda>q. ob_id q = ob_id r) (db_outbox db)) = Some r"
    by (rule first_row_unique [OF assms(2)]) (use assms in \<open>auto simp: distinct_map inj_on_def\<close>)
  then show ?thesis by (simp add: progress_def)
qed

lemma progress_claim:
  "progress (claim_item r db) x = (if x = ob_id r then map_option (\<lambda>(s, a, m). (DELIVERING, a, m)) (progress db x) else progress db x)"
  by (simp add: claim_item_def progress_update) (simp add: progress_def progress_of_def option.map_comp comp_def)


text \<open>The end of a delivery is one move of the machine, a failure of the worker none.\<close>

lemma settle_progress:
  assumes "progress db (ob_id item) = Some (DELIVERING, ob_attempts item, ob_max_attempts item)"
  shows "life_step (progress db (ob_id item)) (progress (settle_item env item sub ok db) (ob_id item))"
proof -
  obtain r where r: "first_row (filter (\<lambda>q. ob_id q = ob_id item) (db_outbox db)) = Some r" "ob_attempts r = ob_attempts item"
    "ob_max_attempts r = ob_max_attempts item"
    using assms by (auto simp: progress_def progress_of_def)
  note upd = progress_update progress_of_def r
  consider (delivered) ok | (exhausted) "\<not> ok" "ob_max_attempts item \<le> ob_attempts item + 1"
    | (retried) "\<not> ok" "ob_attempts item + 1 < ob_max_attempts item" by fastforce
  then show ?thesis
  proof cases
    case delivered
    then show ?thesis unfolding assms by (simp add: settle_item_def upd life_step.delivered)
  next
    case exhausted
    then have "progress (settle_item env item sub ok db) (ob_id item) =
        progress (update_outbox (ob_id item) (\<lambda>r. r\<lparr>ob_status := FAILED, ob_attempts := ob_attempts item + 1\<rparr>) db) (ob_id item)"
      by (intro progress_cong) (simp add: settle_item_def Let_def)
    then show ?thesis unfolding assms using exhausted(2) by (simp add: upd life_step.exhausted)
  next
    case retried
    then show ?thesis unfolding assms by (simp add: settle_item_def Let_def upd life_step.retried)
  qed
qed

lemma deliver_progress:
  assumes "deliver_item env item (db, net) = (e, db', net')"
    and "progress db (ob_id item) = Some (DELIVERING, ob_attempts item, ob_max_attempts item)"
  shows "life (progress db (ob_id item)) (progress db' (ob_id item))"
proof (cases "outbox_subscription db (ob_subscription_id item)")
  case None
  then have db': "db' = update_outbox (ob_id item) (\<lambda>r. r\<lparr>ob_status := FAILED\<rparr>) db"
    using assms(1) by (simp add: deliver_item_def)
  obtain r where "first_row (filter (\<lambda>q. ob_id q = ob_id item) (db_outbox db)) = Some r" "ob_attempts r = ob_attempts item"
    "ob_max_attempts r = ob_max_attempts item"
    using assms(2) by (auto simp: progress_def progress_of_def)
  then show ?thesis
    unfolding assms(2) db' by (simp add: progress_update progress_of_def living.single [OF orphaned])
next
  case sub: (Some sub)
  show ?thesis
  proof (cases "event_body env (ob_payload item)")
    case (Inl x)
    then show ?thesis using assms(1) sub by (simp add: deliver_item_def life.unborn)
  next
    case (Inr body)
    let ?d = "\<lparr>dv_event_id = event_id_of env (ob_payload item), dv_endpoint_id = ob_endpoint_id item,
          dv_consumer_id = sub_consumer_id sub, dv_target_url = sub_target_url sub,
          dv_active = sub_active sub, dv_payload = body, dv_persist_dlq = False, dv_now = env_now env\<rparr>"
    obtain ok db2 net2 where d: "deliver_with_retry ?d 1 (db, net) = (ok, db2, net2)" by (metis prod.collapse)
    with Inr sub assms have db': "db' = settle_item env item sub ok db2" by (simp add: deliver_item_def)
    have "progress db2 (ob_id item) = progress db (ob_id item)" by (rule progress_cong) (use webhook.frame [OF d] in simp)
    then show ?thesis using settle_progress [of db2 item] assms(2) by (simp add: db' living.single)
  qed
qed


lemma deliver_progress_other:
  assumes "deliver_item env item (db, net) = (e, db', net')" "x \<noteq> ob_id item"
  shows "progress db' x = progress db x"
proof -
  obtain f where f: "\<And>r. ob_id (f r) = ob_id r"
    and db': "db_outbox db' = db_outbox (update_outbox (ob_id item) f db) \<or> db' = db"
    using deliver_item_outbox [OF assms(1)] by blast
  have "progress (update_outbox (ob_id item) f db) x = progress db x" using assms(2) by (simp add: progress_update f)
  then show ?thesis using db' progress_cong by metis
qed

section \<open>Workers with batches of one\<close>

text \<open>What a worker has in memory is what the table has: attempts made and allowed.\<close>

definition up_to_date :: "outbox_world \<Rightarrow> bool" where
  "up_to_date w \<longleftrightarrow> (\<forall>i < length (ow_workers w). \<forall>q \<in> set (in_hand (ow_workers w ! i)).
     \<exists>s. progress (ow_db w) (ob_id q) = Some (s, ob_attempts q, ob_max_attempts q))"

lemma up_to_date_set:
  assumes "up_to_date w" "ow_workers w' = (ow_workers w)[i := k]"
    and "\<And>q. q \<in> set (in_hand k) \<Longrightarrow> \<exists>s. progress (ow_db w') (ob_id q) = Some (s, ob_attempts q, ob_max_attempts q)"
    and "\<And>j q s. j < length (ow_workers w) \<Longrightarrow> j \<noteq> i \<Longrightarrow> q \<in> set (in_hand (ow_workers w ! j)) \<Longrightarrow>
      progress (ow_db w) (ob_id q) = Some (s, ob_attempts q, ob_max_attempts q) \<Longrightarrow>
      \<exists>t. progress (ow_db w') (ob_id q) = Some (t, ob_attempts q, ob_max_attempts q)"
  shows "up_to_date w'"
  unfolding up_to_date_def
proof (intro allI impI ballI)
  fix j q assume j: "j < length (ow_workers w')" and q: "q \<in> set (in_hand (ow_workers w' ! j))"
  show "\<exists>s. progress (ow_db w') (ob_id q) = Some (s, ob_attempts q, ob_max_attempts q)"
  proof (cases "j = i")
    case True
    with j q assms(2) show ?thesis by (intro assms(3)) simp
  next
    case False
    with j q assms(2) have here: "j < length (ow_workers w)" "q \<in> set (in_hand (ow_workers w ! j))" by simp_all
    then obtain s where "progress (ow_db w) (ob_id q) = Some (s, ob_attempts q, ob_max_attempts q)"
      using assms(1) by (auto simp: up_to_date_def)
    then show ?thesis by (rule assms(4) [OF here(1) False here(2)])
  qed
qed

definition life_ok :: "outbox_world \<Rightarrow> bool" where
  "life_ok w \<longleftrightarrow> one_hand w \<and> up_to_date w"

lemma other_hand:
  assumes "one_hand w" "i < length (ow_workers w)" "item \<in> set (in_hand (ow_workers w ! i))"
    and "j < length (ow_workers w)" "j \<noteq> i" "q \<in> set (in_hand (ow_workers w ! j))"
  shows "ob_id q \<noteq> ob_id item"
  using one_handD(5) [OF assms(1,4,2,5)] assms(3,6) by fastforce

lemma up_to_date_step: "outbox_step env 1 w w' \<Longrightarrow> one_hand w \<Longrightarrow> up_to_date w \<Longrightarrow> up_to_date w'"
proof (induction rule: outbox_step.induct)
  case (select i w items)
  have "\<exists>s. progress (ow_db w) (ob_id q) = Some (s, ob_attempts q, ob_max_attempts q)" if "q \<in> set items" for q
  proof -
    have "q \<in> set (db_outbox (ow_db w))"
      using in_set_takeD that select(3) by (fastforce simp: available_rows_def limit_rows_def)
    from progress_row [OF one_handD(1) [OF select(5)] this] show ?thesis by (simp add: progress_of_def)
  qed
  then show ?case by (intro up_to_date_set [OF select(6), where i = i and k = "Batch items"]) auto
next
  case (claim i w item rest)
  have "\<exists>s. progress (ow_db w) (ob_id q) = Some (s, ob_attempts q, ob_max_attempts q)"
    if "q \<in> set (item # rest)" for q
    using claim(1,2,5) that unfolding up_to_date_def by (metis in_hand.simps(2))
  then show ?case
    by (intro up_to_date_set [OF claim(5), where i = i and k = "Claimed item rest"]) (fastforce simp: progress_claim)+
next
  case (deliver i w item rest e db' net')
  have rest: "rest = []" using one_handD(2) [OF deliver(5,1)] deliver(2) by (simp add: worker_ok_def)
  show ?case
  proof (rule up_to_date_set [OF deliver(6), where i = i and k = Idle])
    fix j q s
    assume h: "j < length (ow_workers w)" "j \<noteq> i" "q \<in> set (in_hand (ow_workers w ! j))"
      "progress (ow_db w) (ob_id q) = Some (s, ob_attempts q, ob_max_attempts q)"
    have "ob_id q \<noteq> ob_id item" by (rule other_hand [OF deliver(5,1) _ h(1-3)]) (simp add: deliver(2))
    then show "\<exists>t. progress (ow_db (set_worker i (if e = None \<and> rest \<noteq> [] then Batch rest else Idle) (w\<lparr>ow_db := db', ow_net := net'\<rparr>)))
        (ob_id q) = Some (t, ob_attempts q, ob_max_attempts q)"
      using h(4) by (simp add: deliver_progress_other [OF deliver(4)])
  qed (simp_all add: rest)
next
  case (stops i w)
  then show ?case by (intro up_to_date_set [OF stops(3), where i = i and k = Idle]) simp_all
next
  case (posts_and_stops i w item rest e db' net' db'')
  then have same: "progress db'' x = progress (ow_db w) x" for x by (auto intro!: progress_cong)
  show ?case
    by (rule up_to_date_set [OF posts_and_stops(6), where i = i and k = Idle]) (simp_all add: same)
next
  case (tick w t)
  then show ?case by (simp add: up_to_date_def progress_def)
qed

text \<open>Each step is a move of the machine for one notification at most, and none for the others.\<close>

lemma step_is_life:
  assumes "outbox_step env 1 w w'" "life_ok w"
  shows "life (progress (ow_db w) x) (progress (ow_db w') x)"
  using assms
proof (induction rule: outbox_step.induct)
  case (claim i w item rest)
  have one: "one_hand w" and "up_to_date w" using claim(4) by (simp_all add: life_ok_def)
  then obtain s where s: "progress (ow_db w) (ob_id item) = Some (s, ob_attempts item, ob_max_attempts item)"
    using claim(1,2) unfolding up_to_date_def by (metis in_hand.simps(2) list.set_intros(1))
  have "(ob_id item, i) \<in> set (ow_locks w)" using one_handD(2) [OF one claim(1)] claim(2) by (auto simp: worker_ok_def)
  from one_handD(4) [OF one this] s have "s = PENDING" by (simp add: progress_status)
  with s show ?case
    by (cases "x = ob_id item") (simp_all add: progress_claim living.single [OF claimed] life.unborn)
next
  case (deliver i w item rest e db' net')
  have one: "one_hand w" and "up_to_date w" using deliver(5) by (simp_all add: life_ok_def)
  then obtain s where s: "progress (ow_db w) (ob_id item) = Some (s, ob_attempts item, ob_max_attempts item)"
    using deliver(1,2) unfolding up_to_date_def by (metis in_hand.simps(3) list.set_intros(1))
  have "s = DELIVERING" using one_handD(2) [OF one deliver(1)] deliver(2) s by (simp add: worker_ok_def progress_status)
  with s deliver_progress [OF deliver(4)] show ?case
    by (cases "x = ob_id item") (simp_all add: deliver_progress_other [OF deliver(4)] life.unborn)
next
  case (posts_and_stops i w item rest e db' net' db'')
  then have "progress db'' x = progress (ow_db w) x" by (auto intro!: progress_cong)
  then show ?case by (simp add: life.unborn)
qed (simp_all add: life.unborn progress_def)

lemma life_ok_step: "outbox_step env 1 w w' \<Longrightarrow> life_ok w \<Longrightarrow> life_ok w'"
  by (auto simp: life_ok_def intro: one_hand_step up_to_date_step)

interpretation notification: simulation "outbox_step env 1" "outbox_reachable env 1" life_step life
    "\<lambda>w. progress (ow_db w) x" life_ok for env x
  by unfold_locales (auto intro: life_ok_step step_is_life)

lemma life_ok_resting: "resting w \<Longrightarrow> life_ok w"
  by (simp add: life_ok_def one_hand_resting up_to_date_def) (simp add: resting_def list_all_length)

section \<open>A single worker\<close>

text \<open>
  A worker that has the outbox to itself may take batches of any size: nobody touches the rows that
  its locks no longer cover, so what it has in hand is what the table has.
\<close>

definition waits_as :: "outbox_status \<Rightarrow> database \<Rightarrow> outbox_row \<Rightarrow> bool" where
  "waits_as s db q = (progress db (ob_id q) = Some (s, ob_attempts q, ob_max_attempts q))"

fun hand_ok :: "database \<Rightarrow> worker \<Rightarrow> bool" where
  "hand_ok db Idle = True"
| "hand_ok db (Batch items) = list_all (waits_as PENDING db) items"
| "hand_ok db (Claimed r rest) = (waits_as DELIVERING db r \<and> list_all (waits_as PENDING db) rest)"

definition solo :: "outbox_world \<Rightarrow> bool" where
  "solo w \<longleftrightarrow> distinct (map ob_id (db_outbox (ow_db w))) \<and>
     (\<exists>k. ow_workers w = [k] \<and> distinct (map ob_id (in_hand k)) \<and> hand_ok (ow_db w) k)"

lemma soloI:
  "distinct (map ob_id (db_outbox (ow_db w))) \<Longrightarrow> ow_workers w = [k] \<Longrightarrow> distinct (map ob_id (in_hand k)) \<Longrightarrow>
     hand_ok (ow_db w) k \<Longrightarrow> solo w"
  by (simp add: solo_def)

lemma soloD:
  assumes "solo w" "i < length (ow_workers w)"
  shows "i = 0" "\<And>k. (ow_workers w)[i := k] = [k]" "distinct (map ob_id (db_outbox (ow_db w)))"
    "distinct (map ob_id (in_hand (ow_workers w ! i)))" "hand_ok (ow_db w) (ow_workers w ! i)"
  using assms by (auto simp: solo_def)

lemma waits_elsewhere:
  "(\<And>q. q \<in> set qs \<Longrightarrow> progress db' (ob_id q) = progress db (ob_id q)) \<Longrightarrow>
     list_all (waits_as s db') qs \<longleftrightarrow> list_all (waits_as s db) qs"
  by (simp add: list_all_iff waits_as_def)

lemma selected_rows:
  assumes "distinct (map ob_id (db_outbox (ow_db w)))"
  shows "distinct (map ob_id (available_rows w n))" "list_all (waits_as PENDING (ow_db w)) (available_rows w n)"
proof -
  have "distinct (map ob_id (order_asc ob_created_at (filter P (db_outbox (ow_db w)))))" for P
  proof -
    have "mset (map ob_id (order_asc ob_created_at (filter P (db_outbox (ow_db w))))) = mset (map ob_id (filter P (db_outbox (ow_db w))))"
      by (simp add: order_asc_def)
    then show ?thesis using distinct_map_filter [OF assms] by (metis mset_eq_imp_distinct_iff)
  qed
  then show "distinct (map ob_id (available_rows w n))"
    by (simp add: available_rows_def limit_rows_def take_map [symmetric] del: distinct_map)
  show "list_all (waits_as PENDING (ow_db w)) (available_rows w n)"
    unfolding list_all_iff
  proof
    fix q assume "q \<in> set (available_rows w n)"
    then have "q \<in> set (db_outbox (ow_db w))" "ob_status q = PENDING"
      using in_set_takeD by (fastforce simp: available_rows_def limit_rows_def)+
    with progress_row [OF assms this(1)] show "waits_as PENDING (ow_db w) q" by (simp add: waits_as_def progress_of_def)
  qed
qed

lemma solo_step: "outbox_step env n w w' \<Longrightarrow> solo w \<Longrightarrow> solo w'"
proof (induction rule: outbox_step.induct)
  case (select i w items)
  note here = soloD [OF select(5,1)]
  show ?case
    by (rule soloI [where k = "Batch items"]) (use here selected_rows [OF here(3)] in \<open>simp_all add: select(3)\<close>)
next
  case (claim i w item rest)
  note here = soloD [OF claim(4,1), unfolded claim(2)]
  have others: "ob_id q \<noteq> ob_id item" if "q \<in> set rest" for q using here(4) that by (force simp: image_iff)
  show ?case
  proof (rule soloI [where k = "Claimed item rest"])
    show "distinct (map ob_id (in_hand (Claimed item rest)))" using here(4) by simp
    have "list_all (waits_as PENDING (claim_item item (ow_db w))) rest"
      using here(5) others by (subst waits_elsewhere [where db = "ow_db w"]) (simp_all add: progress_claim)
    then show "hand_ok (ow_db (set_worker i (Claimed item rest) (unlock i (w\<lparr>ow_db := claim_item item (ow_db w)\<rparr>)))) (Claimed item rest)"
      using here(5) by (simp add: waits_as_def progress_claim)
  qed (use here(1-3) in \<open>simp_all add: claim_item_rows\<close>)
next
  case (deliver i w item rest e db' net')
  note here = soloD [OF deliver(5,1), unfolded deliver(2)]
  have others: "ob_id q \<noteq> ob_id item" if "q \<in> set rest" for q using here(4) that by (force simp: image_iff)
  have "list_all (waits_as PENDING db') rest"
    using here(5) others by (subst waits_elsewhere [where db = "ow_db w"]) (simp_all add: deliver_progress_other [OF deliver(4)])
  then show ?case
    by (intro soloI [where k = "if e = None \<and> rest \<noteq> [] then Batch rest else Idle"])
      (use here(1-4) in \<open>simp_all add: deliver_item_others [OF deliver(4)]\<close>)
next
  case (stops i w)
  show ?case by (rule soloI [where k = Idle]) (use soloD [OF stops(2,1)] in simp_all)
next
  case (posts_and_stops i w item rest e db' net' db'')
  then have "db_outbox db'' = db_outbox (ow_db w)" by auto
  then show ?case by (intro soloI [where k = Idle]) (use soloD [OF posts_and_stops(5,1)] in simp_all)
next
  case (tick w t)
  then show ?case unfolding solo_def by (auto elim!: hand_ok.elims simp: waits_as_def progress_def list_all_iff)
qed

lemma solo_step_is_life:
  assumes "outbox_step env n w w'" "solo w"
  shows "life (progress (ow_db w) x) (progress (ow_db w') x)"
  using assms
proof (induction rule: outbox_step.induct)
  case (claim i w item rest)
  have "waits_as PENDING (ow_db w) item" using soloD(5) [OF claim(4,1)] by (simp add: claim(2))
  then show ?case
    by (cases "x = ob_id item") (simp_all add: waits_as_def progress_claim living.single [OF claimed] life.unborn)
next
  case (deliver i w item rest e db' net')
  have "waits_as DELIVERING (ow_db w) item" using soloD(5) [OF deliver(5,1)] by (simp add: deliver(2))
  with deliver_progress [OF deliver(4)] show ?case
    by (cases "x = ob_id item") (simp_all add: waits_as_def deliver_progress_other [OF deliver(4)] life.unborn)
next
  case (posts_and_stops i w item rest e db' net' db'')
  then have "progress db'' x = progress (ow_db w) x" by (auto intro!: progress_cong)
  then show ?case by (simp add: life.unborn)
qed (simp_all add: life.unborn progress_def)

interpretation alone: simulation "outbox_step env n" "outbox_reachable env n" life_step life
    "\<lambda>w. progress (ow_db w) x" solo for env n x
  by unfold_locales (auto intro: solo_step solo_step_is_life)

lemma solo_resting: "resting w \<Longrightarrow> length (ow_workers w) = 1 \<Longrightarrow> solo w"
  by (cases "ow_workers w") (auto simp: resting_def solo_def)

text \<open>What a claimed row is, with batches of one row or with one worker: claimed in the table, and in no other hand.\<close>

definition claimed_by :: "outbox_world \<Rightarrow> nat \<Rightarrow> outbox_row \<Rightarrow> bool" where
  "claimed_by w i r \<longleftrightarrow> distinct (map ob_id (db_outbox (ow_db w))) \<and> waits_as DELIVERING (ow_db w) r \<and>
     (\<forall>j < length (ow_workers w). j \<noteq> i \<longrightarrow> ob_id r \<notin> ob_id ` set (in_hand (ow_workers w ! j)))"

lemma life_ok_claimed:
  assumes "life_ok w" "i < length (ow_workers w)" "ow_workers w ! i = Claimed r rest"
  shows "claimed_by w i r"
proof -
  have one: "one_hand w" and "up_to_date w" using assms(1) by (simp_all add: life_ok_def)
  then obtain s where s: "progress (ow_db w) (ob_id r) = Some (s, ob_attempts r, ob_max_attempts r)"
    using assms(2,3) unfolding up_to_date_def by (metis in_hand.simps(3) list.set_intros(1))
  have "status_of (ow_db w) (ob_id r) = Some DELIVERING"
    using one_handD(2) [OF one assms(2)] assms(3) by (simp add: worker_ok_def)
  with s have "waits_as DELIVERING (ow_db w) r" by (simp add: waits_as_def progress_status)
  moreover have "ob_id r \<notin> ob_id ` set (in_hand (ow_workers w ! j))" if "j < length (ow_workers w)" "j \<noteq> i" for j
    using other_hand [OF one assms(2) _ that, of r] assms(3) by (fastforce simp: image_iff)
  ultimately show ?thesis using one_handD(1) [OF one] by (simp add: claimed_by_def)
qed

lemma solo_claimed: "solo w \<Longrightarrow> i < length (ow_workers w) \<Longrightarrow> ow_workers w ! i = Claimed r rest \<Longrightarrow> claimed_by w i r"
  by (auto simp: solo_def claimed_by_def)

lemma claimed_life:
  assumes "resting w0" "n = 1 \<or> length (ow_workers w0) = 1" "outbox_reachable env n w0 w"
  shows "life (progress (ow_db w0) x) (progress (ow_db w) x)"
    and "i < length (ow_workers w) \<Longrightarrow> ow_workers w ! i = Claimed r rest \<Longrightarrow> claimed_by w i r"
proof -
  from assms(2) have "life (progress (ow_db w0) x) (progress (ow_db w) x) \<and>
    (i < length (ow_workers w) \<longrightarrow> ow_workers w ! i = Claimed r rest \<longrightarrow> claimed_by w i r)"
  proof
    assume n: "n = 1"
    note ok = life_ok_resting [OF assms(1)]
    from notification.runs [OF assms(3) [unfolded n] ok] notification.kept_runs [OF assms(3) [unfolded n] ok]
    show ?thesis by (blast intro: life_ok_claimed)
  next
    assume "length (ow_workers w0) = 1"
    note ok = solo_resting [OF assms(1) this]
    from alone.runs [OF assms(3) ok] alone.kept_runs [OF assms(3) ok] show ?thesis by (blast intro: solo_claimed)
  qed
  then show "life (progress (ow_db w0) x) (progress (ow_db w) x)"
    "i < length (ow_workers w) \<Longrightarrow> ow_workers w ! i = Claimed r rest \<Longrightarrow> claimed_by w i r" by blast+
qed

section \<open>A worker that stops\<close>

text \<open>Claimed, and in nobody's hands: no step of any worker finds it, whatever the size of the batches.\<close>

definition abandoned :: "uuid \<Rightarrow> progress option \<Rightarrow> outbox_world \<Rightarrow> bool" where
  "abandoned x p w \<longleftrightarrow> distinct (map ob_id (db_outbox (ow_db w))) \<and> progress (ow_db w) x = p \<and>
     status_of (ow_db w) x = Some DELIVERING \<and> list_all (\<lambda>k. x \<notin> ob_id ` set (in_hand k)) (ow_workers w)"

lemma abandoned_hand: "abandoned x p w \<Longrightarrow> i < length (ow_workers w) \<Longrightarrow> x \<notin> ob_id ` set (in_hand (ow_workers w ! i))"
  by (simp add: abandoned_def list_all_length)

lemma abandoned_set:
  assumes "abandoned x p w" "ow_workers w' = (ow_workers w)[i := k]" "x \<notin> ob_id ` set (in_hand k)"
    and "map ob_id (db_outbox (ow_db w')) = map ob_id (db_outbox (ow_db w))" "progress (ow_db w') x = progress (ow_db w) x"
  shows "abandoned x p w'"
proof -
  have "x \<notin> ob_id ` set (in_hand q)" if "q \<in> set (ow_workers w')" for q
    using that assms(1,3) set_update_subset_insert [of "ow_workers w" i k] unfolding assms(2)
    by (auto simp: abandoned_def list_all_iff)
  moreover have "status_of (ow_db w') x = status_of (ow_db w) x" by (simp add: progress_status assms(5))
  ultimately show ?thesis using assms(1) unfolding abandoned_def assms(4,5) by (simp add: list_all_iff)
qed

lemma abandoned_step: "outbox_step env n w w' \<Longrightarrow> abandoned x p w \<Longrightarrow> abandoned x p w'"
proof (induction rule: outbox_step.induct)
  case (select i w items)
  have "x \<noteq> ob_id r" if "r \<in> set items" for r
    using available_row [of w r n] that select(3,5) by (auto simp: abandoned_def)
  then show ?case by (intro abandoned_set [OF select(5), where i = i and k = "Batch items"]) auto
next
  case (claim i w item rest)
  have "x \<notin> ob_id ` set (item # rest)" using abandoned_hand [OF claim(4,1)] claim(2) by simp
  then show ?case
    by (intro abandoned_set [OF claim(4), where i = i and k = "Claimed item rest"]) (simp_all add: progress_claim claim_item_rows)
next
  case (deliver i w item rest e db' net')
  have x: "x \<notin> ob_id ` set (item # rest)" using abandoned_hand [OF deliver(5,1)] deliver(2) by simp
  show ?case
    by (rule abandoned_set [OF deliver(5), where i = i and k = "if e = None \<and> rest \<noteq> [] then Batch rest else Idle"])
       (use x deliver_progress_other [OF deliver(4)] deliver_item_others(1) [OF deliver(4)] in \<open>simp_all split: if_split\<close>)
next
  case (stops i w)
  then show ?case by (intro abandoned_set [OF stops(2), where i = i and k = Idle]) simp_all
next
  case (posts_and_stops i w item rest e db' net' db'')
  then have same: "progress db'' x = progress (ow_db w) x" "map ob_id (db_outbox db'') = map ob_id (db_outbox (ow_db w))"
    by (auto intro!: progress_cong)
  show ?case by (rule abandoned_set [OF posts_and_stops(5), where i = i and k = Idle]) (simp_all add: same)
next
  case (tick w t)
  then show ?case by (simp add: abandoned_def progress_def status_of_def)
qed

lemma abandoned_forever: "outbox_reachable env n w w' \<Longrightarrow> abandoned x p w \<Longrightarrow> abandoned x p w'"
  by (rule outboxes.invariant [where ok = "abandoned x p", OF abandoned_step])

text \<open>Whoever stops with a claimed row abandons it.\<close>

lemma stop_abandons:
  assumes "claimed_by w i r" "i < length (ow_workers w)"
  shows "abandoned (ob_id r) (Some (DELIVERING, ob_attempts r, ob_max_attempts r)) (set_worker i Idle (unlock i w))"
proof -
  have "ob_id r \<notin> ob_id ` set (in_hand ((ow_workers w)[i := Idle] ! j))" if "j < length (ow_workers w)" for j
    using assms that by (cases "j = i") (simp_all add: claimed_by_def)
  then show ?thesis
    using assms by (simp add: claimed_by_def waits_as_def abandoned_def progress_status list_all_length)
qed

section \<open>Properties\<close>

text \<open>
  C14. With batches of one row and any number of workers, whatever the interleaving and whichever of
  them stop, a notification only lives the life of \<open>life_step\<close>: it is claimed while it waits, and a
  claimed one moves on only to delivered, to waiting with the attempt counted while attempts are left,
  or to given up. What was delivered or given up is never taken up again, its counters included, and a
  notification within its attempts stays within them.
\<close>

theorem notification_lives_once:
  assumes "resting w0" "outbox_reachable env 1 w0 w" "outbox_reachable env 1 w w'"
  shows "life (progress (ow_db w) x) (progress (ow_db w') x) \<and>
    (status_of (ow_db w) x \<in> {Some DELIVERED, Some FAILED} \<longrightarrow> progress (ow_db w') x = progress (ow_db w) x) \<and>
    (has_attempts (progress (ow_db w) x) \<longrightarrow> has_attempts (progress (ow_db w') x))"
proof -
  have "life_ok w" by (rule notification.kept_runs [OF assms(2) life_ok_resting [OF assms(1)]])
  then have lives: "life (progress (ow_db w) x) (progress (ow_db w') x)" by (rule notification.runs [OF assms(3)])
  have "progress (ow_db w') x = progress (ow_db w) x" if "status_of (ow_db w) x \<in> {Some DELIVERED, Some FAILED}"
  proof -
    from that obtain s a m where p: "progress (ow_db w) x = Some (s, a, m)" "s = DELIVERED \<or> s = FAILED"
      by (auto simp: progress_status)
    with lives life_final show ?thesis by simp
  qed
  with lives life_attempts [OF lives] show ?thesis by blast
qed

lemma example_claim:
  "\<exists>w. outbox_reachable example_env 1 example_race w \<and> ow_db w = claim_item (example_row ''o1'' PENDING) (ow_db example_race) \<and>
     ow_workers w = [Claimed (example_row ''o1'' PENDING) [], Idle]"
proof -
  let ?r = "example_row ''o1'' PENDING"
  have 0: "0 < length (ow_workers example_race)" "ow_workers example_race ! 0 = Idle" by (simp_all add: example_race_def)
  have av: "available_rows example_race 1 = [?r]"
    by (simp add: available_rows_def limit_rows_def order_asc_def example_race_def example_row_def subs_db_def empty_db_def)
  obtain v where v: "outbox_reachable example_env 1 example_race v" "ow_workers v = [Batch [?r], Idle]"
    "ow_locks v = [(''o1'', 0)]" "ow_db v = ow_db example_race"
    using reach_select [OF outboxes.start 0 av] by (auto simp: example_race_def example_row_def)
  obtain w where "outbox_reachable example_env 1 example_race w" "ow_db w = claim_item ?r (ow_db v)"
    "ow_workers w = [Claimed ?r [], Idle]"
    using reach_claim [OF v(1), of 0 ?r "[]"] v(2,3) by (auto simp: free_for_def example_row_def)
  with v(4) show ?thesis by auto
qed

theorem notification_lives_once_witness:
  "life (Some (PENDING, 0, 5)) (Some (DELIVERING, 0, 5)) \<and> has_attempts (Some (DELIVERING, 0, 5))"
proof -
  obtain w where w: "outbox_reachable example_env 1 example_race w"
    "ow_db w = claim_item (example_row ''o1'' PENDING) (ow_db example_race)"
    using example_claim by blast
  show ?thesis
    using notification_lives_once [OF resting_example outboxes.start w(1), of "''o1''"]
    by (simp add: w(2) progress_claim progress_status) (simp add: has_attempts_def progress_def progress_of_def example_race_def example_row_def)
qed

text \<open>
  C16. A worker can stop between the claim and the end of the delivery: the shutdown of the application
  cancels it. With one worker and batches of any size, or any number of workers and batches of one
  row, the notification it has claimed is then lost, from whatever the workers did before. It stays
  claimed with its counters, in the hands of no worker, whatever the workers do from then on and
  whatever the size of their batches, although it has attempts left: it is neither delivered nor
  retried nor given up.
\<close>

theorem interrupted_notification_is_lost:
  assumes "resting w0" "n = 1 \<or> length (ow_workers w0) = 1" "has_attempts (progress (ow_db w0) (ob_id r))"
    and "outbox_reachable env n w0 w" "i < length (ow_workers w)" "ow_workers w ! i = Claimed r rest"
    and "outbox_reachable env m (set_worker i Idle (unlock i w)) w'"
  shows "outbox_reachable env n w0 (set_worker i Idle (unlock i w)) \<and>
    progress (ow_db w') (ob_id r) = Some (DELIVERING, ob_attempts r, ob_max_attempts r) \<and>
    ob_attempts r < ob_max_attempts r \<and>
    list_all (\<lambda>k. ob_id r \<notin> ob_id ` set (in_hand k)) (ow_workers w')"
proof -
  have claimed: "claimed_by w i r" by (rule claimed_life(2) [OF assms(1,2,4-6)])
  have "has_attempts (progress (ow_db w) (ob_id r))" by (rule life_attempts [OF claimed_life(1) [OF assms(1,2,4)] assms(3)])
  then have "ob_attempts r < ob_max_attempts r" using claimed by (simp add: claimed_by_def waits_as_def has_attempts_def)
  with abandoned_forever [OF assms(7) stop_abandons [OF claimed assms(5)]] show ?thesis
    using outbox_reachable.more [OF assms(4) outbox_step.stops [OF assms(5)]] by (simp add: abandoned_def)
qed

definition example_solo :: outbox_world where
  "example_solo = example_race\<lparr>ow_workers := [Idle]\<rparr>"

text \<open>One worker, and a batch of two rows: it stops at the first.\<close>

lemma example_solo_claim:
  "\<exists>w. outbox_reachable example_env 50 example_solo w \<and>
     ow_workers w = [Claimed (example_row ''o1'' PENDING) [example_row ''o2'' PENDING]]"
proof -
  let ?r = "example_row ''o1'' PENDING" and ?q = "example_row ''o2'' PENDING"
  have 0: "0 < length (ow_workers example_solo)" "ow_workers example_solo ! 0 = Idle" by (simp_all add: example_solo_def)
  have av: "available_rows example_solo 50 = [?r, ?q]"
    by (simp add: available_rows_def limit_rows_def order_asc_def example_solo_def example_race_def example_row_def
        subs_db_def empty_db_def)
  obtain v where v: "outbox_reachable example_env 50 example_solo v" "ow_workers v = [Batch [?r, ?q]]"
    "ow_locks v = [(''o1'', 0), (''o2'', 0)]"
    using reach_select [OF outboxes.start 0 av] by (auto simp: example_solo_def example_race_def example_row_def)
  show ?thesis using reach_claim [OF v(1), of 0 ?r "[?q]"] v(2,3) by (auto simp: free_for_def example_row_def)
qed

theorem interrupted_notification_is_lost_witness:
  "\<exists>w. outbox_reachable example_env 50 example_solo w \<and> ow_workers w = [Idle] \<and>
     status_of (ow_db w) ''o1'' = Some DELIVERING"
proof -
  let ?r = "example_row ''o1'' PENDING"
  obtain w where w: "outbox_reachable example_env 50 example_solo w" "ow_workers w = [Claimed ?r [example_row ''o2'' PENDING]]"
    using example_solo_claim by blast
  have rest: "resting example_solo" "(50::int) = 1 \<or> length (ow_workers example_solo) = 1"
    using resting_example by (simp_all add: example_solo_def resting_def)
  have left: "has_attempts (progress (ow_db example_solo) (ob_id ?r))"
    by (simp add: has_attempts_def progress_def progress_of_def example_solo_def example_race_def example_row_def)
  have "0 < length (ow_workers w)" "ow_workers w ! 0 = Claimed ?r [example_row ''o2'' PENDING]" using w(2) by simp_all
  from interrupted_notification_is_lost [OF rest left w(1) this outboxes.start [of _ 50]] w(2) show ?thesis
    by (intro exI [of _ "set_worker 0 Idle (unlock 0 w)"]) (simp add: progress_status example_row_def)
qed

end
