(* ===== verification/Notify_Flow.thy ===== *)
theory Notify_Flow
  imports Service Outbox_Race
begin

text \<open>
  From a tracked payload to its subscribers: the composition of \<open>app/runtime/service.py\<close>, which fills
  the outbox, with the worker of \<open>app/workers/outbox_worker.py\<close>, which empties it. The lemmas follow
  the rows of one event through the polls; the properties say that every notification is posted when
  the network answers, and is delivered or dead-lettered whatever it answers.
\<close>

section \<open>What tracking leaves in the outbox\<close>

text \<open>The row of a subscription that waits for the worker.\<close>

definition waiting :: "int \<Rightarrow> uuid \<Rightarrow> json \<Rightarrow> subscription \<Rightarrow> outbox_row \<Rightarrow> bool" where
  "waiting now endpoint_id payload sub r \<longleftrightarrow>
     ob_subscription_id r = sub_id sub \<and> ob_endpoint_id r = endpoint_id \<and> ob_payload r = payload \<and>
     ob_status r = PENDING \<and> ob_attempts r = 0 \<and> ob_max_attempts r = 5 \<and>
     ob_next_retry_at r = now \<and> ob_created_at r = now"

lemma enqueue_waiting:
  assumes "\<not> inline_delivery env" "fold (enqueue_one env e payload) subs (db, net) = (db', net')"
  shows "\<exists>rows. db_outbox db' = db_outbox db @ rows \<and> list_all2 (waiting (db_now db) e (db_jsonb db payload)) subs rows \<and>
    net' = net \<and> db_now db' = db_now db \<and> db_subscriptions db' = db_subscriptions db \<and> db_dlq db' = db_dlq db"
  using assms(2)
proof (induction subs arbitrary: db)
  case (Cons sub subs)
  obtain i db1 where ins: "insert_outbox sub e payload db = (i, db1)" by (metis prod.collapse)
  then obtain r where r: "db_outbox db1 = db_outbox db @ [r]" "waiting (db_now db) e (db_jsonb db payload) sub r"
    and fr: "db_now db1 = db_now db" "db_jsonb db1 = db_jsonb db" "db_subscriptions db1 = db_subscriptions db" "db_dlq db1 = db_dlq db"
    by (auto simp: insert_outbox_def waiting_def used_uuid_def)
  have "enqueue_one env e payload sub (db, net) = (db1, net)" using ins assms(1) by (simp add: enqueue_one_def)
  then have "fold (enqueue_one env e payload) subs (db1, net) = (db', net')" using Cons.prems by simp
  from Cons.IH [OF this] obtain rows where
    "db_outbox db' = db_outbox db1 @ rows" "list_all2 (waiting (db_now db) e (db_jsonb db payload)) subs rows"
    "net' = net" "db_now db' = db_now db" "db_subscriptions db' = db_subscriptions db" "db_dlq db' = db_dlq db"
    by (auto simp: fr)
  with r show ?case by (intro exI [of _ "r # rows"]) simp
qed simp

text \<open>A tracked drift without inline delivery, as the worker finds it.\<close>

lemma track_leaves_waiting:
  assumes "registry_ok (ws_db w)" "outbox_ids (ws_db w)" "select_endpoint (ws_db w) k = Some (e, name)"
    and "versions_of (ws_db w) e \<noteq> []" "fp = fingerprint (se_sha env) (canonicalize payload)"
    and "fp \<notin> set (history (ws_db w) e)"
    and "diff_and_classify (sv_canonical_schema (last (versions_of (ws_db w) e))) (canonicalize payload) = Inr ds"
    and "v = int (length (history (ws_db w) e)) + 1" "verdict = summarize_classification ds"
    and "\<not> inline_delivery env"
  shows "\<exists>res w' rows. track_contract env ops publisher k payload w = (Inr res, w') \<and>
    db_outbox (ws_db w') = db_outbox (ws_db w) @ rows \<and>
    list_all2 (waiting (db_now (ws_db w)) e (db_jsonb (ws_db w) (notification (se_event_id env) e verdict v (map item_dict ds))))
      (select_affected_subscriptions (ws_db w) e v verdict) rows \<and>
    ws_net w' = ws_net w \<and> db_now (ws_db w') = db_now (ws_db w) \<and>
    db_subscriptions (ws_db w') = db_subscriptions (ws_db w) \<and> distinct (map ob_id (db_outbox (ws_db w')))"
proof -
  obtain ns s m p where k: "k = (ns, s, m, p)" by (cases k)
  let ?pay = "notification (se_event_id env) e verdict v (map item_dict ds)"
  from track_superseding [OF assms(1,2) assms(3) [unfolded k] assms(4-9), of ops publisher] obtain res r db1 w' where
    t: "track_contract env ops publisher k payload w = (Inr res, w')"
    and ins: "insert_version e fp (canonicalize payload) ''SAFE'' (get_current_schema (ws_db w) e) (ws_db w) = (r, db1)"
    and ids: "outbox_ids (set_classification (sv_id r) verdict db1)"
    and f: "fold (enqueue_one env e ?pay) (select_affected_subscriptions (ws_db w) e v verdict)
        (set_classification (sv_id r) verdict db1, ws_net w) = (ws_db w', ws_net w')"
    unfolding k by blast
  have fr: "db_outbox (set_classification (sv_id r) verdict db1) = db_outbox (ws_db w)"
    "db_subscriptions (set_classification (sv_id r) verdict db1) = db_subscriptions (ws_db w)"
    "db_jsonb (set_classification (sv_id r) verdict db1) = db_jsonb (ws_db w)"
    "db_now (set_classification (sv_id r) verdict db1) = db_now (ws_db w)"
    using ins by (auto simp: insert_version_def set_classification_def used_uuid_def Let_def split: if_splits)
  have "outbox_ids (ws_db w')" using enqueue_all [OF ids f] by blast
  with enqueue_waiting [OF assms(10) f] t show ?thesis unfolding fr by (auto simp: outbox_ids_def)
qed

section \<open>What becomes of a row\<close>

text \<open>A row settled by the outcome of its delivery, and the delivery made of it.\<close>

definition settled :: "int \<Rightarrow> bool \<Rightarrow> outbox_row \<Rightarrow> outbox_row" where
  "settled now ok r =
     (if ok then r\<lparr>ob_status := DELIVERED, ob_attempts := ob_attempts r + 1, ob_updated_at := now\<rparr>
      else if ob_max_attempts r \<le> ob_attempts r + 1
        then r\<lparr>ob_status := FAILED, ob_attempts := ob_attempts r + 1, ob_updated_at := now\<rparr>
      else r\<lparr>ob_status := PENDING, ob_attempts := ob_attempts r + 1,
             ob_next_retry_at := now + backoff_seconds (ob_attempts r + 1), ob_updated_at := now\<rparr>)"

definition row_delivery :: "env \<Rightarrow> outbox_row \<Rightarrow> subscription \<Rightarrow> delivery" where
  "row_delivery env r sub =
     \<lparr>dv_event_id = event_id_of env (ob_payload r), dv_endpoint_id = ob_endpoint_id r,
      dv_consumer_id = sub_consumer_id sub, dv_target_url = sub_target_url sub, dv_active = sub_active sub,
      dv_payload = ob_payload r, dv_persist_dlq = False, dv_now = env_now env\<rparr>"

lemma process_item_known:
  assumes "outbox_subscription db (ob_subscription_id r) = Some sub" "is_obj (ob_payload r)"
    and "deliver_with_retry (row_delivery env r sub) 1 (claim_item r db, net) = (ok, db2, net2)"
  shows "process_item env r (db, net) = (None, settle_item env r sub ok db2, net2)"
proof -
  have "event_body env (ob_payload r) = Inr (ob_payload r)"
    using assms(2) by (cases "ob_payload r") (simp_all add: event_body_def is_obj_def)
  moreover have "outbox_subscription (claim_item r db) (ob_subscription_id r) = Some sub"
    using assms(1) by (simp add: claim_item_def outbox_subscription_def)
  ultimately show ?thesis
    using assms(3) by (simp add: process_item_def Let_def row_delivery_def claim_item_def)
qed

lemma settle_item_row:
  assumes "distinct (map ob_id (db_outbox db))" "r \<in> set (db_outbox db)"
    and "db_outbox db2 = db_outbox (claim_item r db)" "db_now db2 = db_now db"
  shows "db_outbox (settle_item env r sub ok db2) = replace_row r (settled (db_now db) ok r) (db_outbox db)"
proof -
  have up: "db_outbox (update_outbox (ob_id r) f db2) =
      replace_row r ((f (r\<lparr>ob_status := DELIVERING, ob_updated_at := db_now db\<rparr>))\<lparr>ob_updated_at := db_now db\<rparr>) (db_outbox db)" for f
    using assms(3,4)
    by (simp add: claim_item_def update_at_replace [OF assms(1,2)] update_after_replace [OF assms(1,2)])
  show ?thesis
    by (simp add: settle_item_def settled_def Let_def up assms(4) del: update_outbox_frame(3))
qed

text \<open>Entries of the queue stay, with no fewer attempts.\<close>

definition dlq_kept :: "database \<Rightarrow> database \<Rightarrow> bool" where
  "dlq_kept db db' \<longleftrightarrow> (\<forall>q \<in> set (db_dlq db). \<exists>q' \<in> set (db_dlq db').
     dq_event_id q' = dq_event_id q \<and> dq_consumer_id q' = dq_consumer_id q \<and> dq_attempt_count q \<le> dq_attempt_count q')"

definition in_queue :: "string \<Rightarrow> string \<Rightarrow> int \<Rightarrow> database \<Rightarrow> bool" where
  "in_queue event_id consumer n db \<longleftrightarrow> (\<exists>q \<in> set (db_dlq db).
     dq_event_id q = event_id \<and> dq_consumer_id q = consumer \<and> n \<le> dq_attempt_count q)"

lemma in_queue_kept: "dlq_kept db db' \<Longrightarrow> in_queue i c n db \<Longrightarrow> in_queue i c n db'"
  unfolding dlq_kept_def in_queue_def by (elim bexE) (drule (1) bspec, fastforce)

lemma dlq_kept_refl: "db_dlq db' = db_dlq db \<Longrightarrow> dlq_kept db db'"
  by (auto simp: dlq_kept_def)

lemma upsert_dlq_queue:
  "in_queue i c n (upsert_dlq i c ep url p reason n db)" "dlq_kept db (upsert_dlq i c ep url p reason n db)"
proof -
  let ?conflict = "\<lambda>r. (dq_event_id r, dq_consumer_id r) = (i, c)"
  let ?f = "\<lambda>r. r\<lparr>dq_failure_reason := reason, dq_attempt_count := max (dq_attempt_count r) n, dq_last_attempt_at := db_now db\<rparr>"
  have "in_queue i c n (upsert_dlq i c ep url p reason n db) \<and> dlq_kept db (upsert_dlq i c ep url p reason n db)"
  proof (cases "list_ex ?conflict (db_dlq db)")
    case True
    have eq: "db_dlq (upsert_dlq i c ep url p reason n db) = map (\<lambda>r. if ?conflict r then ?f r else r) (db_dlq db)"
      using True by (simp add: upsert_dlq_def Let_def update_rows_def)
    obtain q where q: "q \<in> set (db_dlq db)" "?conflict q" using True by (auto simp: list_ex_iff)
    have "(if ?conflict q then ?f q else q) \<in> set (db_dlq (upsert_dlq i c ep url p reason n db))"
      unfolding eq set_map by (rule imageI [OF q(1)])
    then have "?f q \<in> set (db_dlq (upsert_dlq i c ep url p reason n db))" using q(2) by simp
    then have "in_queue i c n (upsert_dlq i c ep url p reason n db)" unfolding in_queue_def
      by (rule rev_bexI) (use q(2) in simp)
    moreover have "dlq_kept db (upsert_dlq i c ep url p reason n db)"
      unfolding dlq_kept_def
    proof
      fix q assume "q \<in> set (db_dlq db)"
      then have "(if ?conflict q then ?f q else q) \<in> set (db_dlq (upsert_dlq i c ep url p reason n db))"
        unfolding eq set_map by (rule imageI)
      then show "\<exists>q' \<in> set (db_dlq (upsert_dlq i c ep url p reason n db)).
          dq_event_id q' = dq_event_id q \<and> dq_consumer_id q' = dq_consumer_id q \<and> dq_attempt_count q \<le> dq_attempt_count q'"
        by (rule rev_bexI) simp
    qed
    ultimately show ?thesis by simp
  next
    case False
    then show ?thesis by (auto simp: upsert_dlq_def Let_def in_queue_def dlq_kept_def)
  qed
  then show "in_queue i c n (upsert_dlq i c ep url p reason n db)" "dlq_kept db (upsert_dlq i c ep url p reason n db)" by simp_all
qed

text \<open>A settled row of a known subscription was posted, or is in the dead letter queue after all its attempts.\<close>

definition accounted_row :: "env \<Rightarrow> database \<times> network \<Rightarrow> outbox_row \<Rightarrow> bool" where
  "accounted_row env w r \<longleftrightarrow>
     (\<forall>sub. outbox_subscription (fst w) (ob_subscription_id r) = Some sub \<longrightarrow>
       (ob_status r = DELIVERED \<longrightarrow> (sub_target_url sub, ob_payload r) \<in> set (nw_sent (snd w))) \<and>
       (ob_status r = FAILED \<longrightarrow> in_queue (event_id_of env (ob_payload r)) (sub_consumer_id sub) (ob_max_attempts r) (fst w)))"

lemma accounted_row_mono:
  assumes "accounted_row env (db, net) r" "db_subscriptions db' = db_subscriptions db" "dlq_kept db db'"
    and "set (nw_sent net) \<subseteq> set (nw_sent net')"
  shows "accounted_row env (db', net') r"
  using assms in_queue_kept [OF assms(3)] by (auto simp: accounted_row_def outbox_subscription_def)

lemma deliver_row:
  assumes "deliver_with_retry (row_delivery env r sub) 1 (db, net) = (ok, db2, net2)"
  shows "db_dlq db2 = db_dlq db" "set (nw_sent net) \<subseteq> set (nw_sent net2)"
    and "ok \<Longrightarrow> (sub_target_url sub, ob_payload r) \<in> set (nw_sent net2)"
proof -
  have "db_dlq db2 = db_dlq db \<and> set (nw_sent net) \<subseteq> set (nw_sent net2) \<and>
    (ok \<longrightarrow> (sub_target_url sub, ob_payload r) \<in> set (nw_sent net2))"
  proof (cases "sub_active sub")
    case True
    then have "dv_active (row_delivery env r sub)" by (simp add: row_delivery_def)
    from assms deliver_once [OF this, of db net] show ?thesis
      by (auto simp: Let_def row_delivery_def log_attempt_def dead_letter_def split: option.splits)
  next
    case False
    with assms show ?thesis by (auto simp: deliver_with_retry_def row_delivery_def)
  qed
  then show "db_dlq db2 = db_dlq db" "set (nw_sent net) \<subseteq> set (nw_sent net2)"
    "ok \<Longrightarrow> (sub_target_url sub, ob_payload r) \<in> set (nw_sent net2)" by simp_all
qed

lemma in_queue_le: "in_queue i c n db \<Longrightarrow> m \<le> n \<Longrightarrow> in_queue i c m db"
  by (force simp: in_queue_def)

lemma replace_row_inj: "r \<in> set rows \<Longrightarrow> replace_row r a rows = replace_row r b rows \<Longrightarrow> a = b"
  by (auto simp: replace_row_def update_rows_def)

lemma claimed_row_frame [simp]:
  "db_subscriptions (claim_item r db) = db_subscriptions db" "db_now (claim_item r db) = db_now db" "db_dlq (claim_item r db) = db_dlq db"
  by (simp_all add: claim_item_def update_outbox_def)

text \<open>One iteration on a row of a known subscription, outcome by outcome.\<close>

lemma process_item_known_row:
  assumes "distinct (map ob_id (db_outbox db))" "r \<in> set (db_outbox db)" "is_obj (ob_payload r)"
    and "outbox_subscription db (ob_subscription_id r) = Some sub"
    and "deliver_with_retry (row_delivery env r sub) 1 (claim_item r db, net) = (ok, db2, net2)"
    and "process_item env r (db, net) = (e, db', net')"
  shows "e = None \<and> net' = net2 \<and> db_outbox db' = replace_row r (settled (db_now db) ok r) (db_outbox db) \<and>
    accounted_row env (db', net') (settled (db_now db) ok r) \<and> dlq_kept db db'"
proof -
  from process_item_known [OF assms(4,3,5)] assms(6) have eqs: "e = None" "net' = net2" "db' = settle_item env r sub ok db2"
    by auto
  have fr: "db_outbox db2 = db_outbox (claim_item r db)" "db_subscriptions db2 = db_subscriptions db" "db_now db2 = db_now db"
    using webhook.frame [OF assms(5)] by simp_all
  note sent = deliver_row [OF assms(5)]
  have row: "db_outbox db' = replace_row r (settled (db_now db) ok r) (db_outbox db)"
    unfolding eqs(3) by (rule settle_item_row [OF assms(1,2) fr(1,3)])
  have subs: "outbox_subscription db' i = outbox_subscription db i" for i
    by (simp add: eqs(3) outbox_subscription_def fr(2))
  let ?i = "event_id_of env (ob_payload r)" and ?n = "ob_attempts r + 1"
  let ?db3 = "update_outbox (ob_id r) (\<lambda>q. q\<lparr>ob_status := FAILED, ob_attempts := ?n\<rparr>) db2"
  have last: "db' = upsert_dlq ?i (sub_consumer_id sub) (ob_endpoint_id r) (sub_target_url sub)
      (JObj [(''event'', ob_payload r), (''failed_at'', JStr (env_now env))]) ''outbox max attempts exhausted'' ?n ?db3"
    if "\<not> ok" "ob_max_attempts r \<le> ?n" using that by (simp add: eqs(3) settle_item_def Let_def)
  have dlq: "db_dlq ?db3 = db_dlq db" using sent(1) by (simp add: update_outbox_def)
  have queue: "in_queue ?i (sub_consumer_id sub) ?n db'" if "\<not> ok" "ob_max_attempts r \<le> ?n"
    unfolding last [OF that] by (rule upsert_dlq_queue)
  have kept: "dlq_kept db db'"
  proof (cases "\<not> ok \<and> ob_max_attempts r \<le> ?n")
    case True
    then have "dlq_kept ?db3 db'" using last upsert_dlq_queue(2) by metis
    then show ?thesis by (simp add: dlq_kept_def dlq)
  next
    case False
    then have "db_dlq db' = db_dlq db" using sent(1) by (auto simp: eqs(3) settle_item_def Let_def update_outbox_def)
    then show ?thesis by (rule dlq_kept_refl)
  qed
  have "accounted_row env (db', net') (settled (db_now db) ok r)"
    using sent(3) queue assms(4) by (auto simp: accounted_row_def subs settled_def eqs(2) intro: in_queue_le)
  with eqs row kept show ?thesis by simp
qed

lemma process_item_accounted:
  assumes "distinct (map ob_id (db_outbox db))" "r \<in> set (db_outbox db)" "is_obj (ob_payload r)" "ob_status r = PENDING"
    and "process_item env r (db, net) = (e, db', net')"
  shows "\<exists>r'. row_step (db_now db) r r' \<and> db_outbox db' = replace_row r r' (db_outbox db) \<and> e = None \<and>
    accounted_row env (db', net') r' \<and> dlq_kept db db' \<and> set (nw_sent net) \<subseteq> set (nw_sent net') \<and>
    db_subscriptions db' = db_subscriptions db \<and> db_now db' = db_now db"
proof -
  from process_item_step [OF assms(1,2,4,5)] assms(3) obtain r' where
    r': "row_step (db_now db) r r'" "db_outbox db' = replace_row r r' (db_outbox db)" "e = None"
    and fr: "db_subscriptions db' = db_subscriptions db" "db_now db' = db_now db" by blast
  have "accounted_row env (db', net') r' \<and> dlq_kept db db' \<and> set (nw_sent net) \<subseteq> set (nw_sent net')"
  proof (cases "outbox_subscription db (ob_subscription_id r)")
    case None
    have none: "outbox_subscription db' (ob_subscription_id r') = None"
      using None fr(1) row_step_frame [OF r'(1)] by (simp add: outbox_subscription_def)
    have "outbox_subscription (update_outbox (ob_id r) (\<lambda>r. r\<lparr>ob_status := DELIVERING\<rparr>) db) (ob_subscription_id r) = None"
      using None by (simp add: outbox_subscription_def)
    then have "db_dlq db' = db_dlq db \<and> net' = net" using assms(5) by (auto simp: process_item_def Let_def update_outbox_def)
    then show ?thesis using none by (auto simp: accounted_row_def intro: dlq_kept_refl)
  next
    case (Some sub)
    obtain ok db2 net2 where d: "deliver_with_retry (row_delivery env r sub) 1 (claim_item r db, net) = (ok, db2, net2)"
      by (metis prod.collapse)
    note known = process_item_known_row [OF assms(1-3) Some d assms(5)]
    with r'(2) have "r' = settled (db_now db) ok r" by (metis replace_row_inj [OF assms(2)])
    then show ?thesis using known deliver_row(2) [OF d] by auto
  qed
  with r' fr show ?thesis by blast
qed

section \<open>What becomes of an outbox\<close>

definition accounted :: "env \<Rightarrow> uuid set \<Rightarrow> database \<times> network \<Rightarrow> bool" where
  "accounted env ids w \<longleftrightarrow> (\<forall>r \<in> set (db_outbox (fst w)). ob_id r \<in> ids \<longrightarrow> accounted_row env w r)"

text \<open>The same row later: its statuses are those of a settled or waiting row.\<close>

definition later_row :: "outbox_row \<Rightarrow> outbox_row \<Rightarrow> bool" where
  "later_row r r' \<longleftrightarrow> ob_id r' = ob_id r \<and> ob_subscription_id r' = ob_subscription_id r \<and> ob_payload r' = ob_payload r \<and>
     ob_max_attempts r' = ob_max_attempts r \<and> (ob_status r' = DELIVERING \<longrightarrow> ob_status r = DELIVERING)"

lemma later_row_refl: "later_row r r"
  by (simp add: later_row_def)

lemma later_row_trans: "later_row q r \<Longrightarrow> later_row r s \<Longrightarrow> later_row q s"
  by (auto simp: later_row_def)

lemma process_items_accounted:
  assumes "claimable db items" "\<forall>r \<in> set items. is_obj (ob_payload r)" "accounted env ids (db, net)"
    and "process_items env items k (db, net) = (res, db', net')"
  shows "accounted env ids (db', net')"
  using assms
proof (induction items arbitrary: db net k)
  case (Cons r items)
  obtain e db1 net1 where p: "process_item env r (db, net) = (e, db1, net1)" by (metis prod.collapse)
  have c: "distinct (map ob_id (db_outbox db))" "r \<in> set (db_outbox db)" "is_obj (ob_payload r)" "ob_status r = PENDING"
    using Cons.prems(1,2) by (auto simp: claimable_def)
  from process_item_accounted [OF c p] obtain r' where
    r': "row_step (db_now db) r r'" "db_outbox db1 = replace_row r r' (db_outbox db)" "e = None"
      "accounted_row env (db1, net1) r'"
    and fr: "dlq_kept db db1" "set (nw_sent net) \<subseteq> set (nw_sent net1)" "db_subscriptions db1 = db_subscriptions db" by blast
  have "accounted_row env (db1, net1) q" if "q \<in> set (db_outbox db1)" "ob_id q \<in> ids" for q
  proof (cases "q = r'")
    case False
    then have "q \<in> set (db_outbox db)" using that(1) by (auto simp: r'(2) replace_row_def update_rows_def split: if_splits)
    with Cons.prems(3) that(2) have "accounted_row env (db, net) q" by (simp add: accounted_def)
    then show ?thesis by (rule accounted_row_mono [OF _ fr(3,1,2)])
  qed (simp add: r'(4))
  then have "accounted env ids (db1, net1)" by (simp add: accounted_def)
  with Cons.IH [OF claimable_next(1) [OF Cons.prems(1) r'(1,2)]] Cons.prems(2,4) p r'(3) show ?case by simp
qed simp

text \<open>The worker, over any number of polls.\<close>

lemma worker_accounts:
  assumes "outbox_ok (fst w)" "accounted env ids w"
  shows "accounted env ids (run_outbox_worker env ts w) \<and>
    list_all2 later_row (db_outbox (fst w)) (db_outbox (fst (run_outbox_worker env ts w))) \<and>
    db_subscriptions (fst (run_outbox_worker env ts w)) = db_subscriptions (fst w)"
  using assms
proof (induction ts arbitrary: w)
  case Nil
  then show ?case by (simp add: list_all2_same later_row_refl)
next
  case (Cons t ts)
  let ?db = "(fst w)\<lparr>db_now := t\<rparr>"
  obtain res db' net' where p: "poll_once env 50 (?db, snd w) = (res, db', net')" by (metis prod.collapse)
  then have items: "process_items env (due_rows ?db 50) 0 (?db, snd w) = (res, db', net')" by (simp add: poll_once_def)
  have ok: "outbox_ok ?db" using Cons.prems(1) by (simp add: outbox_ok_def)
  have c: "claimable ?db (due_rows ?db 50)" using ok by (intro due_rows_claimable) (simp add: outbox_ok_def)
  have o: "\<forall>r \<in> set (due_rows ?db 50). is_obj (ob_payload r)"
    using ok by (auto simp: outbox_ok_def list_all_iff due_rows_def limit_rows_def dest!: in_set_takeD)
  have "accounted env ids (?db, snd w)"
    using Cons.prems(2) by (simp add: accounted_def accounted_row_def outbox_subscription_def in_queue_def)
  then have acc: "accounted env ids (db', net')" by (rule process_items_accounted [OF c o _ items])
  have subs: "db_subscriptions db' = db_subscriptions (fst w)" using process_items_step [OF c items] by simp
  have "list_all2 later_row (db_outbox (fst w)) (db_outbox db')"
    using poll_rows(1) [OF ok p, simplified]
    by (rule list_all2_mono) (auto simp: later_row_def dest: row_step_frame split: if_splits)
  moreover have "outbox_ok (fst (db', net'))" using poll_rows(3) [OF ok p] by simp
  ultimately show ?case
    using Cons.IH [of "(db', net')"] acc subs p
    by (auto intro: list_all2_trans [OF later_row_trans])
qed

section \<open>Properties\<close>

text \<open>
  The fate of a notification, with \<open>body\<close> in its row and \<open>posted\<close> as what is sent: posted and delivered,
  or failed for good and in the dead letter queue after \<open>n\<close> attempts.
\<close>

definition reached :: "string \<Rightarrow> int \<Rightarrow> json \<Rightarrow> json \<Rightarrow> database \<times> network \<Rightarrow> subscription \<Rightarrow> outbox_row \<Rightarrow> bool" where
  "reached event_id n body posted w sub r \<longleftrightarrow> ob_subscription_id r = sub_id sub \<and> ob_payload r = body \<and>
     (ob_status r = DELIVERED \<and> (sub_target_url sub, posted) \<in> set (nw_sent (snd w)) \<or>
      ob_status r = FAILED \<and> in_queue event_id (sub_consumer_id sub) n (fst w))"

lemma reached_mono:
  "reached i n body posted (db, net) sub r \<Longrightarrow> dlq_kept db db' \<Longrightarrow> set (nw_sent net) \<subseteq> set (nw_sent net') \<Longrightarrow>
     reached i n body posted (db', net') sub r"
  by (auto simp: reached_def intro: in_queue_kept)

lemma dlq_kept_trans: "dlq_kept db1 db2 \<Longrightarrow> dlq_kept db2 db3 \<Longrightarrow> dlq_kept db1 db3"
  unfolding dlq_kept_def by (metis order_trans)

text \<open>Inline delivery, subscription by subscription: each notification has its fate at once.\<close>

lemma enqueue_inline_one:
  assumes "inline_delivery env" "sub_active sub" "outbox_ids db" "enqueue_one env e payload sub (db, net) = (db', net')"
  shows "\<exists>r. db_outbox db' = db_outbox db @ [r] \<and> enqueued env e (db_jsonb db payload) sub r \<and>
    reached (se_event_id env) 1 (db_jsonb db payload) payload (db', net') sub r \<and> dlq_kept db db' \<and>
    set (nw_sent net) \<subseteq> set (nw_sent net') \<and> outbox_ids db' \<and> db_jsonb db' = db_jsonb db \<and>
    db_subscriptions db' = db_subscriptions db \<and> db_now db' = db_now db"
proof -
  obtain i db1 where ins: "insert_outbox sub e payload db = (i, db1)" by (metis prod.collapse)
  let ?d = "\<lparr>dv_event_id = se_event_id env, dv_endpoint_id = e, dv_consumer_id = sub_consumer_id sub,
      dv_target_url = sub_target_url sub, dv_active = sub_active sub, dv_payload = payload,
      dv_persist_dlq = True, dv_now = se_now env\<rparr>"
  let ?f = "failure_of (nw_replies net (length (nw_sent net)))"
  let ?up = "\<lambda>r. r\<lparr>ob_status := (if ?f = None then DELIVERED else FAILED), ob_attempts := ob_attempts r + 1\<rparr>"
  obtain ok db2 net2 where d: "deliver_with_retry ?d 1 (db1, net) = (ok, db2, net2)" by (metis prod.collapse)
  have active: "dv_active ?d" using assms(2) by simp
  have once: "ok = (?f = None)" "net2 = net\<lparr>nw_sent := nw_sent net @ [(sub_target_url sub, payload)]\<rparr>"
    "db2 = (case ?f of None \<Rightarrow> log_attempt ?d ?f 1 db1 | Some reason \<Rightarrow> dead_letter ?d reason 1 (log_attempt ?d ?f 1 db1))"
    using d [unfolded deliver_once [OF active] Let_def] by auto
  have db': "db' = update_outbox i ?up db2" "net' = net2"
    using assms(1,4) ins d once(1) by (auto simp: enqueue_one_def Let_def)
  have 1: "i = new_uuid db" "db_dlq db1 = db_dlq db" "db_outbox db2 = db_outbox db1"
    "\<exists>r. db_outbox db1 = db_outbox db @ [r] \<and> ob_id r = i"
    using ins webhook.frame [OF d] by (auto simp: insert_outbox_def used_uuid_def)
  have fresh: "\<forall>r \<in> set (db_outbox db). ob_id r \<noteq> i"
    using assms(3) new_uuid_fresh [of db] by (auto simp: outbox_ids_def list_all_iff 1(1))
  from enqueue_one_row [OF assms(3,4)] obtain r where r: "db_outbox db' = db_outbox db @ [r]"
    "enqueued env e (db_jsonb db payload) sub r" "outbox_ids db'" "db_jsonb db' = db_jsonb db"
    "db_subscriptions db' = db_subscriptions db" "db_now db' = db_now db" by blast
  from 1(4) obtain r0 where r0: "db_outbox db1 = db_outbox db @ [r0]" "ob_id r0 = i" by blast
  have "db_outbox db' = db_outbox db @ [(?up r0)\<lparr>ob_updated_at := db_now db2\<rparr>]"
    using fresh r0(2) by (simp add: db'(1) 1(3) r0(1) update_rows_append update_rows_none) (simp add: update_rows_def)
  with r(1) have "r = (?up r0)\<lparr>ob_updated_at := db_now db2\<rparr>" by simp
  then have status: "ob_status r = (if ?f = None then DELIVERED else FAILED)" by simp
  have queue: "in_queue (se_event_id env) (sub_consumer_id sub) 1 db'" if "?f \<noteq> None"
    using that upsert_dlq_queue(1) by (auto simp: db'(1) once(3) dead_letter_def update_outbox_def in_queue_def)
  have kept: "dlq_kept db db'"
    using upsert_dlq_queue(2) [of "log_attempt ?d ?f 1 db1"] 1(2)
    by (cases ?f) (auto simp: db'(1) once(3) dead_letter_def update_outbox_def dlq_kept_def log_attempt_def)
  have sent: "set (nw_sent net') = insert (sub_target_url sub, payload) (set (nw_sent net))" by (simp add: db'(2) once(2))
  have row: "ob_subscription_id r = sub_id sub" "ob_payload r = db_jsonb db payload" using r(2) by (simp_all add: enqueued_def)
  have "reached (se_event_id env) 1 (db_jsonb db payload) payload (db', net') sub r"
    using row status queue by (cases "?f = None") (simp_all add: reached_def sent)
  then show ?thesis using r kept sent by blast
qed

lemma enqueue_inline:
  assumes "inline_delivery env" "list_all sub_active subs" "outbox_ids db"
    and "fold (enqueue_one env e payload) subs (db, net) = (db', net')"
  shows "\<exists>rows. db_outbox db' = db_outbox db @ rows \<and>
    list_all2 (\<lambda>sub r. enqueued env e (db_jsonb db payload) sub r \<and>
      reached (se_event_id env) 1 (db_jsonb db payload) payload (db', net') sub r) subs rows \<and>
    dlq_kept db db' \<and> set (nw_sent net) \<subseteq> set (nw_sent net') \<and> outbox_ids db'"
  using assms(2-)
proof (induction subs arbitrary: db net)
  case (Cons sub subs)
  obtain db1 net1 where 1: "enqueue_one env e payload sub (db, net) = (db1, net1)" by (metis prod.collapse)
  have act: "sub_active sub" "list_all sub_active subs" using Cons.prems(1) by simp_all
  from enqueue_inline_one [OF assms(1) act(1) Cons.prems(2) 1] obtain r where
    r: "db_outbox db1 = db_outbox db @ [r]" "enqueued env e (db_jsonb db payload) sub r"
      "reached (se_event_id env) 1 (db_jsonb db payload) payload (db1, net1) sub r" "dlq_kept db db1"
      "set (nw_sent net) \<subseteq> set (nw_sent net1)" "outbox_ids db1" "db_jsonb db1 = db_jsonb db" by blast
  have "fold (enqueue_one env e payload) subs (db1, net1) = (db', net')" using Cons.prems(3) 1 by simp
  from Cons.IH [OF act(2) r(6) this] obtain rows where rows: "db_outbox db' = db_outbox db1 @ rows"
    "list_all2 (\<lambda>sub r. enqueued env e (db_jsonb db payload) sub r \<and>
      reached (se_event_id env) 1 (db_jsonb db payload) payload (db', net') sub r) subs rows"
    "dlq_kept db1 db'" "set (nw_sent net1) \<subseteq> set (nw_sent net')" "outbox_ids db'"
    unfolding r(7) by blast
  have "reached (se_event_id env) 1 (db_jsonb db payload) payload (db', net') sub r"
    by (rule reached_mono [OF r(3) rows(3,4)])
  moreover have "dlq_kept db db'" by (rule dlq_kept_trans [OF r(4) rows(3)])
  ultimately show ?case using r rows by (intro exI [of _ "r # rows"]) auto
qed (simp add: dlq_kept_refl)

text \<open>The worker leaves settled rows alone, and takes nothing back.\<close>

lemma process_items_keep:
  assumes "claimable db items" "\<forall>r \<in> set items. is_obj (ob_payload r)" "process_items env items k (db, net) = (res, db', net')"
  shows "dlq_kept db db' \<and> set (nw_sent net) \<subseteq> set (nw_sent net')"
  using assms
proof (induction items arbitrary: db net k)
  case (Cons r items)
  obtain e db1 net1 where p: "process_item env r (db, net) = (e, db1, net1)" by (metis prod.collapse)
  have c: "distinct (map ob_id (db_outbox db))" "r \<in> set (db_outbox db)" "is_obj (ob_payload r)" "ob_status r = PENDING"
    using Cons.prems(1,2) by (auto simp: claimable_def)
  from process_item_accounted [OF c p] obtain r' where r': "row_step (db_now db) r r'"
    "db_outbox db1 = replace_row r r' (db_outbox db)" "e = None" "dlq_kept db db1" "set (nw_sent net) \<subseteq> set (nw_sent net1)" by blast
  with Cons.IH [OF claimable_next(1) [OF Cons.prems(1) r'(1,2)]] Cons.prems(2,3) p show ?case
    by (auto intro: dlq_kept_trans)
qed (simp add: dlq_kept_refl)

lemma worker_keeps:
  assumes "outbox_ok (fst w)"
  shows "list_all2 (\<lambda>r r'. ob_status r \<noteq> PENDING \<longrightarrow> r' = r) (db_outbox (fst w)) (db_outbox (fst (run_outbox_worker env ts w))) \<and>
    dlq_kept (fst w) (fst (run_outbox_worker env ts w)) \<and>
    set (nw_sent (snd w)) \<subseteq> set (nw_sent (snd (run_outbox_worker env ts w)))"
  using assms
proof (induction ts arbitrary: w)
  case Nil
  then show ?case by (simp add: list_all2_same dlq_kept_refl)
next
  case (Cons t ts)
  let ?db = "(fst w)\<lparr>db_now := t\<rparr>"
  obtain res db' net' where p: "poll_once env 50 (?db, snd w) = (res, db', net')" by (metis prod.collapse)
  then have items: "process_items env (due_rows ?db 50) 0 (?db, snd w) = (res, db', net')" by (simp add: poll_once_def)
  have ok: "outbox_ok ?db" using Cons.prems(1) by (simp add: outbox_ok_def)
  have c: "claimable ?db (due_rows ?db 50)" using ok by (intro due_rows_claimable) (simp add: outbox_ok_def)
  have o: "\<forall>r \<in> set (due_rows ?db 50). is_obj (ob_payload r)"
    using ok by (auto simp: outbox_ok_def list_all_iff due_rows_def limit_rows_def dest!: in_set_takeD)
  have rows: "list_all2 (\<lambda>r r'. ob_status r \<noteq> PENDING \<longrightarrow> r' = r) (db_outbox (fst w)) (db_outbox db')"
    using poll_rows(1) [OF ok p, simplified] by (rule list_all2_mono) (auto dest: row_step_pending split: if_splits)
  have kept: "dlq_kept (fst w) db'" "set (nw_sent (snd w)) \<subseteq> set (nw_sent net')"
    using process_items_keep [OF c o items] by (simp_all add: dlq_kept_def)
  have "outbox_ok (fst (db', net'))" using poll_rows(3) [OF ok p] by simp
  note IH = Cons.IH [OF this]
  have "list_all2 (\<lambda>r r'. ob_status r \<noteq> PENDING \<longrightarrow> r' = r) (db_outbox (fst w))
      (db_outbox (fst (run_outbox_worker env ts (db', net'))))"
    by (rule list_all2_trans [OF _ rows conjunct1 [OF IH, simplified fst_conv]]) auto
  then show ?case using IH kept by (auto simp: p intro: dlq_kept_trans)
qed

lemma subscription_known:
  assumes "distinct (map sub_id (db_subscriptions db))" "sub \<in> set (db_subscriptions db)"
  shows "outbox_subscription db (sub_id sub) = Some sub"
  unfolding outbox_subscription_def
  by (rule first_row_unique [OF assms(2)]) (use assms in \<open>auto simp: distinct_map inj_on_def\<close>)

text \<open>The rows just enqueued: what they are, that the polls settle them, and where they end.\<close>

lemma waiting_row:
  assumes "list_all2 (waiting now e body) affected rows" "r \<in> set rows"
  shows "ob_payload r = body" "ob_status r = PENDING" "ob_attempts r = 0" "ob_max_attempts r = 5"
    "ob_next_retry_at r = now" "ob_created_at r = now"
proof -
  obtain sub where "waiting now e body sub r" using assms by (auto simp: list_all2_conv_all_nth in_set_conv_nth)
  then show "ob_payload r = body" "ob_status r = PENDING" "ob_attempts r = 0" "ob_max_attempts r = 5"
    "ob_next_retry_at r = now" "ob_created_at r = now"
    by (simp_all add: waiting_def)
qed

lemma waiting_left: "list_all2 (waiting now e body) affected rows \<Longrightarrow> attempts_left rows = 5 * length affected"
  by (induction rule: list_all2_induct) (simp_all add: waiting_def is_pending_def)

lemma waiting_settled:
  assumes "outbox_ok db" "db_outbox db = old @ rows" "list_all2 (waiting now e body) affected rows"
    and "attempts_left old + 5 * length affected \<le> minutes now ts" "sorted (now # ts)"
    and "\<forall>r \<in> set old. ob_status r = PENDING \<longrightarrow> ob_next_retry_at r \<le> now + 60"
  shows "\<forall>r \<in> set (db_outbox (fst (run_outbox_worker env ts (db, net)))). ob_status r \<noteq> PENDING"
proof (rule outbox_settles)
  have "retried_by (now + 60) db" using assms(2,6) waiting_row(5) [OF assms(3)] by (auto simp: retried_by_def)
  then show "retried_by (now + 60) (fst (db, net)) \<and> attempts_left (db_outbox (fst (db, net))) \<le> minutes now ts \<or>
      retried_by (now + 60) (fst (db, net)) \<and> attempts_left (db_outbox (fst (db, net))) < minutes now ts"
    using assms(4) by (simp add: assms(2) waiting_left [OF assms(3)])
qed (use assms(1,5) in simp_all)

lemma waiting_accounted:
  assumes "list_all2 (waiting now e body) affected rows" "db_outbox db = old @ rows" "distinct (map ob_id (db_outbox db))"
  shows "accounted env (ob_id ` set rows) (db, net)"
  unfolding accounted_def
proof (intro ballI impI)
  fix r assume "r \<in> set (db_outbox (fst (db, net)))" "ob_id r \<in> ob_id ` set rows"
  then have "r \<in> set rows" using assms(3) by (auto simp: assms(2))
  then show "accounted_row env (db, net) r" using waiting_row [OF assms(1)] by (simp add: accounted_row_def)
qed

lemma waiting_reached:
  assumes "waiting now e body sub q" "later_row q r" "accounted_row env w r" "ob_status r \<noteq> PENDING"
    and "outbox_subscription (fst w) (sub_id sub) = Some sub"
  shows "reached (event_id_of env body) 5 body body w sub r"
proof -
  have "ob_status r = DELIVERED \<or> ob_status r = FAILED"
    using assms(1,2,4) by (cases "ob_status r") (auto simp: later_row_def waiting_def)
  with assms show ?thesis by (auto simp: reached_def accounted_row_def waiting_def later_row_def)
qed

text \<open>Without inline delivery, the polls of the worker settle the rows.\<close>

lemma worker_reaches:
  assumes "outbox_ok db" "db_outbox db = old @ rows" "list_all2 (waiting now e body) affected rows"
    and "attempts_left old + 5 * length affected \<le> minutes now ts" "sorted (now # ts)"
    and "\<forall>r \<in> set old. ob_status r = PENDING \<longrightarrow> ob_next_retry_at r \<le> now + 60"
    and "distinct (map sub_id (db_subscriptions db))" "set affected \<subseteq> set (db_subscriptions db)"
  shows "\<exists>earlier final. db_outbox (fst (run_outbox_worker env ts (db, net))) = earlier @ final \<and>
    list_all2 (reached (event_id_of env body) 5 body body (run_outbox_worker env ts (db, net))) affected final"
proof -
  let ?w = "run_outbox_worker env ts (db, net)"
  note settled = waiting_settled [OF assms(1-6), of env net]
  have ids: "distinct (map ob_id (db_outbox db))" using assms(1) by (simp add: outbox_ok_def)
  from worker_accounts [OF _ waiting_accounted [OF assms(3,2) ids, where env = env and net = net], of ts] assms(1)
  have acc: "accounted env (ob_id ` set rows) ?w" and later: "list_all2 later_row (old @ rows) (db_outbox (fst ?w))"
    and subs: "db_subscriptions (fst ?w) = db_subscriptions db" by (simp_all add: assms(2))
  from later obtain earlier final where fin: "db_outbox (fst ?w) = earlier @ final" "list_all2 later_row rows final"
    by (auto simp: list_all2_append1)
  have len: "length rows = length affected" "length final = length rows"
    using assms(3) fin(2) by (simp_all add: list_all2_lengthD)
  have "reached (event_id_of env body) 5 body body ?w (affected ! i) (final ! i)" if i: "i < length affected" for i
  proof (rule waiting_reached [OF list_all2_nthD [OF assms(3) i]])
    show "later_row (rows ! i) (final ! i)" using list_all2_nthD [OF fin(2), of i] i len by simp
    then show "accounted_row env ?w (final ! i)"
      using acc i len by (simp add: accounted_def later_row_def fin(1))
    show "ob_status (final ! i) \<noteq> PENDING" using settled i len by (simp add: fin(1))
    have "affected ! i \<in> set (db_subscriptions db)" using assms(8) nth_mem [OF i] by blast
    then show "outbox_subscription (fst ?w) (sub_id (affected ! i)) = Some (affected ! i)"
      using assms(7) by (intro subscription_known) (simp_all add: subs)
  qed
  then have "list_all2 (reached (event_id_of env body) 5 body body ?w) affected final"
    using len by (simp add: list_all2_conv_all_nth)
  with fin(1) show ?thesis by blast
qed

text \<open>With it, the rows are settled when the request is over, and no poll changes that.\<close>

lemma worker_leaves:
  assumes "outbox_ok db" "db_outbox db = old @ rows"
    and "list_all2 (\<lambda>sub r. ob_status r \<noteq> PENDING \<and> reached i n body posted (db, net) sub r) affected rows"
  shows "\<exists>earlier. db_outbox (fst (run_outbox_worker env ts (db, net))) = earlier @ rows \<and>
    list_all2 (reached i n body posted (run_outbox_worker env ts (db, net))) affected rows"
proof -
  let ?w = "run_outbox_worker env ts (db, net)"
  have keep: "list_all2 (\<lambda>r r'. ob_status r \<noteq> PENDING \<longrightarrow> r' = r) (old @ rows) (db_outbox (fst ?w))"
    "dlq_kept db (fst ?w)" "set (nw_sent net) \<subseteq> set (nw_sent (snd ?w))"
    using worker_keeps [of "(db, net)" env ts] assms(1) by (simp_all add: assms(2))
  from keep(1) obtain earlier final where fin: "db_outbox (fst ?w) = earlier @ final"
    "list_all2 (\<lambda>r r'. ob_status r \<noteq> PENDING \<longrightarrow> r' = r) rows final"
    by (auto simp: list_all2_append1)
  have "final = rows"
    using fin(2) assms(3) by (intro nth_equalityI) (auto simp: list_all2_conv_all_nth)
  moreover have "list_all2 (reached i n body posted ?w) affected rows"
    using assms(3) reached_mono [OF _ keep(2,3)] by (auto elim!: list_all2_mono)
  ultimately show ?thesis using fin(1) by blast
qed

text \<open>
  C6. Nobody is lost. Tracking a drift settles the notification of every affected subscription,
  whatever the subscribers answer: in the end either it was posted and its row is DELIVERED, or its row
  is FAILED and the dead letter queue has it under the event and the consumer. With inline delivery,
  the default, that is so when the request ends, after one attempt, and however the worker polls from
  then on. Without it, it is so after five attempts of the worker, once its polls, in order of time and
  with nothing enqueued in between, have gone on for as many minutes as the pending rows of the outbox
  have attempts left, those waiting before the request included, however many there are; these must be due a
  minute after the request, as every row retried by then is.
\<close>

theorem notification_delivered_or_dead_lettered:
  assumes "registry_ok (ws_db w)" "outbox_ids (ws_db w)" "select_endpoint (ws_db w) k = Some (e, name)"
    and "versions_of (ws_db w) e \<noteq> []" "fp = fingerprint (se_sha env) (canonicalize payload)"
    and "fp \<notin> set (history (ws_db w) e)"
    and "diff_and_classify (sv_canonical_schema (last (versions_of (ws_db w) e))) (canonicalize payload) = Inr ds"
    and "outbox_ok (ws_db w)" "distinct (map sub_id (db_subscriptions (ws_db w)))"
    and "v = int (length (history (ws_db w) e)) + 1" "verdict = summarize_classification ds"
    and "affected = select_affected_subscriptions (ws_db w) e v verdict"
    and "event = notification (se_event_id env) e verdict v (map item_dict ds)"
    and "body = db_jsonb (ws_db w) event" "is_obj body"
    and "\<not> inline_delivery env \<Longrightarrow> sorted (db_now (ws_db w) # ts)"
    and "\<not> inline_delivery env \<Longrightarrow> retried_by (db_now (ws_db w) + 60) (ws_db w)"
    and "\<not> inline_delivery env \<Longrightarrow>
      attempts_left (db_outbox (ws_db w)) + 5 * length affected \<le> minutes (db_now (ws_db w)) ts"
  shows "\<exists>res w' earlier rows. track_contract env ops publisher k payload w = (Inr res, w') \<and>
    db_outbox (fst (run_outbox_worker wenv ts (ws_db w', ws_net w'))) = earlier @ rows \<and>
    list_all2 (if inline_delivery env
      then reached (se_event_id env) 1 body event (run_outbox_worker wenv ts (ws_db w', ws_net w'))
      else reached (event_id_of wenv body) 5 body body (run_outbox_worker wenv ts (ws_db w', ws_net w'))) affected rows"
proof (cases "inline_delivery env")
  case False
  from track_leaves_waiting [OF assms(1-7,10,11) False, of ops publisher] obtain res w' rows where
    t: "track_contract env ops publisher k payload w = (Inr res, w')"
    and out: "db_outbox (ws_db w') = db_outbox (ws_db w) @ rows"
    and rows: "list_all2 (waiting (db_now (ws_db w)) e body) affected rows"
    and subs: "db_subscriptions (ws_db w') = db_subscriptions (ws_db w)" and ids: "distinct (map ob_id (db_outbox (ws_db w')))"
    unfolding assms(12-14) by blast
  have ok: "outbox_ok (ws_db w')"
    using assms(8,15) ids waiting_row [OF rows] by (auto simp: outbox_ok_def out list_all_iff)
  have "set affected \<subseteq> set (db_subscriptions (ws_db w))"
    by (auto simp: assms(12) select_affected_subscriptions_def)
  with worker_reaches [OF ok out rows assms(18) [OF False] assms(16) [OF False], of wenv "ws_net w'"]
    assms(9) assms(17) [OF False] t False
  show ?thesis by (simp add: retried_by_def subs)
next
  case True
  obtain ns s m p where k: "k = (ns, s, m, p)" by (cases k)
  from track_superseding [OF assms(1,2) assms(3) [unfolded k] assms(4-7,10,11), of ops publisher] obtain res r db1 w' where
    t: "track_contract env ops publisher k payload w = (Inr res, w')"
    and ins: "insert_version e fp (canonicalize payload) ''SAFE'' (get_current_schema (ws_db w) e) (ws_db w) = (r, db1)"
    and ids: "outbox_ids (set_classification (sv_id r) verdict db1)"
    and f: "fold (enqueue_one env e event) affected (set_classification (sv_id r) verdict db1, ws_net w) = (ws_db w', ws_net w')"
    unfolding k assms(12,13) by blast
  have fr: "db_outbox (set_classification (sv_id r) verdict db1) = db_outbox (ws_db w)"
    "db_jsonb (set_classification (sv_id r) verdict db1) = db_jsonb (ws_db w)"
    using ins by (auto simp: insert_version_def set_classification_def used_uuid_def Let_def split: if_splits)
  have "list_all sub_active affected" by (auto simp: assms(12) select_affected_subscriptions_def list_all_iff)
  from enqueue_inline [OF True this ids f] obtain rows where out: "db_outbox (ws_db w') = db_outbox (ws_db w) @ rows"
    and rows: "list_all2 (\<lambda>sub r. enqueued env e body sub r \<and>
      reached (se_event_id env) 1 body event (ws_db w', ws_net w') sub r) affected rows"
    and ids': "outbox_ids (ws_db w')"
    unfolding fr assms(14) by blast
  have "list_all (\<lambda>r. is_obj (ob_payload r) \<and> ob_attempts r = 1 \<and> ob_max_attempts r = 5 \<and> ob_status r \<noteq> PENDING) rows"
    using rows True assms(15) by (induction rule: list_all2_induct) (auto simp: enqueued_def)
  then have ok: "outbox_ok (ws_db w')"
    using assms(8) ids' by (auto simp: outbox_ok_def outbox_ids_def out list_all_iff)
  have "list_all2 (\<lambda>sub r. ob_status r \<noteq> PENDING \<and> reached (se_event_id env) 1 body event (ws_db w', ws_net w') sub r) affected rows"
    using rows by (rule list_all2_mono) (use True in \<open>auto simp: enqueued_def\<close>)
  from worker_leaves [OF ok out this, of wenv ts] t True show ?thesis by auto
qed





text \<open>One poll takes the rows just enqueued, if nothing else waits.\<close>

lemma waiting_due:
  assumes "list_all2 (waiting now e body) affected rows" "db_outbox db = old @ rows" "filter is_pending old = []"
    and "length affected \<le> 50" "now \<le> db_now db"
  shows "due_rows db 50 = rows"
proof -
  have "\<forall>r \<in> set old. ob_status r \<noteq> PENDING" using assms(3) by (auto simp: filter_empty_conv is_pending_def)
  then have "filter (\<lambda>r. ob_status r = PENDING \<and> ob_next_retry_at r \<le> db_now db) (db_outbox db) = rows"
    using waiting_row [OF assms(1)] assms(5) by (auto simp: assms(2) filter_empty_conv intro!: filter_True)
  moreover have "map ob_created_at rows = replicate (length rows) now"
    using waiting_row(6) [OF assms(1)] by (intro replicate_eqI) auto
  then have "sort_key ob_created_at rows = rows" by (intro sort_key_id_if_sorted) simp
  ultimately show ?thesis
    using assms(1,4) by (simp add: due_rows_def limit_rows_def order_asc_def list_all2_lengthD)
qed



section \<open>Inline delivery and the worker\<close>

text \<open>
  The commit inside an inline delivery makes the row visible before its status is written: it is still
  PENDING, and due. A worker that polls then posts the notification a second time. The database is that
  of \<open>enqueue_one\<close> between its two halves, with nothing else pending.
\<close>

theorem inline_notification_posted_again:
  assumes "outbox_ids db" "insert_outbox sub e payload db = (i, db1)" "sub_active sub"
    and "d = \<lparr>dv_event_id = se_event_id env, dv_endpoint_id = e, dv_consumer_id = sub_consumer_id sub,
           dv_target_url = sub_target_url sub, dv_active = sub_active sub, dv_payload = payload,
           dv_persist_dlq = True, dv_now = se_now env\<rparr>"
    and "deliver_with_retry d 1 (db1, net) = (ok, db2, net2)"
    and "filter is_pending (db_outbox db) = []" "is_obj (db_jsonb db payload)"
    and "distinct (map sub_id (db_subscriptions db))" "sub \<in> set (db_subscriptions db)"
  shows "nw_sent (snd (snd (poll_once wenv 50 (db2, net2)))) =
    nw_sent net @ [(sub_target_url sub, payload), (sub_target_url sub, db_jsonb db payload)]"
proof -
  have active: "dv_active d" using assms(3,4) by simp
  have sent: "nw_sent net2 = nw_sent net @ [(sub_target_url sub, payload)]"
    using assms(5) [unfolded deliver_once [OF active] Let_def] by (auto simp: assms(4))
  obtain r where r: "db_outbox db1 = db_outbox db @ [r]" "waiting (db_now db) e (db_jsonb db payload) sub r" "ob_id r = new_uuid db"
    using assms(2) by (auto simp: insert_outbox_def waiting_def)
  have 1: "db_subscriptions db1 = db_subscriptions db" "db_now db1 = db_now db"
    using assms(2) by (auto simp: insert_outbox_def used_uuid_def)
  have fr: "db_outbox db2 = db_outbox db @ [r]" "db_subscriptions db2 = db_subscriptions db" "db_now db2 = db_now db"
    using webhook.frame [OF assms(5)] r(1) 1 by simp_all
  have pay: "ob_payload r = db_jsonb db payload" "ob_subscription_id r = sub_id sub" using r(2) by (simp_all add: waiting_def)
  have due: "due_rows db2 50 = [r]"
    by (rule waiting_due [of "db_now db" e "db_jsonb db payload" "[sub]" "[r]"]) (use r(2) fr assms(6) in simp_all)
  have ids: "distinct (map ob_id (db_outbox db2))"
    using assms(1) new_uuid_fresh [of db] r(3) by (auto simp: fr(1) outbox_ids_def list_all_iff)
  have known: "outbox_subscription db2 (ob_subscription_id r) = Some sub"
    unfolding pay(2) by (rule subscription_known) (use assms(8,9) in \<open>simp_all add: fr(2)\<close>)
  obtain ok' db' net' where again: "deliver_with_retry (row_delivery wenv r sub) 1 (claim_item r db2, net2) = (ok', db', net')"
    by (metis prod.collapse)
  obtain x db3 net3 where item: "process_item wenv r (db2, net2) = (x, db3, net3)" by (metis prod.collapse)
  have "x = None" "net3 = net'"
    using process_item_known_row [OF ids _ _ known again item] assms(7) by (simp_all add: fr(1) pay(1))
  moreover have "nw_sent net' = nw_sent net2 @ [(sub_target_url sub, ob_payload r)]"
    using again deliver_once [of "row_delivery wenv r sub"] assms(3) by (auto simp: row_delivery_def Let_def)
  ultimately show ?thesis using item by (simp add: poll_once_def due sent pay(1))
qed

section \<open>An example\<close>

definition subscribed :: "(unit, unit) world_state" where
  "subscribed = (let w = observed (JObj [(''a'', JInt 1)]) in
     w\<lparr>ws_db := (ws_db w)\<lparr>db_subscriptions := [(example_sub ''RISKY'')\<lparr>sub_endpoint_id := ''0''\<rparr>]\<rparr>\<rparr>)"

definition text_change :: "diff_item list" where
  "text_change = [\<lparr>di_path = ''a'', di_old_type = Some ''integer'', di_new_type = Some ''string'', di_old_nullable = Some False,
     di_new_nullable = Some False, di_classification = ''BREAKING'', di_reason = ''type changed integer->string''\<rparr>]"

definition text_body :: json where
  "text_body = notification ''ev'' ''0'' ''BREAKING'' 2 (map item_dict text_change)"


lemma subscribed_ok:
  "registry_ok (ws_db subscribed)" "outbox_ids (ws_db subscribed)"
  "select_endpoint (ws_db subscribed) example_key = Some (''0'', ''users GET /v1/users'')"
  "versions_of (ws_db subscribed) ''0'' \<noteq> []"
  "fingerprint (se_sha (service_example (Some ''false''))) (canonicalize (JObj [(''a'', JStr ''x'')]))
     \<notin> set (history (ws_db subscribed) ''0'')"
  "diff_and_classify (sv_canonical_schema (last (versions_of (ws_db subscribed) ''0''))) (canonicalize (JObj [(''a'', JStr ''x'')])) =
     Inr text_change"
  "length (history (ws_db subscribed) ''0'') = 1"
proof -
  note o = observed_ok [of "JObj [(''a'', JInt 1)]"]
  show "registry_ok (ws_db subscribed)" "outbox_ids (ws_db subscribed)"
    "select_endpoint (ws_db subscribed) example_key = Some (''0'', ''users GET /v1/users'')"
    using o by (simp_all add: subscribed_def Let_def registry_ok_def outbox_ids_def versions_of_def select_endpoint_def issued_def chain_ok_def)
  have vs: "versions_of (ws_db subscribed) x = versions_of (ws_db (observed (JObj [(''a'', JInt 1)]))) x" for x
    by (simp add: subscribed_def Let_def versions_of_def)
  show "versions_of (ws_db subscribed) ''0'' \<noteq> []" "length (history (ws_db subscribed) ''0'') = 1"
    using o by (simp_all add: vs history_def)
  have "fingerprint id (canonicalize (JObj [(''a'', JStr ''x'')])) \<noteq> fingerprint id (canonicalize (JObj [(''a'', JInt 1)]))"
    by code_simp
  then show "fingerprint (se_sha (service_example (Some ''false''))) (canonicalize (JObj [(''a'', JStr ''x'')]))
     \<notin> set (history (ws_db subscribed) ''0'')"
    using o by (simp add: history_def vs service_example_def del: canonicalize.simps)
  have "diff_and_classify (canonicalize (JObj [(''a'', JInt 1)])) (canonicalize (JObj [(''a'', JStr ''x'')])) =
      Inr text_change"
    by code_simp
  then show "diff_and_classify (sv_canonical_schema (last (versions_of (ws_db subscribed) ''0''))) (canonicalize (JObj [(''a'', JStr ''x'')])) =
     Inr text_change"
    using o by (simp add: vs)
qed

lemma subscribed_fields:
  "\<not> inline_delivery (service_example (Some ''false''))" "distinct (map sub_id (db_subscriptions (ws_db subscribed)))"
  "select_affected_subscriptions (ws_db subscribed) ''0'' 2 ''BREAKING'' = [(example_sub ''RISKY'')\<lparr>sub_endpoint_id := ''0''\<rparr>]"
  "db_jsonb (ws_db subscribed) = id" "db_outbox (ws_db subscribed) = []" "ws_net subscribed = flaky []" "db_now (ws_db subscribed) = 0"
  "is_obj (notification i e c v d)"
proof -
  show "db_jsonb (ws_db subscribed) = id" "db_outbox (ws_db subscribed) = []" "db_now (ws_db subscribed) = 0"
    by (simp_all add: subscribed_def observed_def Let_def upsert_schema_version_def upsert_locked_def insert_version_def
        select_endpoint_def find_version_def get_current_schema_def has_key_def empty_db_def split: prod.split)
  show "\<not> inline_delivery (service_example (Some ''false''))"
    by (simp add: inline_delivery_def service_example_def py_lower_def lower_char_def code_of_def Let_def)
qed (simp_all add: subscribed_def Let_def observed_def select_affected_subscriptions_def example_sub_def notification_def is_obj_def)

lemma subscribed_event:
  "(2::int) = int (length (history (ws_db subscribed) ''0'')) + 1" "''BREAKING'' = summarize_classification text_change"
  "text_body = db_jsonb (ws_db subscribed)
     (notification (se_event_id (service_example (Some ''false''))) ''0'' ''BREAKING'' 2 (map item_dict text_change))"
  "is_obj text_body"
  by (simp_all add: subscribed_ok(7) subscribed_fields text_body_def service_example_def)
     (simp add: summarize_classification_def text_change_def)

definition example_minutes :: "int list" where
  "example_minutes = [15, 60, 90, 120, 180, 240, 300, 305]"

theorem notification_delivered_or_dead_lettered_witness:
  "\<exists>res w' earlier r. track_contract (service_example (Some ''false'')) (None :: unit doc_ops option) Noop example_key
      (JObj [(''a'', JStr ''x'')]) subscribed = (Inr res, w') \<and>
    db_outbox (fst (run_outbox_worker example_env example_minutes (ws_db w', ws_net w'))) = earlier @ [r] \<and>
    reached (event_id_of example_env text_body) 5 text_body text_body (run_outbox_worker example_env example_minutes (ws_db w', ws_net w'))
      ((example_sub ''RISKY'')\<lparr>sub_endpoint_id := ''0''\<rparr>) r"
proof -
  note f = subscribed_fields
  have ok: "outbox_ok (ws_db subscribed)" by (simp add: outbox_ok_def f(5))
  have polls: "sorted (db_now (ws_db subscribed) # example_minutes)" "retried_by (db_now (ws_db subscribed) + 60) (ws_db subscribed)"
    "attempts_left (db_outbox (ws_db subscribed)) + 5 * length [(example_sub ''RISKY'')\<lparr>sub_endpoint_id := ''0''\<rparr>]
       \<le> minutes (db_now (ws_db subscribed)) example_minutes"
    by (simp_all add: f example_minutes_def retried_by_def)
  from notification_delivered_or_dead_lettered [OF subscribed_ok(1-4) refl subscribed_ok(5,6) ok f(2)
          subscribed_event(1,2) f(3) [symmetric] refl subscribed_event(3,4) polls,
        where publisher = Noop and ops = "None :: unit doc_ops option" and wenv = example_env] f(1)
  show ?thesis by (auto simp: list_all2_Cons1)
qed


theorem inline_notification_posted_again_witness:
  "\<exists>db1 i ok db2 net2. insert_outbox (example_sub ''RISKY'') ''e1'' text_body (subs_db [example_sub ''RISKY'']) = (i, db1) \<and>
    deliver_with_retry \<lparr>dv_event_id = ''ev'', dv_endpoint_id = ''e1'', dv_consumer_id = ''billing'',
       dv_target_url = ''http://billing/hook'', dv_active = True, dv_payload = text_body, dv_persist_dlq = True,
       dv_now = ''now''\<rparr> 1 (db1, flaky []) = (ok, db2, net2) \<and>
    length (nw_sent (snd (snd (poll_once example_env 50 (db2, net2))))) = 2"
proof -
  let ?db = "subs_db [example_sub ''RISKY'']" and ?sub = "example_sub ''RISKY''"
  let ?d = "\<lparr>dv_event_id = se_event_id (service_example None), dv_endpoint_id = ''e1'', dv_consumer_id = sub_consumer_id ?sub,
           dv_target_url = sub_target_url ?sub, dv_active = sub_active ?sub, dv_payload = text_body,
           dv_persist_dlq = True, dv_now = se_now (service_example None)\<rparr>"
  obtain i db1 where ins: "insert_outbox ?sub ''e1'' text_body ?db = (i, db1)" by (metis prod.collapse)
  obtain ok db2 net2 where d: "deliver_with_retry ?d 1 (db1, flaky []) = (ok, db2, net2)" by (metis prod.collapse)
  have db: "outbox_ids ?db" "filter is_pending (db_outbox ?db) = []" "is_obj (db_jsonb ?db text_body)"
    "distinct (map sub_id (db_subscriptions ?db))" "?sub \<in> set (db_subscriptions ?db)" "sub_active ?sub"
    using inj_show_nat by (simp_all add: subs_db_def empty_db_def outbox_ids_def example_sub_def text_body_def notification_def is_obj_def)
  from inline_notification_posted_again [OF db(1) ins db(6) refl d db(2-5), of example_env]
  have "length (nw_sent (snd (snd (poll_once example_env 50 (db2, net2))))) = 2" by (simp add: flaky_def)
  then show ?thesis using ins d by (simp add: service_example_def example_sub_def)
qed

end
