(* ===== verification/Legacy_Race.thy ===== *)
theory Legacy_Race
  imports Tracker_System
begin

text \<open>
  Concurrent requests on the tables of the older guard. \<open>/track\<close> registers a payload under the
  advisory lock of its route, in a transaction of its own, and only then reads the baseline and, if
  there is none, makes the new snapshot the baseline. Any number of requests on one endpoint
  interleave at these commits. The lemmas show that the tables stay consistent in every
  interleaving and that a request alone does what \<open>legacy_track\<close> does; the last property, that two
  first requests can each take its own payload for the baseline.
\<close>

section \<open>Steps\<close>

datatype guard_phase =
    Arrived
  | Registered uuid bool                           \<comment> \<open>the endpoint, and whether the snapshot is new\<close>
  | Looked uuid bool "(string \<times> json) option"      \<comment> \<open>the baseline it has read\<close>
  | Comparing uuid "(string \<times> json) option"        \<comment> \<open>the baseline it compares with\<close>
  | Answered nat                                   \<comment> \<open>the number of differences it reports\<close>

record guard_request =
  gr_fp :: string
  gr_schema :: json
  gr_phase :: guard_phase

record guard_world =
  gw_db :: database
  gw_requests :: "guard_request list"

definition set_guard :: "nat \<Rightarrow> guard_phase \<Rightarrow> guard_world \<Rightarrow> guard_world" where
  "set_guard i ph w = w\<lparr>gw_requests := (gw_requests w)[i := (gw_requests w ! i)\<lparr>gr_phase := ph\<rparr>]\<rparr>"

text \<open>The end of a request: nothing to compare, the same contract, or graded differences.\<close>

definition guard_diffs :: "(string \<times> json) option \<Rightarrow> guard_request \<Rightarrow> drift_item list" where
  "guard_diffs baseline q =
     (case baseline of
        None \<Rightarrow> []
      | Some (fp, schema) \<Rightarrow>
          if fp = gr_fp q then [] else classify_contract_drift (structural_diff schema (gr_schema q)))"

lemma guard_diffs_phase [simp]: "guard_diffs b (q\<lparr>gr_phase := ph\<rparr>) = guard_diffs b q"
  by (simp add: guard_diffs_def split: option.split)

text \<open>One endpoint: its service, method and route.\<close>

inductive guard_step :: "string \<times> string \<times> string \<Rightarrow> guard_world \<Rightarrow> guard_world \<Rightarrow> bool" for k where
  registers: "i < length (gw_requests w) \<Longrightarrow> q = gw_requests w ! i \<Longrightarrow> gr_phase q = Arrived \<Longrightarrow>
     register_payload_snapshot (fst k) (fst (snd k)) (snd (snd k)) (gr_fp q) (gr_schema q) (gw_db w) = ((e, inserted), db') \<Longrightarrow>
     guard_step k w (set_guard i (Registered e inserted) (w\<lparr>gw_db := db'\<rparr>))"
| looks: "i < length (gw_requests w) \<Longrightarrow> q = gw_requests w ! i \<Longrightarrow> gr_phase q = Registered e inserted \<Longrightarrow>
     guard_step k w (set_guard i (Looked e inserted (get_active_baseline_snapshot (gw_db w) e)) w)"
| activates: "i < length (gw_requests w) \<Longrightarrow> q = gw_requests w ! i \<Longrightarrow> gr_phase q = Looked e True None \<Longrightarrow>
     guard_step k w (set_guard i (Comparing e (Some (gr_fp q, gr_schema q))) (w\<lparr>gw_db := activate_baseline e (gr_fp q) (gw_db w)\<rparr>))"
| keeps: "i < length (gw_requests w) \<Longrightarrow> q = gw_requests w ! i \<Longrightarrow> gr_phase q = Looked e inserted row \<Longrightarrow>
     \<not> (row = None \<and> inserted) \<Longrightarrow> guard_step k w (set_guard i (Comparing e row) w)"
| compares: "i < length (gw_requests w) \<Longrightarrow> q = gw_requests w ! i \<Longrightarrow> gr_phase q = Comparing e baseline \<Longrightarrow>
     ds = guard_diffs baseline q \<Longrightarrow>
     guard_step k w (set_guard i (Answered (length (filter (\<lambda>d. dr_severity d \<noteq> None) ds)))
       (w\<lparr>gw_db := log_drift_violations e (gr_fp q) ds (gw_db w)\<rparr>))"

inductive guard_reachable :: "string \<times> string \<times> string \<Rightarrow> guard_world \<Rightarrow> guard_world \<Rightarrow> bool" for k w0 where
  init: "guard_reachable k w0 w0"
| more: "guard_reachable k w0 w \<Longrightarrow> guard_step k w w' \<Longrightarrow> guard_reachable k w0 w'"

interpretation guarding: transitions "guard_step k" "guard_reachable k" for k
  by unfold_locales (auto intro: guard_reachable.intros elim: guard_reachable.induct)

definition arriving :: "guard_world \<Rightarrow> bool" where
  "arriving w \<longleftrightarrow> list_all (\<lambda>q. gr_phase q = Arrived) (gw_requests w)"

section \<open>Every interleaving keeps the tables\<close>

fun endpoint_of :: "guard_phase \<Rightarrow> uuid option" where
  "endpoint_of (Registered e _) = Some e"
| "endpoint_of (Looked e _ _) = Some e"
| "endpoint_of (Comparing e _) = Some e"
| "endpoint_of _ = None"

text \<open>The tables are consistent, and every request holds an endpoint that is there.\<close>

definition guard_ok :: "guard_world \<Rightarrow> bool" where
  "guard_ok w \<longleftrightarrow> tracker_ok (gw_db w) \<and>
     (\<forall>q \<in> set (gw_requests w). \<forall>e. endpoint_of (gr_phase q) = Some e \<longrightarrow> e \<in> ae_id ` set (db_api_endpoints (gw_db w)))"

lemma set_guard_simps [simp]:
  "gw_db (set_guard i ph w) = gw_db w"
  "gw_requests (set_guard i ph w) = (gw_requests w)[i := (gw_requests w ! i)\<lparr>gr_phase := ph\<rparr>]"
  by (simp_all add: set_guard_def)

lemma guard_ok_set:
  assumes "guard_ok w" "tracker_ok db'" "ae_id ` set (db_api_endpoints (gw_db w)) \<subseteq> ae_id ` set (db_api_endpoints db')"
    and "\<And>e. endpoint_of ph = Some e \<Longrightarrow> e \<in> ae_id ` set (db_api_endpoints db')"
  shows "guard_ok (set_guard i ph (w\<lparr>gw_db := db'\<rparr>))"
proof -
  have "e \<in> ae_id ` set (db_api_endpoints db')"
    if "q \<in> set ((gw_requests w)[i := (gw_requests w ! i)\<lparr>gr_phase := ph\<rparr>])" "endpoint_of (gr_phase q) = Some e" for q e
  proof -
    from that(1) set_update_subset_insert [of "gw_requests w" i] consider
      "q = (gw_requests w ! i)\<lparr>gr_phase := ph\<rparr>" | "q \<in> set (gw_requests w)" by blast
    then show ?thesis
    proof cases
      case 1
      with that(2) assms(4) show ?thesis by simp
    next
      case 2
      with that(2) assms(1) have "e \<in> ae_id ` set (db_api_endpoints (gw_db w))" by (auto simp: guard_ok_def)
      with assms(3) show ?thesis by (rule subsetD)
    qed
  qed
  with assms(2) show ?thesis by (auto simp: guard_ok_def)
qed

lemma guard_ok_endpoint:
  "guard_ok w \<Longrightarrow> i < length (gw_requests w) \<Longrightarrow> endpoint_of (gr_phase (gw_requests w ! i)) = Some e \<Longrightarrow>
     e \<in> ae_id ` set (db_api_endpoints (gw_db w))"
  by (auto simp: guard_ok_def)

lemma log_drift_endpoints: "db_api_endpoints (log_drift_violations e fp ds db) = db_api_endpoints db"
  by simp

lemma guard_step_ok: "guard_step k w w' \<Longrightarrow> guard_ok w \<Longrightarrow> guard_ok w'"
proof (induction rule: guard_step.induct)
  case (registers i w q e inserted db')
  have t: "tracker_ok (gw_db w)" using registers.prems by (simp add: guard_ok_def)
  note reg = register_good [OF t registers.hyps(4)]
  have "ae_id ` set (db_api_endpoints (gw_db w)) \<subseteq> ae_id ` set (db_api_endpoints db')"
    by (rule image_mono, rule register_endpoints [OF registers.hyps(4)])
  with reg show ?case by (intro guard_ok_set [OF registers.prems]) (auto simp: good_step_def)
next
  case (looks i w q e inserted)
  have "guard_ok (set_guard i (Looked e inserted (get_active_baseline_snapshot (gw_db w) e)) (w\<lparr>gw_db := gw_db w\<rparr>))"
    using looks.prems guard_ok_endpoint [OF looks.prems looks.hyps(1), of e] looks.hyps(2,3)
    by (intro guard_ok_set) (auto simp: guard_ok_def)
  then show ?case by simp
next
  case (activates i w q e)
  have "tracker_ok (activate_baseline e (gr_fp q) (gw_db w))"
    by (rule activate_tables) (use activates.prems in \<open>simp add: guard_ok_def\<close>)
  then show ?case
    using guard_ok_endpoint [OF activates.prems activates.hyps(1), of e] activates.hyps(2,3)
    by (intro guard_ok_set [OF activates.prems]) (auto simp: activate_baseline_def)
next
  case (keeps i w q e inserted row)
  have "guard_ok (set_guard i (Comparing e row) (w\<lparr>gw_db := gw_db w\<rparr>))"
    using keeps.prems guard_ok_endpoint [OF keeps.prems keeps.hyps(1), of e] keeps.hyps(2,3)
    by (intro guard_ok_set) (auto simp: guard_ok_def)
  then show ?case by simp
next
  case (compares i w q e baseline ds)
  have t: "tracker_ok (gw_db w)" using compares.prems by (simp add: guard_ok_def)
  have "e \<in> ae_id ` set (db_api_endpoints (gw_db w))"
    using guard_ok_endpoint [OF compares.prems compares.hyps(1), of e] compares.hyps(2,3) by simp
  from log_drift_good [OF t this, of "gr_fp q" ds] show ?case
    by (intro guard_ok_set [OF compares.prems]) (auto simp: good_step_def)
qed

section \<open>A request alone\<close>

text \<open>A request that is not interrupted leaves what \<open>legacy_track\<close> leaves, and reports as much.\<close>

lemma uninterrupted_request:
  assumes "i < length (gw_requests w)" "gw_requests w ! i = q" "gr_phase q = Arrived"
    and "legacy_track sha s m p payload (gw_db w) = Inr (r, db')" "fingerprint_schema sha payload = Inr (gr_fp q)"
    and "gr_schema q = normalize_types payload"
  shows "guard_reachable (s, m, p) w (set_guard i (Answered (lr_diff_count r)) (w\<lparr>gw_db := db'\<rparr>))"
proof -
  note set = set_guard_def
  obtain e inserted db1 where reg: "register_payload_snapshot s m p (gr_fp q) (gr_schema q) (gw_db w) = ((e, inserted), db1)"
    by (metis prod.collapse)
  let ?w = "\<lambda>ph db. set_guard i ph (w\<lparr>gw_db := db\<rparr>)"
  let ?row = "get_active_baseline_snapshot db1 e"
  let ?fresh = "?row = None \<and> inserted"
  let ?db2 = "if ?fresh then activate_baseline e (gr_fp q) db1 else db1"
  let ?base = "if ?fresh then Some (gr_fp q, gr_schema q) else ?row"
  let ?ds = "guard_diffs ?base q"
  have 1: "guard_reachable (s, m, p) w (?w (Registered e inserted) db1)"
    by (rule guarding.further_eq [OF guarding.start guard_step.registers [of i]]) (use assms(1-3) reg in simp_all)
  have 2: "guard_reachable (s, m, p) w (?w (Looked e inserted ?row) db1)"
    by (rule guarding.further_eq [OF 1 guard_step.looks [of i _ "q\<lparr>gr_phase := Registered e inserted\<rparr>"]])
       (use assms(1,2) in \<open>simp_all add: set\<close>)
  have 3: "guard_reachable (s, m, p) w (?w (Comparing e ?base) ?db2)"
  proof (cases ?fresh)
    case True
    then show ?thesis
      by (intro guarding.further_eq [OF 2 guard_step.activates [of i _ "q\<lparr>gr_phase := Looked e True None\<rparr>"]]) (use assms(1,2) in \<open>simp_all add: set\<close>)
  next
    case False
    have eqs: "?base = ?row" "?db2 = db1" by (simp_all only: False if_False)
    show ?thesis
      unfolding eqs
      by (rule guarding.further_eq [OF 2 guard_step.keeps [of i _ "q\<lparr>gr_phase := Looked e inserted ?row\<rparr>"]])
         (use assms(1,2) False in \<open>simp_all add: set\<close>)
  qed
  have 4: "guard_reachable (s, m, p) w (?w (Answered (length (filter (\<lambda>d. dr_severity d \<noteq> None) ?ds)))
      (log_drift_violations e (gr_fp q) ?ds ?db2))"
    by (rule guarding.further_eq [OF 3 guard_step.compares [of i _ "q\<lparr>gr_phase := Comparing e ?base\<rparr>"]]) (use assms(1,2) in \<open>simp_all add: set\<close>)
  have "db' = log_drift_violations e (gr_fp q) ?ds ?db2 \<and> lr_diff_count r = length (filter (\<lambda>d. dr_severity d \<noteq> None) ?ds)"
    using assms(4-6) reg
    by (auto simp: legacy_track_def guard_diffs_def Let_def split: sum.splits option.splits if_splits)
  with 4 show ?thesis by simp
qed

section \<open>Two first requests\<close>

lemma fresh_endpoint:
  assumes "tracker_ok db" "find_api_endpoint db k = None"
  shows "\<forall>r \<in> set (db_snapshots db). sn_endpoint_id r \<noteq> new_uuid db"
proof -
  have "inj (db_uuid db)" using assms(1) by (simp add: tracker_ok_def server_ok_def)
  then have "new_uuid db \<notin> ae_id ` set (db_api_endpoints db)"
    using assms(1) new_uuid_fresh [of db] by (auto simp: tracker_ok_def snapshot_tables_ok_def list_all_iff)
  moreover have "\<forall>r \<in> set (db_snapshots db). sn_endpoint_id r \<in> ae_id ` set (db_api_endpoints db)"
    using assms(1) by (simp add: tracker_ok_def snapshot_tables_ok_def list_all_iff)
  ultimately show ?thesis by metis
qed

text \<open>Registering a payload whose fingerprint the endpoint has not shown.\<close>

lemma register_new:
  assumes "tracker_ok db" "legacy_ensure_endpoint (s, m, r) db = (e, db0)"
    and "\<forall>q \<in> set (db_snapshots db). sn_endpoint_id q = e \<longrightarrow> sn_fingerprint q \<noteq> fp"
  shows "\<exists>db'. register_payload_snapshot s m r fp schema db = ((e, True), db') \<and> find_api_endpoint db' (s, m, r) = Some e \<and>
    db_snapshots db' = db_snapshots db @ [\<lparr>sn_id = db_uuid db (db_next db' - 1), sn_endpoint_id = e, sn_fingerprint = fp,
      sn_schema = db_jsonb db schema, sn_active = False, sn_created_at = db_now db\<rparr>] \<and>
    db_violations db' = db_violations db \<and> db_jsonb db' = db_jsonb db"
proof -
  have same: "db_snapshots db0 = db_snapshots db" "db_violations db0 = db_violations db" "db_jsonb db0 = db_jsonb db"
    using assms(2) by (auto split: option.splits)
  have "find_snapshot db0 (e, fp) = None"
    using assms(3) by (auto simp: find_snapshot_def first_row_filter_None snapshot_key_def same)
  then obtain db' where reg: "register_snapshot e fp schema db0 = (True, db')" and
    keep: "db_api_endpoints db' = db_api_endpoints db0" "db_violations db' = db_violations db0" "db_jsonb db' = db_jsonb db0"
    by (auto simp: register_snapshot_def)
  then have all: "register_payload_snapshot s m r fp schema db = ((e, True), db')"
    using assms(2) by (simp add: register_payload_snapshot_def)
  have "find_api_endpoint db' (s, m, r) = Some e"
    using legacy_endpoints.found [OF assms(2)] by (simp add: find_api_endpoint_def keep(1))
  with register_snapshots [OF all] all keep same show ?thesis by auto
qed

lemma in_update_rows_other: "r \<in> set rows \<Longrightarrow> \<not> P r \<Longrightarrow> r \<in> set (update_rows P f rows)"
  by (auto simp: update_rows_def intro: rev_image_eqI)

lemma no_baseline: "\<forall>q \<in> set (db_snapshots db). sn_endpoint_id q = e \<longrightarrow> \<not> sn_active q \<Longrightarrow> get_active_baseline_snapshot db e = None"
  by (simp add: get_active_baseline_snapshot_def first_order_None filter_empty_conv)

text \<open>What the second registration leaves, and what activating both snapshots makes of it.\<close>

lemma two_registered:
  assumes "tracker_ok db" "find_api_endpoint db k = None" "fp1 \<noteq> fp2"
  shows "\<exists>db1 db2. register_payload_snapshot (fst k) (fst (snd k)) (snd (snd k)) fp1 schema1 db = ((new_uuid db, True), db1) \<and>
    register_payload_snapshot (fst k) (fst (snd k)) (snd (snd k)) fp2 schema2 db1 = ((new_uuid db, True), db2) \<and>
    get_active_baseline_snapshot db2 (new_uuid db) = None \<and>
    get_active_baseline_snapshot (activate_baseline (new_uuid db) fp1 db2) (new_uuid db) = Some (fp1, db_jsonb db schema1) \<and>
    get_active_baseline_snapshot (activate_baseline (new_uuid db) fp2 (activate_baseline (new_uuid db) fp1 db2)) (new_uuid db) =
      Some (fp2, db_jsonb db schema2) \<and> db_violations db2 = db_violations db"
proof -
  obtain s m r where k: "k = (s, m, r)" by (cases k)
  let ?e = "new_uuid db"
  note fresh = fresh_endpoint [OF assms(1,2)]
  obtain db0 where en: "legacy_ensure_endpoint (s, m, r) db = (?e, db0)" using assms(2) by (simp add: k)
  from register_new [OF assms(1) en, of fp1 schema1] fresh obtain db1 q1 where
    1: "register_payload_snapshot s m r fp1 schema1 db = ((?e, True), db1)" "find_api_endpoint db1 (s, m, r) = Some ?e"
      "db_snapshots db1 = db_snapshots db @ [q1]" "db_violations db1 = db_violations db" "db_jsonb db1 = db_jsonb db"
    and q1: "sn_endpoint_id q1 = ?e" "sn_fingerprint q1 = fp1" "sn_schema q1 = db_jsonb db schema1" "\<not> sn_active q1" by auto
  have ok1: "tracker_ok db1" using register_good(1) [OF assms(1) 1(1)] by (simp add: good_step_def)
  have en1: "legacy_ensure_endpoint (s, m, r) db1 = (?e, db1)" using 1(2) by (rule legacy_endpoints.hit)
  from register_new [OF ok1 en1, of fp2 schema2] fresh assms(3) obtain db2 q2 where
    2: "register_payload_snapshot s m r fp2 schema2 db1 = ((?e, True), db2)"
      "db_snapshots db2 = db_snapshots db1 @ [q2]" "db_violations db2 = db_violations db1"
    and q2: "sn_endpoint_id q2 = ?e" "sn_fingerprint q2 = fp2" "sn_schema q2 = db_jsonb db schema2" "\<not> sn_active q2"
    by (auto simp: 1(3,5) q1)
  have ok2: "tracker_ok db2" using register_good(1) [OF ok1 2(1)] by (simp add: good_step_def)
  have none: "get_active_baseline_snapshot db2 ?e = None"
    by (rule no_baseline) (use fresh q1(4) q2(4) in \<open>auto simp: 1(3) 2(2)\<close>)
  let ?db3 = "activate_baseline ?e fp1 db2"
  let ?db4 = "activate_baseline ?e fp2 ?db3"
  have keys: "tracker_ok d \<Longrightarrow> distinct (map (\<lambda>r. (sn_endpoint_id r, sn_fingerprint r)) (db_snapshots d))" for d
    by (simp add: tracker_ok_def snapshot_tables_ok_def)
  have b3: "get_active_baseline_snapshot ?db3 ?e = Some (fp1, db_jsonb db schema1)"
    using activate_baseline_result [OF keys [OF ok2], of q1 ?e fp1] q1 by (simp add: 1(3) 2(2))
  let ?q2 = "q2\<lparr>sn_active := False\<rparr>"
  have "?q2 \<in> set (update_rows (\<lambda>r. sn_endpoint_id r = ?e) (\<lambda>r. r\<lparr>sn_active := False\<rparr>) (db_snapshots db2))"
    by (rule in_update_rows) (simp_all add: 2(2) q2)
  then have "?q2 \<in> set (db_snapshots ?db3)"
    using assms(3) by (simp add: activate_baseline_def) (rule in_update_rows_other, simp_all add: q2)
  from activate_baseline_result [OF keys [OF activate_tables(1) [OF ok2]] this, of ?e fp2]
  have b4: "get_active_baseline_snapshot ?db4 ?e = Some (fp2, db_jsonb db schema2)" by (simp add: q2)
  show ?thesis by (intro exI [of _ db1] exI [of _ db2]) (simp add: k 1(1,4) 2(1,3) none b3 b4)
qed

section \<open>Properties\<close>

text \<open>
  However the requests on an endpoint interleave, the tables stay consistent: keys and references
  hold, and there is at most one baseline.
\<close>

theorem interleaved_requests_keep_tables:
  assumes "tracker_ok (gw_db w0)" "arriving w0" "guard_reachable k w0 w"
  shows "tracker_ok (gw_db w)"
proof -
  have "guard_ok w0" using assms(1,2) by (auto simp: guard_ok_def arriving_def list_all_iff)
  from guarding.invariant [where ok = guard_ok, OF guard_step_ok assms(3) this] show ?thesis by (simp add: guard_ok_def)
qed

text \<open>
  C32. The baseline is decided outside the lock: two payloads with different contracts that reach a
  new endpoint together can each be taken for its first. Both requests report no differences and
  none is logged, the baseline the first one had set is replaced by the second, and from then on the
  contract of the first counts as drift. One after the other, the first would have stayed.
\<close>

theorem two_first_payloads:
  assumes "tracker_ok db" "find_api_endpoint db k = None" "fp1 \<noteq> fp2"
  defines "arrive fp schema \<equiv> \<lparr>gr_fp = fp, gr_schema = schema, gr_phase = Arrived\<rparr>"
  shows "\<exists>e w1 w2. guard_reachable k \<lparr>gw_db = db, gw_requests = [arrive fp1 schema1, arrive fp2 schema2]\<rparr> w1 \<and>
    get_active_baseline_snapshot (gw_db w1) e = Some (fp1, db_jsonb db schema1) \<and>
    guard_reachable k w1 w2 \<and> map gr_phase (gw_requests w2) = [Answered 0, Answered 0] \<and>
    get_active_baseline_snapshot (gw_db w2) e = Some (fp2, db_jsonb db schema2) \<and>
    db_violations (gw_db w2) = db_violations db"
proof -
  obtain s m r where k: "k = (s, m, r)" by (cases k)
  let ?e = "new_uuid db"
  let ?at = "\<lambda>ph1 ph2 db. \<lparr>gw_db = db, gw_requests = [(arrive fp1 schema1)\<lparr>gr_phase := ph1\<rparr>, (arrive fp2 schema2)\<lparr>gr_phase := ph2\<rparr>]\<rparr>"
  let ?start = "?at Arrived Arrived db"
  have start: "?start = \<lparr>gw_db = db, gw_requests = [arrive fp1 schema1, arrive fp2 schema2]\<rparr>" by (simp add: arrive_def)
  from two_registered [OF assms(1-3), of schema1 schema2] obtain db1 db2 where
    1: "register_payload_snapshot s m r fp1 schema1 db = ((?e, True), db1)"
    and 2: "register_payload_snapshot s m r fp2 schema2 db1 = ((?e, True), db2)"
    and none: "get_active_baseline_snapshot db2 ?e = None"
    and b3: "get_active_baseline_snapshot (activate_baseline ?e fp1 db2) ?e = Some (fp1, db_jsonb db schema1)"
    and b4: "get_active_baseline_snapshot (activate_baseline ?e fp2 (activate_baseline ?e fp1 db2)) ?e = Some (fp2, db_jsonb db schema2)"
    and v: "db_violations db2 = db_violations db"
    by (auto simp: k)
  let ?db3 = "activate_baseline ?e fp1 db2"
  let ?db4 = "activate_baseline ?e fp2 ?db3"
  let ?c1 = "Comparing ?e (Some (fp1, schema1))"
  let ?c2 = "Comparing ?e (Some (fp2, schema2))"
  let ?reach = "guard_reachable k ?start"
  note set = set_guard_def arrive_def
  have "?reach (?at (Registered ?e True) Arrived db1)"
    by (rule guarding.further_eq [OF guarding.start guard_step.registers [of 0]]) (simp_all add: set k 1)+
  then have "?reach (?at (Registered ?e True) (Registered ?e True) db2)"
    by (rule guarding.further_eq [OF _ guard_step.registers [of 1]]) (simp_all add: set k 2)+
  then have "?reach (?at (Looked ?e True None) (Registered ?e True) db2)"
    by (rule guarding.further_eq [OF _ guard_step.looks [of 0]]) (simp_all add: set none)+
  then have "?reach (?at (Looked ?e True None) (Looked ?e True None) db2)"
    by (rule guarding.further_eq [OF _ guard_step.looks [of 1]]) (simp_all add: set none)+
  then have w1: "?reach (?at ?c1 (Looked ?e True None) ?db3)"
    by (rule guarding.further_eq [OF _ guard_step.activates [of 0]]) (simp_all add: set)+
  let ?reach1 = "guard_reachable k (?at ?c1 (Looked ?e True None) ?db3)"
  have "?reach1 (?at ?c1 ?c2 ?db4)"
    by (rule guarding.further_eq [OF guarding.start guard_step.activates [of 1]]) (simp_all add: set)+
  then have "?reach1 (?at (Answered 0) ?c2 ?db4)"
    by (rule guarding.further_eq [OF _ guard_step.compares [of 0]]) (simp_all add: set guard_diffs_def)+
  then have w2: "?reach1 (?at (Answered 0) (Answered 0) ?db4)"
    by (rule guarding.further_eq [OF _ guard_step.compares [of 1]]) (simp_all add: set guard_diffs_def)+
  show ?thesis
    unfolding start [symmetric]
    by (intro exI [of _ ?e] exI conjI, rule w1, simp add: b3, rule w2) (simp_all add: b4, simp add: activate_baseline_def v)
qed

definition two_arrivals :: guard_world where
  "two_arrivals = \<lparr>gw_db = empty_db show_nat 0 id,
     gw_requests = [\<lparr>gr_fp = ''a'', gr_schema = JObj [], gr_phase = Arrived\<rparr>,
       \<lparr>gr_fp = ''b'', gr_schema = JObj [(''id'', JStr ''string'')], gr_phase = Arrived\<rparr>]\<rparr>"

lemma two_arrivals_ok: "tracker_ok (empty_db show_nat 0 id)"
  by (rule tracker_ok_empty [OF inj_show_nat]) (simp add: is_obj_def)

theorem interleaved_requests_keep_tables_witness:
  "tracker_ok (snd (register_payload_snapshot ''users'' ''GET'' ''/v1/users'' ''a'' (JObj []) (empty_db show_nat 0 id)))"
proof -
  let ?k = "(''users'', ''GET'', ''/v1/users'')"
  obtain e inserted db' where r: "register_payload_snapshot ''users'' ''GET'' ''/v1/users'' ''a'' (JObj []) (empty_db show_nat 0 id) =
      ((e, inserted), db')" by (metis prod.collapse)
  have "guard_step ?k two_arrivals (set_guard 0 (Registered e inserted) (two_arrivals\<lparr>gw_db := db'\<rparr>))"
    by (rule guard_step.registers) (simp_all add: two_arrivals_def r)+
  then have "guard_reachable ?k two_arrivals (set_guard 0 (Registered e inserted) (two_arrivals\<lparr>gw_db := db'\<rparr>))"
    by (rule guarding.single)
  from interleaved_requests_keep_tables [OF _ _ this] two_arrivals_ok show ?thesis
    by (simp add: two_arrivals_def arriving_def r)
qed

theorem two_first_payloads_witness:
  "\<exists>e w1 w2. guard_reachable (''users'', ''GET'', ''/v1/users'') two_arrivals w1 \<and>
    get_active_baseline_snapshot (gw_db w1) e = Some (''a'', JObj []) \<and>
    guard_reachable (''users'', ''GET'', ''/v1/users'') w1 w2 \<and>
    get_active_baseline_snapshot (gw_db w2) e = Some (''b'', JObj [(''id'', JStr ''string'')])"
proof -
  have "find_api_endpoint (empty_db show_nat 0 id) (''users'', ''GET'', ''/v1/users'') = None"
    by (simp add: find_api_endpoint_def) (simp add: empty_db_def)
  moreover have "''a'' \<noteq> ''b''" by simp
  ultimately show ?thesis
    using two_first_payloads [OF two_arrivals_ok, of "(''users'', ''GET'', ''/v1/users'')" "''a''" "''b''" "JObj []"
        "JObj [(''id'', JStr ''string'')]"]
    by (simp add: two_arrivals_def) (metis empty_db_def database.select_convs(13) id_apply)
qed

end
