(* ===== verification/Store_Protocol.thy ===== *)
theory Store_Protocol
  imports Document_Store "HOL-Library.Multiset"
begin

text \<open>
  The protocol \<open>DocumentStore\<close> of \<open>app/runtime/document_store.py\<close> as a record of operations, the two
  stores that implement it, and calls made through it. The id and the time of a stored document,
  which the store draws itself, are arguments. The client of the Mongo store is related to what its
  documentation promises of multisets of documents, and the lemmas show that the stores answer alike,
  call after call.
\<close>

section \<open>The protocol\<close>

record 's DocumentStore =
  store_payload_snapshot :: "string \<Rightarrow> string \<Rightarrow> payload_snapshot_args \<Rightarrow> 's \<Rightarrow> (py_exc + json dict) \<times> 's"
  store_schema_diff :: "string \<Rightarrow> string \<Rightarrow> schema_diff_args \<Rightarrow> 's \<Rightarrow> (py_exc + json dict) \<times> 's"
  store_validation_error :: "string \<Rightarrow> string \<Rightarrow> validation_error_args \<Rightarrow> 's \<Rightarrow> (py_exc + json dict) \<times> 's"
  store_replay_artifact :: "string \<Rightarrow> string \<Rightarrow> replay_artifact_args \<Rightarrow> 's \<Rightarrow> (py_exc + json dict) \<times> 's"
  get_payload_snapshot :: "string \<Rightarrow> 's \<Rightarrow> json dict option"
  list_payload_snapshots :: "int \<Rightarrow> 's \<Rightarrow> json dict list"
  list_schema_diffs :: "int \<Rightarrow> 's \<Rightarrow> json dict list"
  list_validation_errors :: "int \<Rightarrow> 's \<Rightarrow> json dict list"
  list_replay_artifacts :: "int \<Rightarrow> 's \<Rightarrow> json dict list"

text \<open>A store that cannot fail, and one whose failed insertion leaves the collections alone.\<close>

definition answered :: "'d \<times> 's \<Rightarrow> ('e + 'd) \<times> 's" where
  "answered r = (Inr (fst r), snd r)"

definition attempted :: "'s \<Rightarrow> 'e + 'd \<times> 's \<Rightarrow> ('e + 'd) \<times> 's" where
  "attempted s r = (case r of Inl e \<Rightarrow> (Inl e, s) | Inr (d, s') \<Rightarrow> (Inr d, s'))"

definition InMemoryDocumentStore :: "doc_store DocumentStore" where
  "InMemoryDocumentStore =
     \<lparr>store_payload_snapshot = (\<lambda>i now a st. answered (mem_store_payload_snapshot i now a st)),
      store_schema_diff = (\<lambda>i now a st. answered (mem_store_schema_diff i now a st)),
      store_validation_error = (\<lambda>i now a st. answered (mem_store_validation_error i now a st)),
      store_replay_artifact = (\<lambda>i now a st. answered (mem_store_replay_artifact i now a st)),
      get_payload_snapshot = mem_get_payload_snapshot,
      list_payload_snapshots = mem_list ''payload_snapshots'',
      list_schema_diffs = mem_list ''schema_diffs'',
      list_validation_errors = mem_list ''validation_errors'',
      list_replay_artifacts = mem_list ''replay_artifacts''\<rparr>"

definition MongoDocumentStore :: "'s mongo_client \<Rightarrow> 's DocumentStore" where
  "MongoDocumentStore cl =
     \<lparr>store_payload_snapshot = (\<lambda>i now a s. attempted s (mongo_store_payload_snapshot cl i now a s)),
      store_schema_diff = (\<lambda>i now a s. attempted s (mongo_store_schema_diff cl i now a s)),
      store_validation_error = (\<lambda>i now a s. attempted s (mongo_store_validation_error cl i now a s)),
      store_replay_artifact = (\<lambda>i now a s. attempted s (mongo_store_replay_artifact cl i now a s)),
      get_payload_snapshot = mongo_find cl ''payload_snapshots'',
      list_payload_snapshots = mongo_list cl ''payload_snapshots'',
      list_schema_diffs = mongo_list cl ''schema_diffs'',
      list_validation_errors = mongo_list cl ''validation_errors'',
      list_replay_artifacts = mongo_list cl ''replay_artifacts''\<rparr>"

section \<open>Calls\<close>

datatype store_call =
    Store_payload_snapshot payload_snapshot_args
  | Store_schema_diff schema_diff_args
  | Store_validation_error validation_error_args
  | Store_replay_artifact replay_artifact_args
  | Get_payload_snapshot string
  | List_payload_snapshots int
  | List_schema_diffs int
  | List_validation_errors int
  | List_replay_artifacts int

datatype store_answer = Stored "py_exc + json dict" | Found "json dict option" | Listed "json dict list"

definition stored :: "(py_exc + json dict) \<times> 's \<Rightarrow> store_answer \<times> 's" where
  "stored r = (Stored (fst r), snd r)"

text \<open>One call, with the id and the time it draws.\<close>

fun run_call :: "'s DocumentStore \<Rightarrow> string \<times> string \<Rightarrow> store_call \<Rightarrow> 's \<Rightarrow> store_answer \<times> 's" where
  "run_call ds (i, now) (Store_payload_snapshot a) s = stored (store_payload_snapshot ds i now a s)"
| "run_call ds (i, now) (Store_schema_diff a) s = stored (store_schema_diff ds i now a s)"
| "run_call ds (i, now) (Store_validation_error a) s = stored (store_validation_error ds i now a s)"
| "run_call ds (i, now) (Store_replay_artifact a) s = stored (store_replay_artifact ds i now a s)"
| "run_call ds _ (Get_payload_snapshot i) s = (Found (get_payload_snapshot ds i s), s)"
| "run_call ds _ (List_payload_snapshots n) s = (Listed (list_payload_snapshots ds n s), s)"
| "run_call ds _ (List_schema_diffs n) s = (Listed (list_schema_diffs ds n s), s)"
| "run_call ds _ (List_validation_errors n) s = (Listed (list_validation_errors ds n s), s)"
| "run_call ds _ (List_replay_artifacts n) s = (Listed (list_replay_artifacts ds n s), s)"

fun run_calls :: "'s DocumentStore \<Rightarrow> ((string \<times> string) \<times> store_call) list \<Rightarrow> 's \<Rightarrow> store_answer list \<times> 's" where
  "run_calls ds [] s = ([], s)"
| "run_calls ds ((draw, c) # cs) s =
     (let (a, s1) = run_call ds draw c s; (as, s2) = run_calls ds cs s1 in (a # as, s2))"

text \<open>The handlers pass limits of one or more.\<close>

fun call_ok :: "store_call \<Rightarrow> bool" where
  "call_ok (List_payload_snapshots n) = (1 \<le> n)"
| "call_ok (List_schema_diffs n) = (1 \<le> n)"
| "call_ok (List_validation_errors n) = (1 \<le> n)"
| "call_ok (List_replay_artifacts n) = (1 \<le> n)"
| "call_ok _ = True"

section \<open>The documented client\<close>

text \<open>
  What the documentation of the client promises, for a reachable server whose collections hold the
  multisets \<open>view s\<close>: an insertion under an \<open>_id\<close> that the collection has raises
  \<open>DuplicateKeyError\<close>, and any other one of a document the wire format can hold (\<open>storable\<close>) adds it;
  a lookup by \<open>_id\<close> returns a document that has it, or \<open>None\<close> when there is none; a query returns the
  first documents of the collection in an order that the sort allows, where documents with the same
  text in the field come in any order, and so does everything when nothing is sorted.
\<close>

definition has_text :: "string \<Rightarrow> string \<Rightarrow> json dict \<Rightarrow> bool" where
  "has_text k v d = (map_of d k = Some (JStr v))"

definition ordered :: "(string \<times> int) option \<Rightarrow> json dict list \<Rightarrow> bool" where
  "ordered sorting ds = (case sorting of None \<Rightarrow> True | Some (k, direction) \<Rightarrow>
     if direction = 1 then sorted_wrt (\<lambda>x y. str_field k x \<le> str_field k y) ds
     else sorted_wrt (\<lambda>x y. str_field k y \<le> str_field k x) ds)"

definition sortable :: "(string \<times> int) option \<Rightarrow> json dict multiset \<Rightarrow> bool" where
  "sortable sorting ds \<longleftrightarrow> (case sorting of None \<Rightarrow> True
     | Some (k, direction) \<Rightarrow> direction \<in> {1, -1} \<and> (\<forall>d \<in># ds. \<exists>v. has_text k v d))"

definition client_ok ::
  "'s mongo_client \<Rightarrow> (json dict \<Rightarrow> bool) \<Rightarrow> ('s \<Rightarrow> string \<Rightarrow> json dict multiset) \<Rightarrow> bool" where
  "client_ok cl storable view \<longleftrightarrow>
     (\<forall>c d i s. has_text ''_id'' i d \<longrightarrow>
        (if \<exists>e \<in># view s c. has_text ''_id'' i e then \<exists>m. mc_insert_one cl c d s = Inl (OtherError ''DuplicateKeyError'' m)
         else storable d \<longrightarrow> (\<exists>s'. mc_insert_one cl c d s = Inr s' \<and> view s' = (view s)(c := add_mset d (view s c))))) \<and>
     (\<forall>c i s. case mc_find_one cl c [(''_id'', JStr i)] s of
        None \<Rightarrow> \<forall>e \<in># view s c. \<not> has_text ''_id'' i e
      | Some d \<Rightarrow> d \<in># view s c \<and> has_text ''_id'' i d) \<and>
     (\<forall>q n s. 1 \<le> cu_limit q \<and> 1 \<le> n \<and> sortable (cu_sort q) (view s (cu_collection q)) \<longrightarrow>
        (\<exists>ds. mset ds = view s (cu_collection q) \<and> ordered (cu_sort q) ds \<and>
          mc_to_list cl q n s = take (nat (min n (cu_limit q))) ds))"

lemma client_okD:
  assumes "client_ok cl storable view"
  shows "has_text ''_id'' i d \<Longrightarrow> storable d \<Longrightarrow> \<forall>e \<in># view s c. \<not> has_text ''_id'' i e \<Longrightarrow>
      \<exists>s'. mc_insert_one cl c d s = Inr s' \<and> view s' = (view s)(c := add_mset d (view s c))"
    and "case mc_find_one cl c [(''_id'', JStr i)] s of None \<Rightarrow> \<forall>e \<in># view s c. \<not> has_text ''_id'' i e
      | Some d \<Rightarrow> d \<in># view s c \<and> has_text ''_id'' i d"
    and "1 \<le> n \<Longrightarrow> \<forall>d \<in># view s c. \<exists>v. has_text k v d \<Longrightarrow>
      \<exists>ds. mset ds = view s c \<and> sorted_wrt (\<lambda>x y. str_field k y \<le> str_field k x) ds \<and>
        mc_to_list cl (cursor_limit n (cursor_sort k (-1) (cursor_find c))) n s = take (nat n) ds"
proof -
  show "\<exists>s'. mc_insert_one cl c d s = Inr s' \<and> view s' = (view s)(c := add_mset d (view s c))"
    if "has_text ''_id'' i d" "storable d" "\<forall>e \<in># view s c. \<not> has_text ''_id'' i e"
    using conjunct1 [OF assms [unfolded client_ok_def], rule_format, OF that(1), of s c] that(2,3) by (simp split: if_splits)
  show "case mc_find_one cl c [(''_id'', JStr i)] s of None \<Rightarrow> \<forall>e \<in># view s c. \<not> has_text ''_id'' i e
      | Some d \<Rightarrow> d \<in># view s c \<and> has_text ''_id'' i d"
    using assms unfolding client_ok_def by blast
  assume "1 \<le> n" "\<forall>d \<in># view s c. \<exists>v. has_text k v d"
  then show "\<exists>ds. mset ds = view s c \<and> sorted_wrt (\<lambda>x y. str_field k y \<le> str_field k x) ds \<and>
        mc_to_list cl (cursor_limit n (cursor_sort k (-1) (cursor_find c))) n s = take (nat n) ds"
    using conjunct2 [OF conjunct2 [OF assms [unfolded client_ok_def]], rule_format,
        of "cursor_limit n (cursor_sort k (-1) (cursor_find c))" n s]
    by (simp add: cursor_limit_def cursor_sort_def cursor_find_def sortable_def ordered_def)
qed

section \<open>Two stores in step\<close>

text \<open>
  The collections in memory hold the documents of the server, each under its own \<open>_id\<close> and with the
  time of its creation.
\<close>

definition documents_of :: "doc_store \<Rightarrow> string \<Rightarrow> json dict list" where
  "documents_of st c = map snd (collection_of st c)"

definition mirrors :: "(string \<Rightarrow> json dict multiset) \<Rightarrow> doc_store \<Rightarrow> bool" where
  "mirrors M st \<longleftrightarrow> (\<forall>c. M c = mset (documents_of st c) \<and> distinct (keys (collection_of st c)) \<and>
     (\<forall>(i, d) \<in> set (collection_of st c). has_text ''_id'' i d \<and> (\<exists>t. has_text ''created_at'' t d)))"

lemma mirrorsD:
  assumes "mirrors M st"
  shows "M c = mset (documents_of st c)" "distinct (keys (collection_of st c))"
    "(i, d) \<in> set (collection_of st c) \<Longrightarrow> has_text ''_id'' i d"
    "(i, d) \<in> set (collection_of st c) \<Longrightarrow> \<exists>t. has_text ''created_at'' t d"
  using assms by (auto simp: mirrors_def)

lemma has_textD: "has_text k v d \<Longrightarrow> str_field k d = v"
  by (simp add: has_text_def str_field_def)

text \<open>What a call stores, and where.\<close>

fun stored_by :: "string \<times> string \<Rightarrow> store_call \<Rightarrow> (string \<times> json dict) option" where
  "stored_by (i, now) (Store_payload_snapshot a) = Some (''payload_snapshots'', payload_snapshot_document i now a)"
| "stored_by (i, now) (Store_schema_diff a) = Some (''schema_diffs'', schema_diff_document i now a)"
| "stored_by (i, now) (Store_validation_error a) = Some (''validation_errors'', validation_error_document i now a)"
| "stored_by (i, now) (Store_replay_artifact a) = Some (''replay_artifacts'', replay_artifact_document i now a)"
| "stored_by _ _ = None"

lemma document_texts:
  "has_text ''_id'' i (payload_snapshot_document i now a)" "has_text ''created_at'' now (payload_snapshot_document i now a)"
  "has_text ''_id'' i (schema_diff_document i now b)" "has_text ''created_at'' now (schema_diff_document i now b)"
  "has_text ''_id'' i (validation_error_document i now c)" "has_text ''created_at'' now (validation_error_document i now c)"
  "has_text ''_id'' i (replay_artifact_document i now e)" "has_text ''created_at'' now (replay_artifact_document i now e)"
  unfolding has_text_def payload_snapshot_document_def schema_diff_document_def validation_error_document_def
    replay_artifact_document_def
  by (subst document_fields(1); simp add: map_add_def)+

lemma stored_by_texts:
  "stored_by (i, now) c = Some (k, d) \<Longrightarrow> has_text ''_id'' i d \<and> has_text ''created_at'' now d"
  by (cases c) (auto intro: document_texts)

lemma run_call_cases:
  obtains (store) k d where "stored_by draw c = Some (k, d)"
      "\<And>st. run_call InMemoryDocumentStore draw c st = stored (answered (mem_insert k d st))"
      "\<And>(cl :: 's mongo_client) s. run_call (MongoDocumentStore cl) draw c s = stored (attempted s (mongo_insert cl k d s))"
  | (list) k n where "stored_by draw c = None" "call_ok c \<Longrightarrow> 1 \<le> n"
      "\<And>st. run_call InMemoryDocumentStore draw c st = (Listed (mem_list k n st), st)"
      "\<And>(cl :: 's mongo_client) s. run_call (MongoDocumentStore cl) draw c s = (Listed (mongo_list cl k n s), s)"
  | (get) i where "stored_by draw c = None"
      "\<And>st. run_call InMemoryDocumentStore draw c st = (Found (mem_get_payload_snapshot i st), st)"
      "\<And>(cl :: 's mongo_client) s. run_call (MongoDocumentStore cl) draw c s = (Found (mongo_find cl ''payload_snapshots'' i s), s)"
  by (cases c; cases draw)
    (auto simp: MongoDocumentStore_def InMemoryDocumentStore_def mongo_store_payload_snapshot_def mem_store_payload_snapshot_def
      mongo_store_schema_diff_def mem_store_schema_diff_def mongo_store_validation_error_def mem_store_validation_error_def
      mongo_store_replay_artifact_def mem_store_replay_artifact_def)

lemma documents_insert:
  assumes "has_text ''_id'' i d" "i \<notin> set (keys (collection_of st k))"
  shows "collection_of (snd (mem_insert k d st)) c =
    (if c = k then collection_of st k @ [(i, d)] else collection_of st c)"
  using assms by (simp add: collection_insert has_textD update_fresh)

lemma insert_step:
  assumes "client_ok cl storable view" "mirrors (view s) st"
    and "has_text ''_id'' i d" "has_text ''created_at'' now d" "storable d" "i \<notin> set (keys (collection_of st k))"
  shows "\<exists>s'. attempted s (mongo_insert cl k d s) = (Inr d, s') \<and> mirrors (view s') (snd (mem_insert k d st))"
proof -
  note M = mirrorsD [OF assms(2)]
  have "\<not> has_text ''_id'' i e" if "e \<in># view s k" for e
  proof
    assume "has_text ''_id'' i e"
    moreover from that obtain j where "(j, e) \<in> set (collection_of st k)" by (auto simp: M(1) documents_of_def)
    ultimately have "j = i" "(j, e) \<in> set (collection_of st k)" using M(3) by (auto simp: has_text_def)
    with assms(6) show False by force
  qed
  with client_okD(1) [OF assms(1,3,5)] obtain s' where s': "mc_insert_one cl k d s = Inr s'"
    "view s' = (view s)(k := add_mset d (view s k))" by blast
  have "mirrors (view s') (snd (mem_insert k d st))"
    using assms(3,4,6) M unfolding mirrors_def s'(2) documents_of_def
    by (auto simp: documents_insert [OF assms(3,6)])
  then show ?thesis by (simp add: mongo_insert_def s'(1) attempted_def)
qed

lemma find_step:
  assumes "client_ok cl storable view" "mirrors (view s) st"
  shows "mongo_find cl c i s = map_of (collection_of st c) i"
proof -
  note M = mirrorsD [OF assms(2)]
  have mem: "e \<in># view s c \<and> has_text ''_id'' i e \<longleftrightarrow> map_of (collection_of st c) i = Some e" for e
  proof
    assume e: "e \<in># view s c \<and> has_text ''_id'' i e"
    then obtain j where "(j, e) \<in> set (collection_of st c)" by (auto simp: M(1) documents_of_def)
    moreover from this e have "j = i" using M(3) by (fastforce simp: has_text_def)
    ultimately show "map_of (collection_of st c) i = Some e" using M(2) by (simp add: map_of_is_SomeI)
  next
    assume "map_of (collection_of st c) i = Some e"
    then have "(i, e) \<in> set (collection_of st c)" by (rule map_of_SomeD)
    then show "e \<in># view s c \<and> has_text ''_id'' i e" using M(3) by (force simp: M(1) documents_of_def)
  qed
  show ?thesis
  proof (cases "mongo_find cl c i s")
    case None
    then have "\<forall>e \<in># view s c. \<not> has_text ''_id'' i e"
      using client_okD(2) [OF assms(1), where c = c and i = i and s = s] by (simp add: mongo_find_def)
    with mem None show ?thesis by (cases "map_of (collection_of st c) i") auto
  next
    case (Some d)
    then show ?thesis using client_okD(2) [OF assms(1), where c = c and i = i and s = s] mem by (simp add: mongo_find_def)
  qed
qed

lemma sorted_same_keys:
  fixes key :: "'a \<Rightarrow> 'k::linorder"
  assumes "mset xs = mset ys" "sorted_wrt (\<lambda>x y. key y \<le> key x) xs" "sorted_wrt (\<lambda>x y. key y \<le> key x) ys"
  shows "map key xs = map key ys" "distinct (map key xs) \<Longrightarrow> xs = ys"
proof -
  have "mset (map key xs) = mset (map key ys)" by (simp add: assms(1))
  then have "mset (rev (map key xs)) = mset (rev (map key ys))" by simp
  moreover have "sorted (rev (map key xs))" "sorted (rev (map key ys))"
    using assms(2,3) by (simp_all add: sorted_wrt_rev sorted_wrt_map)
  ultimately have "rev (map key xs) = rev (map key ys)" by (metis properties_for_sort sorted_sort_id)
  then show eq: "map key xs = map key ys" by simp
  assume d: "distinct (map key xs)"
  have "set xs = set ys" using assms(1) by (metis set_mset_mset)
  with d have "inj_on key (set xs \<union> set ys)" by (simp add: distinct_map)
  with eq show "xs = ys" by (simp add: inj_on_map_eq_map)
qed

lemma list_step:
  assumes "client_ok cl storable view" "mirrors (view s) st" "1 \<le> n"
  shows "map (str_field ''created_at'') (mongo_list cl k n s) = map (str_field ''created_at'') (mem_list k n st)"
    and "distinct (map (str_field ''created_at'') (documents_of st k)) \<Longrightarrow> mongo_list cl k n s = mem_list k n st"
proof -
  let ?mem = "sort_reverse (str_field ''created_at'') (documents_of st k)"
  note M = mirrorsD [OF assms(2)]
  have "\<forall>d \<in># view s k. \<exists>v. has_text ''created_at'' v d" using M(4) by (force simp: M(1) documents_of_def)
  from client_okD(3) [OF assms(1,3) this] obtain ds where ds: "mset ds = mset (documents_of st k)"
    "sorted_wrt (\<lambda>x y. str_field ''created_at'' y \<le> str_field ''created_at'' x) ds"
    and mongo: "mongo_list cl k n s = take (nat n) ds"
    by (auto simp: mongo_list_def M(1))
  have mem: "mem_list k n st = take (nat n) ?mem" using assms(3) by (simp add: mem_list_def slice_to_def documents_of_def)
  have "mset ds = mset ?mem" by (simp add: ds(1) sort_reverse_def)
  note same = sorted_same_keys [OF this ds(2) sort_reverse_sorted]
  from same(1) show "map (str_field ''created_at'') (mongo_list cl k n s) = map (str_field ''created_at'') (mem_list k n st)"
    by (simp add: mongo mem take_map [symmetric])
  assume "distinct (map (str_field ''created_at'') (documents_of st k))"
  then have "distinct (map (str_field ''created_at'') ds)"
    using ds(1) by (metis mset_eq_imp_distinct_iff mset_map)
  from same(2) [OF this] show "mongo_list cl k n s = mem_list k n st" by (simp add: mongo mem)
qed

section \<open>Answers\<close>

text \<open>
  Answers that agree: the same document, error or lack of one, and listings of documents with the
  same times; documents created at the same moment may be listed in another order.
\<close>

fun alike :: "store_answer \<Rightarrow> store_answer \<Rightarrow> bool" where
  "alike (Listed xs) (Listed ys) \<longleftrightarrow> map (str_field ''created_at'') xs = map (str_field ''created_at'') ys"
| "alike a b \<longleftrightarrow> a = b"

definition drawn :: "((string \<times> string) \<times> store_call) list \<Rightarrow> json dict list" where
  "drawn calls = concat (map (\<lambda>(draw, c). case stored_by draw c of None \<Rightarrow> [] | Some (k, d) \<Rightarrow> [d]) calls)"

text \<open>The documents to be stored differ in a field from each other and from those there.\<close>

definition all_differ :: "string \<Rightarrow> ((string \<times> string) \<times> store_call) list \<Rightarrow> doc_store \<Rightarrow> bool" where
  "all_differ key calls st \<longleftrightarrow> (\<forall>c. distinct (map (str_field key) (documents_of st c @ drawn calls)))"

lemma drawn_Cons:
  "stored_by draw c = None \<Longrightarrow> drawn ((draw, c) # calls) = drawn calls"
  "stored_by draw c = Some (k, d) \<Longrightarrow> drawn ((draw, c) # calls) = d # drawn calls"
  by (simp_all add: drawn_def)

lemma keys_are_ids: "mirrors M st \<Longrightarrow> keys (collection_of st c) = map (str_field ''_id'') (documents_of st c)"
  by (auto simp: documents_of_def dest!: mirrorsD(3) has_textD)

lemma all_differ_insert:
  assumes "all_differ key ((draw, c) # calls) st" "stored_by draw c = Some (k, d)"
    and "has_text ''_id'' i d" "i \<notin> set (keys (collection_of st k))"
  shows "all_differ key calls (snd (mem_insert k d st))"
  using assms(1) unfolding all_differ_def drawn_Cons(2) [OF assms(2)]
  by (auto simp: documents_of_def documents_insert [OF assms(3,4)])

lemma call_step:
  fixes cl :: "'s mongo_client"
  assumes "client_ok cl storable view" "mirrors (view s) st" "call_ok c"
    and "all_differ ''_id'' ((draw, c) # calls) st" "list_all storable (drawn ((draw, c) # calls))"
  shows "\<exists>a b s' st'. run_call (MongoDocumentStore cl) draw c s = (a, s') \<and> run_call InMemoryDocumentStore draw c st = (b, st') \<and>
    alike a b \<and> mirrors (view s') st' \<and> all_differ ''_id'' calls st' \<and> list_all storable (drawn calls) \<and>
    (all_differ ''created_at'' ((draw, c) # calls) st \<longrightarrow> a = b \<and> all_differ ''created_at'' calls st')"
proof (cases draw c rule: run_call_cases [where 's = 's])
  case (store k d)
  obtain i now where draw: "draw = (i, now)" by (cases draw)
  have texts: "has_text ''_id'' i d" "has_text ''created_at'' now d"
    using stored_by_texts store(1) by (simp_all add: draw)
  have fresh: "i \<notin> set (keys (collection_of st k))"
    using assms(4) has_textD [OF texts(1)] unfolding all_differ_def drawn_Cons(2) [OF store(1)]
    by (auto simp: keys_are_ids [OF assms(2)])
  have "storable d" "list_all storable (drawn calls)" using assms(5) by (simp_all add: drawn_Cons(2) [OF store(1)])
  with insert_step [OF assms(1,2) texts _ fresh] obtain s' where
    "attempted s (mongo_insert cl k d s) = (Inr d, s')" "mirrors (view s') (snd (mem_insert k d st))" by blast
  then show ?thesis
    using all_differ_insert [OF _ store(1) texts(1) fresh] assms(4) \<open>list_all storable (drawn calls)\<close>
    by (simp add: store stored_def answered_def) (simp add: mem_insert_def)
next
  case (list k n)
  note same = list_step [OF assms(1,2) list(2) [OF assms(3)], of k]
  have "distinct (map (str_field ''created_at'') (documents_of st k))" if "all_differ ''created_at'' calls st"
    using that by (simp add: all_differ_def)
  then show ?thesis using same assms(2,4,5)
    by (simp add: list all_differ_def drawn_Cons(1) [OF list(1)])
next
  case (get i)
  then show ?thesis using assms(2,4,5) find_step [OF assms(1,2)]
    by (simp add: mem_get_payload_snapshot_def all_differ_def drawn_Cons(1) [OF get(1)])
qed

text \<open>
  C34. The stores answer alike. Over a client that keeps its documentation, any sequence of calls with
  limits of one or more, which draw fresh ids (as \<open>uuid4\<close> does) for documents the client can hold,
  gets the same answers from the Mongo store as from the one in memory, listings included when no two
  documents have the same time; documents with the same time may be listed in another order. The two
  go on holding the same documents.
\<close>

theorem stores_answer_alike:
  assumes "client_ok cl storable view" "mirrors (view s) st"
    and "list_all (\<lambda>(draw, c). call_ok c) calls" "all_differ ''_id'' calls st" "list_all storable (drawn calls)"
  shows "list_all2 alike (fst (run_calls (MongoDocumentStore cl) calls s)) (fst (run_calls InMemoryDocumentStore calls st)) \<and>
    (all_differ ''created_at'' calls st \<longrightarrow>
      fst (run_calls (MongoDocumentStore cl) calls s) = fst (run_calls InMemoryDocumentStore calls st)) \<and>
    mirrors (view (snd (run_calls (MongoDocumentStore cl) calls s))) (snd (run_calls InMemoryDocumentStore calls st))"
  using assms(2-)
proof (induction calls arbitrary: s st)
  case (Cons dc calls)
  obtain draw c where dc: "dc = (draw, c)" by (cases dc)
  have c: "call_ok c" "list_all (\<lambda>(draw, c). call_ok c) calls" using Cons.prems(2) by (simp_all add: dc)
  from call_step [OF assms(1) Cons.prems(1) c(1) Cons.prems(3,4) [unfolded dc]] obtain a b s' st' where
    step: "run_call (MongoDocumentStore cl) draw c s = (a, s')" "run_call InMemoryDocumentStore draw c st = (b, st')"
      "alike a b" "mirrors (view s') st'" "all_differ ''_id'' calls st'" "list_all storable (drawn calls)"
      "all_differ ''created_at'' ((draw, c) # calls) st \<Longrightarrow> a = b \<and> all_differ ''created_at'' calls st'"
    by blast
  show ?case using Cons.IH [OF step(4) c(2) step(5,6)] step(1,2,3,7)
    by (auto simp: dc split: prod.splits)
qed simp

text \<open>A client over the collections themselves.\<close>

definition plain_client :: "doc_store mongo_client" where
  "plain_client =
     \<lparr>mc_insert_one = \<lambda>c d s.
        if list_ex (\<lambda>e. map_of e ''_id'' = map_of d ''_id'') (documents_of s c) then Inl (OtherError ''DuplicateKeyError'' [])
        else Inr (AList.update c (collection_of s c @ [(str_field ''_id'' d, d)]) s),
      mc_find_one = \<lambda>c f s. List.find (\<lambda>d. list_all (\<lambda>(k, v). map_of d k = Some v) f) (documents_of s c),
      mc_to_list = \<lambda>q n s. take (nat (min n (cu_limit q)))
        (case cu_sort q of None \<Rightarrow> documents_of s (cu_collection q)
         | Some (k, direction) \<Rightarrow>
             if direction = 1 then sort_key (str_field k) (documents_of s (cu_collection q))
             else sort_reverse (str_field k) (documents_of s (cu_collection q)))\<rparr>"

lemma documents_of_update:
  "documents_of (AList.update c kds s) c' = (if c' = c then map snd kds else documents_of s c')"
  by (simp add: documents_of_def collection_of_def map_of_update)

lemma plain_client_ok: "client_ok plain_client (\<lambda>_. True) (\<lambda>s c. mset (documents_of s c))"
  unfolding client_ok_def
proof (intro conjI allI impI)
  fix c i :: string and d and s :: doc_store assume d: "has_text ''_id'' i d"
  then have "list_ex (\<lambda>e. map_of e ''_id'' = map_of d ''_id'') (documents_of s c) \<longleftrightarrow>
      (\<exists>e \<in># mset (documents_of s c). has_text ''_id'' i e)"
    by (simp add: has_text_def list_ex_iff)
  then show "if \<exists>e \<in># mset (documents_of s c). has_text ''_id'' i e
      then \<exists>m. mc_insert_one plain_client c d s = Inl (OtherError ''DuplicateKeyError'' m)
      else True \<longrightarrow> (\<exists>s'. mc_insert_one plain_client c d s = Inr s' \<and>
        (\<lambda>c. mset (documents_of s' c)) = (\<lambda>c. mset (documents_of s c))(c := add_mset d (mset (documents_of s c))))"
    by (auto simp: plain_client_def documents_of_update fun_eq_iff) (simp_all add: documents_of_def)
next
  fix c i :: string and s :: doc_store
  show "case mc_find_one plain_client c [(''_id'', JStr i)] s of None \<Rightarrow> \<forall>e \<in># mset (documents_of s c). \<not> has_text ''_id'' i e
      | Some d \<Rightarrow> d \<in># mset (documents_of s c) \<and> has_text ''_id'' i d"
    by (auto simp: plain_client_def has_text_def find_None_iff find_Some_iff split: option.split)
next
  fix q :: mongo_cursor and n :: int and s :: doc_store
  assume "1 \<le> cu_limit q \<and> 1 \<le> n \<and> sortable (cu_sort q) (mset (documents_of s (cu_collection q)))"
  let ?xs = "documents_of s (cu_collection q)"
  let ?ds = "case cu_sort q of None \<Rightarrow> ?xs
      | Some (k, direction) \<Rightarrow> if direction = 1 then sort_key (str_field k) ?xs else sort_reverse (str_field k) ?xs"
  have "mset ?ds = mset ?xs" by (simp add: sort_reverse_def split: option.split)
  moreover have "sorted_wrt (\<lambda>x y. str_field k x \<le> str_field k y) (sort_key (str_field k) ?xs)" for k
    using sorted_sort_key [of "str_field k" ?xs] by (simp add: sorted_wrt_map)
  then have "ordered (cu_sort q) ?ds" by (simp add: ordered_def sort_reverse_sorted split: option.split)
  ultimately show "\<exists>ds. mset ds = mset ?xs \<and> ordered (cu_sort q) ds \<and>
      mc_to_list plain_client q n s = take (nat (min n (cu_limit q))) ds"
    by (intro exI [of _ ?ds]) (simp add: plain_client_def)
qed

lemma documents_of_empty [simp]: "documents_of empty_store c = []"
  by (simp add: documents_of_def collection_of_def empty_store_def)

definition example_calls :: "((string \<times> string) \<times> store_call) list" where
  "example_calls =
     [((''d1'', ''t1''), Store_payload_snapshot example_snapshot), ((''d2'', ''t2''), Store_payload_snapshot example_snapshot),
      (([], []), List_payload_snapshots 1), (([], []), Get_payload_snapshot ''d1'')]"

theorem stores_answer_alike_witness:
  "fst (run_calls (MongoDocumentStore plain_client) example_calls empty_store) =
   [Stored (Inr (payload_snapshot_document ''d1'' ''t1'' example_snapshot)),
    Stored (Inr (payload_snapshot_document ''d2'' ''t2'' example_snapshot)),
    Listed [payload_snapshot_document ''d2'' ''t2'' example_snapshot],
    Found (Some (payload_snapshot_document ''d1'' ''t1'' example_snapshot))]"
proof -
  let ?view = "\<lambda>s c. mset (documents_of s c)"
  have start: "mirrors (?view empty_store) empty_store"
    by (auto simp: mirrors_def collection_of_def empty_store_def)
  have ok: "list_all (\<lambda>(draw, c). call_ok c) example_calls" by (simp add: example_calls_def)
  have texts: "map (str_field ''_id'') (drawn example_calls) = [''d1'', ''d2'']"
    "map (str_field ''created_at'') (drawn example_calls) = [''t1'', ''t2'']"
    by (simp_all add: example_calls_def drawn_def document_texts has_textD)
  have differ: "all_differ ''_id'' example_calls empty_store" "all_differ ''created_at'' example_calls empty_store"
    by (simp_all add: all_differ_def texts)
  have "list_all (\<lambda>_. True) (drawn example_calls)" by (simp add: list_all_iff)
  from stores_answer_alike [OF plain_client_ok start ok differ(1) this] differ(2)
  have "fst (run_calls (MongoDocumentStore plain_client) example_calls empty_store) =
      fst (run_calls InMemoryDocumentStore example_calls empty_store)" by blast
  also have "\<dots> = [Stored (Inr (payload_snapshot_document ''d1'' ''t1'' example_snapshot)),
      Stored (Inr (payload_snapshot_document ''d2'' ''t2'' example_snapshot)),
      Listed [payload_snapshot_document ''d2'' ''t2'' example_snapshot],
      Found (Some (payload_snapshot_document ''d1'' ''t1'' example_snapshot))]" by code_simp
  finally show ?thesis .
qed

end
