(* ===== verification/Monitor_Lock.thy ===== *)
theory Monitor_Lock
  imports Monitor Transitions
begin

text \<open>
  \<open>backend/app/core/locking.py\<close> and how \<open>run_monitor\<close> uses it: an advisory lock is held by a database
  connection, while a session has a connection only from its first statement to its commit, when it
  goes back to the pool of \<open>backend/app/database.py\<close>. Which idle connection that pool hands out and
  which it keeps is the library's choice, a parameter of the model (first in first out by default);
  a new connection is made whenever none is idle. The steps are those of any number of runs and of
  other requests on one pool. The lemmas show that runs exclude each other whatever the pool decides;
  the second property, that the lock is not always released.
\<close>

section \<open>Definitions\<close>

text \<open>Where a run of the monitor is.\<close>

datatype run =
    Fresh
  | Inside nat      \<comment> \<open>lock acquired, on this connection\<close>
  | Committed       \<comment> \<open>its work is committed or its failure recorded, the lock not yet released\<close>
  | Done
  | Refused         \<comment> \<open>answered with 409, monitor already running\<close>

record pool =
  pl_idle :: "nat list"
  pl_made :: nat
  pl_lock :: "(nat \<times> nat) option"   \<comment> \<open>the connection that holds the lock, and how many times\<close>
  pl_runs :: "run list"
  pl_others :: "nat list"             \<comment> \<open>connections of other requests\<close>

text \<open>
  What the pool of the library decides: which idle connection it hands out, and whether it keeps one
  that comes back. The engine asks for \<open>pool_size\<close> pooled connections.
\<close>

record pool_policy =
  pp_pick :: "nat list \<Rightarrow> nat"
  pp_keep :: "nat list \<Rightarrow> bool"

definition pool_size :: nat where "pool_size = 5"

text \<open>An idle connection, or a new one.\<close>

definition take_connection :: "pool_policy \<Rightarrow> pool \<Rightarrow> nat \<times> pool" where
  "take_connection pol p =
     (let c = pp_pick pol (pl_idle p) in
      if c \<in> set (pl_idle p) then (c, p\<lparr>pl_idle := remove1 c (pl_idle p)\<rparr>)
      else (pl_made p, p\<lparr>pl_made := Suc (pl_made p)\<rparr>))"

text \<open>A connection that is not kept is closed, and with it go its locks.\<close>

definition give_back :: "pool_policy \<Rightarrow> nat \<Rightarrow> pool \<Rightarrow> pool" where
  "give_back pol c p =
     (if pp_keep pol (pl_idle p) then p\<lparr>pl_idle := pl_idle p @ [c]\<rparr>
      else p\<lparr>pl_lock := (case pl_lock p of Some (d, n) \<Rightarrow> if d = c then None else Some (d, n) | None \<Rightarrow> None)\<rparr>)"

text \<open>\<open>pg_try_advisory_lock\<close> and \<open>pg_advisory_unlock\<close>, on a connection.\<close>

definition try_advisory_lock :: "nat \<Rightarrow> pool \<Rightarrow> bool \<times> pool" where
  "try_advisory_lock c p =
     (case pl_lock p of
        None \<Rightarrow> (True, p\<lparr>pl_lock := Some (c, 1)\<rparr>)
      | Some (d, n) \<Rightarrow> if d = c then (True, p\<lparr>pl_lock := Some (c, Suc n)\<rparr>) else (False, p))"

definition advisory_unlock :: "nat \<Rightarrow> pool \<Rightarrow> bool \<times> pool" where
  "advisory_unlock c p =
     (case pl_lock p of
        None \<Rightarrow> (False, p)
      | Some (d, n) \<Rightarrow>
          if d = c then (True, p\<lparr>pl_lock := (if n \<le> 1 then None else Some (c, n - 1))\<rparr>) else (False, p))"

definition set_run :: "nat \<Rightarrow> run \<Rightarrow> pool \<Rightarrow> pool" where
  "set_run i r p = p\<lparr>pl_runs := (pl_runs p)[i := r]\<rparr>"

text \<open>The parts of a run: entering the lock, the commit or the recorded failure, the release.\<close>

definition begin_run :: "pool_policy \<Rightarrow> nat \<Rightarrow> pool \<Rightarrow> pool" where
  "begin_run pol i p =
     (let (c, p1) = take_connection pol p; (acquired, p2) = try_advisory_lock c p1
      in if acquired then set_run i (Inside c) p2 else set_run i Refused (give_back pol c p2))"

definition commit_run :: "pool_policy \<Rightarrow> nat \<Rightarrow> nat \<Rightarrow> pool \<Rightarrow> pool" where
  "commit_run pol i c p = set_run i Committed (give_back pol c p)"

definition fail_run :: "pool_policy \<Rightarrow> nat \<Rightarrow> nat \<Rightarrow> pool \<Rightarrow> pool" where
  "fail_run pol i c p = (let (d, p1) = take_connection pol (give_back pol c p) in set_run i Committed (give_back pol d p1))"

definition end_run :: "pool_policy \<Rightarrow> nat \<Rightarrow> pool \<Rightarrow> pool" where
  "end_run pol i p =
     (let (c, p1) = take_connection pol p; (released, p2) = advisory_unlock c p1 in set_run i Done (give_back pol c p2))"

text \<open>
  A run cancelled inside the lock: the exception is not one of those that are recorded, and the
  release runs while the session still has its connection. It unlocks, or it raises, on a transaction
  that the cancellation has broken, and the connection goes back as it is, or the driver has closed
  the connection.
\<close>

datatype cancelled = Unlocked | Locked | Closed

definition cancel_run :: "pool_policy \<Rightarrow> cancelled \<Rightarrow> nat \<Rightarrow> nat \<Rightarrow> pool \<Rightarrow> pool" where
  "cancel_run pol how i c p =
     set_run i Done (case how of
       Unlocked \<Rightarrow> give_back pol c (snd (advisory_unlock c p))
     | Locked \<Rightarrow> give_back pol c p
     | Closed \<Rightarrow> give_back (pol\<lparr>pp_keep := \<lambda>_. False\<rparr>) c p)"

inductive lock_step :: "pool_policy \<Rightarrow> pool \<Rightarrow> pool \<Rightarrow> bool" for pol where
  arrive: "lock_step pol p (p\<lparr>pl_runs := pl_runs p @ [Fresh]\<rparr>)"
| enters: "i < length (pl_runs p) \<Longrightarrow> pl_runs p ! i = Fresh  \<Longrightarrow> lock_step pol p (begin_run pol i p)"
| commits: "i < length (pl_runs p) \<Longrightarrow> pl_runs p ! i = Inside c \<Longrightarrow> lock_step pol p (commit_run pol i c p)"
| fails: "i < length (pl_runs p) \<Longrightarrow> pl_runs p ! i = Inside c  \<Longrightarrow> lock_step pol p (fail_run pol i c p)"
| cancels: "i < length (pl_runs p) \<Longrightarrow> pl_runs p ! i = Inside c  \<Longrightarrow> lock_step pol p (cancel_run pol how i c p)"
| releases: "i < length (pl_runs p) \<Longrightarrow> pl_runs p ! i = Committed  \<Longrightarrow> lock_step pol p (end_run pol i p)"
| other_begins: "take_connection pol p = (c, p') \<Longrightarrow> lock_step pol p (p'\<lparr>pl_others := c # pl_others p'\<rparr>)"
| other_ends: "c \<in> set (pl_others p) \<Longrightarrow> lock_step pol p (give_back pol c (p\<lparr>pl_others := remove1 c (pl_others p)\<rparr>))"

inductive lock_reachable :: "pool_policy \<Rightarrow> pool \<Rightarrow> pool \<Rightarrow> bool" for pol p0 where
  init: "lock_reachable pol p0 p0"
| more: "lock_reachable pol p0 p \<Longrightarrow> lock_step pol p p' \<Longrightarrow> lock_reachable pol p0 p'"

interpretation locking: transitions "lock_step pol" "lock_reachable pol" for pol
  by unfold_locales (auto intro: lock_reachable.intros elim: lock_reachable.induct)

text \<open>A pool nobody uses, with some connections left from earlier requests.\<close>

definition quiet_pool :: "nat list \<Rightarrow> pool" where
  "quiet_pool cs = \<lparr>pl_idle = cs, pl_made = Suc (Max (insert 0 (set cs))), pl_lock = None, pl_runs = [], pl_others = []\<rparr>"

section \<open>Exclusion\<close>

fun conns_of :: "run \<Rightarrow> nat list" where
  "conns_of (Inside c) = [c]"
| "conns_of _ = []"

text \<open>Each connection is in one place, and a run inside has the lock on its connection.\<close>

definition in_use :: "pool \<Rightarrow> nat list" where
  "in_use p = pl_others p @ concat (map conns_of (pl_runs p))"

definition lock_ok :: "pool \<Rightarrow> bool" where
  "lock_ok p \<longleftrightarrow> distinct (pl_idle p @ in_use p) \<and> list_all (\<lambda>c. c < pl_made p) (pl_idle p @ in_use p) \<and>
     (\<forall>c. Inside c \<in> set (pl_runs p) \<longrightarrow> (\<exists>n. pl_lock p = Some (c, n)))"

lemma pool_simps [simp]:
  "pl_idle (set_run i r p) = pl_idle p" "pl_made (set_run i r p) = pl_made p"
  "pl_lock (set_run i r p) = pl_lock p" "pl_others (set_run i r p) = pl_others p" "pl_runs (set_run i r p) = (pl_runs p)[i := r]"
  by (simp_all add: set_run_def)

text \<open>Runs are replaced one at a time; only the place of the connection matters.\<close>

lemma concat_conns_update:
  "i < length rs \<Longrightarrow> mset (concat (map conns_of (rs[i := r]))) + mset (conns_of (rs ! i)) =
     mset (concat (map conns_of rs)) + mset (conns_of r)"
proof (induction rs arbitrary: i)
  case (Cons x rs)
  then show ?case
  proof (cases i)
    case (Suc j)
    then show ?thesis using Cons.IH [of j] Cons.prems by (simp add: add.assoc)
  qed (simp add: add.commute)
qed simp

definition places :: "pool \<Rightarrow> nat multiset" where
  "places p = mset (pl_idle p @ in_use p)"

definition once :: "nat multiset \<Rightarrow> nat \<Rightarrow> bool" where
  "once M k \<longleftrightarrow> (\<forall>c. count M c \<le> 1) \<and> (\<forall>c \<in># M. c < k)"

lemma once_mono: "once M k \<Longrightarrow> N \<subseteq># M \<Longrightarrow> k \<le> k' \<Longrightarrow> once N k'"
  unfolding once_def by (meson le_trans less_le_trans mset_subset_eqD mset_subset_eq_count)

lemma lock_ok_places:
  "lock_ok p \<longleftrightarrow> once (places p) (pl_made p) \<and> (\<forall>c. Inside c \<in> set (pl_runs p) \<longrightarrow> (\<exists>n. pl_lock p = Some (c, n)))"
proof -
  have "distinct xs \<longleftrightarrow> (\<forall>c. count (mset xs) c \<le> 1)" for xs :: "nat list"
    by (auto simp: distinct_count_atmost_1 count_eq_zero_iff le_Suc_eq split: if_splits)
  then show ?thesis by (simp only: lock_ok_def places_def once_def list_all_iff set_mset_mset conj_assoc)
qed

lemma take_connection_ok:
  assumes "take_connection pol p = (c, p1)" "once (places p) (pl_made p)"
  shows "once (add_mset c (places p1)) (pl_made p1)" "pl_lock p1 = pl_lock p" "pl_runs p1 = pl_runs p"
    "pl_others p1 = pl_others p"
proof -
  have "once (add_mset c (places p1)) (pl_made p1) \<and> pl_lock p1 = pl_lock p \<and> pl_runs p1 = pl_runs p \<and> pl_others p1 = pl_others p"
  proof (cases "pp_pick pol (pl_idle p) \<in> set (pl_idle p)")
    case False
    with assms have eqs: "c = pl_made p" "p1 = p\<lparr>pl_made := Suc (pl_made p)\<rparr>"
      by (auto simp: take_connection_def Let_def)
    have "pl_made p \<notin># places p" using assms(2) by (auto simp: once_def)
    then show ?thesis using assms(2) by (auto simp: eqs once_def places_def in_use_def count_eq_zero_iff less_Suc_eq)
  next
    case True
    with assms have eqs: "c \<in> set (pl_idle p)" "p1 = p\<lparr>pl_idle := remove1 c (pl_idle p)\<rparr>"
      by (auto simp: take_connection_def Let_def)
    have "add_mset c (places p1) = places p" using eqs(1) by (simp add: eqs(2) places_def in_use_def)
    then show ?thesis using assms(2) by (simp add: eqs)
  qed
  then show "once (add_mset c (places p1)) (pl_made p1)" "pl_lock p1 = pl_lock p" "pl_runs p1 = pl_runs p"
    "pl_others p1 = pl_others p" by simp_all
qed

lemma give_back_ok:
  "places (give_back pol c p) \<subseteq># add_mset c (places p)" "pl_made (give_back pol c p) = pl_made p"
  "pl_runs (give_back pol c p) = pl_runs p" "pl_others (give_back pol c p) = pl_others p"
  "d \<noteq> c \<Longrightarrow> pl_lock p = Some (d, n) \<Longrightarrow> pl_lock (give_back pol c p) = Some (d, n)"
  by (auto simp: give_back_def places_def in_use_def)

lemma set_run_places:
  "i < length (pl_runs p) \<Longrightarrow> places (set_run i r p) + mset (conns_of (pl_runs p ! i)) = places p + mset (conns_of r)"
  using concat_conns_update [of i "pl_runs p" r] by (simp add: places_def in_use_def add.assoc)

text \<open>A connection just taken is that of no run, and is not the holder of the lock when some run is inside.\<close>

lemma taken_not_inside:
  assumes "once (add_mset c (places p)) k" "Inside d \<in> set (pl_runs p)"
  shows "d \<noteq> c"
proof
  assume "d = c"
  have "c \<in> set (concat (map conns_of (pl_runs p)))" using assms(2) \<open>d = c\<close> by force
  then have "0 < count (places p) c" by (simp add: places_def in_use_def count_greater_zero_iff del: set_concat)
  moreover have "count (add_mset c (places p)) c \<le> 1" using assms(1) unfolding once_def by blast
  ultimately show False by (auto simp: count_eq_zero_iff)
qed

lemma set_list_update_other: "Inside d \<in> set (rs[i := r]) \<Longrightarrow> Inside d \<noteq> r \<Longrightarrow> Inside d \<in> set rs"
  using set_update_subset_insert [of rs i r] by auto

text \<open>Leaving a connection and changing a run without a connection.\<close>

lemma give_back_lock_ok:
  assumes "once (add_mset c (places p)) (pl_made p)" "\<forall>d. Inside d \<in> set (pl_runs p) \<longrightarrow> (\<exists>n. pl_lock p = Some (d, n))"
  shows "lock_ok (give_back pol c p)"
  unfolding lock_ok_places
proof (intro conjI allI impI)
  show "once (places (give_back pol c p)) (pl_made (give_back pol c p))"
    by (rule once_mono [OF assms(1) give_back_ok(1)]) (simp add: give_back_ok)
  fix d assume "Inside d \<in> set (pl_runs (give_back pol c p))"
  then have d: "Inside d \<in> set (pl_runs p)" by (simp add: give_back_ok)
  with assms(2) obtain n where "pl_lock p = Some (d, n)" by blast
  with taken_not_inside [OF assms(1) d] show "\<exists>n. pl_lock (give_back pol c p) = Some (d, n)" using give_back_ok(5) by blast
qed

lemma set_run_lock_ok:
  assumes "lock_ok p" "conns_of r = []" "i < length (pl_runs p)"
  shows "lock_ok (set_run i r p)"
  unfolding lock_ok_places
proof (intro conjI allI impI)
  have "places (set_run i r p) \<subseteq># places p"
    using set_run_places [OF assms(3), of r] assms(2) by (metis add.right_neutral mset.simps(1) mset_subset_eq_add_left)
  then show "once (places (set_run i r p)) (pl_made (set_run i r p))"
    using assms(1) once_mono unfolding lock_ok_places by fastforce
  fix d assume "Inside d \<in> set (pl_runs (set_run i r p))"
  then have "Inside d \<in> set (pl_runs p)" using assms(2) set_list_update_other [of d "pl_runs p" i r] by (cases r) auto
  then show "\<exists>n. pl_lock (set_run i r p) = Some (d, n)" using assms(1) unfolding lock_ok_places by simp
qed

lemma lock_ok_once: "lock_ok p \<Longrightarrow> once (places p) (pl_made p)"
  by (simp add: lock_ok_places)

lemma lock_ok_inside: "lock_ok p \<Longrightarrow> Inside d \<in> set (pl_runs p) \<Longrightarrow> \<exists>n. pl_lock p = Some (d, n)"
  by (simp add: lock_ok_places)

lemma begin_run_ok:
  assumes "lock_ok p" "i < length (pl_runs p)" "pl_runs p ! i = Fresh"
  shows "lock_ok (begin_run pol i p)"
proof -
  obtain c p1 where t: "take_connection pol p = (c, p1)" by (metis prod.collapse)
  note took = take_connection_ok [OF t lock_ok_once [OF assms(1)]]
  have inside: "\<forall>d. Inside d \<in> set (pl_runs p1) \<longrightarrow> (\<exists>n. pl_lock p1 = Some (d, n))"
    using lock_ok_inside [OF assms(1)] by (simp add: took)
  show ?thesis
  proof (cases "fst (try_advisory_lock c p1)")
    case False
    then have "begin_run pol i p = set_run i Refused (give_back pol c p1)"
      by (auto simp: begin_run_def t try_advisory_lock_def split: option.splits if_splits)
    then show ?thesis
      using set_run_lock_ok [OF give_back_lock_ok [OF took(1) inside], of Refused i] assms(2) by (simp add: give_back_ok took)
  next
    case True
    then obtain n where p2: "try_advisory_lock c p1 = (True, p1\<lparr>pl_lock := Some (c, n)\<rparr>)"
      and free: "pl_lock p1 = None \<or> (\<exists>m. pl_lock p1 = Some (c, m))"
      by (auto simp: try_advisory_lock_def split: option.splits if_splits)
    then have eq: "begin_run pol i p = set_run i (Inside c) (p1\<lparr>pl_lock := Some (c, n)\<rparr>)" by (simp add: begin_run_def t)
    have nobody: "Inside d \<notin> set (pl_runs p1)" for d
      using inside free taken_not_inside [OF took(1), of d] by fastforce
    show ?thesis
      unfolding lock_ok_places eq
    proof (intro conjI allI impI)
      have "places (set_run i (Inside c) p1) = add_mset c (places p1)"
        using set_run_places [of i p1 "Inside c"] assms(2,3) by (simp add: took)
      then show "once (places (set_run i (Inside c) (p1\<lparr>pl_lock := Some (c, n)\<rparr>))) (pl_made (set_run i (Inside c) (p1\<lparr>pl_lock := Some (c, n)\<rparr>)))"
        using took(1) by (simp add: places_def in_use_def)
      fix d assume "Inside d \<in> set (pl_runs (set_run i (Inside c) (p1\<lparr>pl_lock := Some (c, n)\<rparr>)))"
      then have "d = c" using nobody set_list_update_other [of d "pl_runs p1" i "Inside c"] by auto
      then show "\<exists>n'. pl_lock (set_run i (Inside c) (p1\<lparr>pl_lock := Some (c, n)\<rparr>)) = Some (d, n')" by simp
    qed
  qed
qed

lemma commit_run_ok:
  assumes "lock_ok p" "i < length (pl_runs p)" "pl_runs p ! i = Inside c"
  shows "lock_ok (commit_run pol i c p)" "once (add_mset c (places (set_run i Committed p))) (pl_made p)"
proof -
  have "places (set_run i Committed p) + {#c#} = places p" using set_run_places [OF assms(2), of Committed] assms(3) by simp
  then have eq: "add_mset c (places (set_run i Committed p)) = places p" by simp
  then show once: "once (add_mset c (places (set_run i Committed p))) (pl_made p)" using lock_ok_once [OF assms(1)] by simp
  have "lock_ok (set_run i Committed p)" by (rule set_run_lock_ok [OF assms(1) _ assms(2)]) simp
  from lock_ok_inside [OF this] once have "lock_ok (give_back pol c (set_run i Committed p))"
    by (intro give_back_lock_ok allI impI) simp_all
  moreover have "commit_run pol i c p = give_back pol c (set_run i Committed p)" by (simp add: commit_run_def give_back_def set_run_def)
  ultimately show "lock_ok (commit_run pol i c p)" by simp
qed

text \<open>Taking a connection and giving it back.\<close>

lemma take_give_ok:
  assumes "lock_ok p" "take_connection pol p = (c, p1)"
  shows "lock_ok (give_back pol c p1)"
proof -
  note took = take_connection_ok [OF assms(2) lock_ok_once [OF assms(1)]]
  show ?thesis by (rule give_back_lock_ok [OF took(1)]) (use lock_ok_inside [OF assms(1)] in \<open>simp add: took\<close>)
qed

lemma fail_run_ok:
  assumes "lock_ok p" "i < length (pl_runs p)" "pl_runs p ! i = Inside c"
  shows "lock_ok (fail_run pol i c p)"
proof -
  obtain d p1 where t: "take_connection pol (give_back pol c p) = (d, p1)" by (metis prod.collapse)
  then have t': "take_connection pol (commit_run pol i c p) = (d, set_run i Committed p1)"
    by (auto simp: take_connection_def commit_run_def set_run_def Let_def split: if_splits)
  have "fail_run pol i c p = set_run i Committed (give_back pol d p1)" by (simp add: fail_run_def t)
  also have "\<dots> = give_back pol d (set_run i Committed p1)" by (simp add: give_back_def set_run_def)
  finally have "fail_run pol i c p = give_back pol d (set_run i Committed p1)" .
  with take_give_ok [OF commit_run_ok(1) [OF assms] t'] show ?thesis by simp
qed

lemma unlock_keeps [simp]:
  "places (snd (advisory_unlock c p)) = places p" "pl_made (snd (advisory_unlock c p)) = pl_made p"
  "pl_runs (snd (advisory_unlock c p)) = pl_runs p" "d \<noteq> c \<Longrightarrow> pl_lock p = Some (d, n) \<Longrightarrow> pl_lock (snd (advisory_unlock c p)) = Some (d, n)"
  by (auto simp: advisory_unlock_def places_def in_use_def split: option.splits)

lemma cancel_run_ok:
  assumes "lock_ok p" "i < length (pl_runs p)" "pl_runs p ! i = Inside c"
  shows "lock_ok (cancel_run pol how i c p)"
proof -
  let ?q = "set_run i Done p"
  have "places ?q + {#c#} = places p" using set_run_places [OF assms(2), of Done] assms(3) by simp
  then have eq: "add_mset c (places ?q) = places p" by simp
  then have once: "once (add_mset c (places ?q)) (pl_made ?q)" using lock_ok_once [OF assms(1)] by simp
  have "lock_ok ?q" by (rule set_run_lock_ok [OF assms(1) _ assms(2)]) simp
  then have inside: "\<exists>n. pl_lock ?q = Some (d, n)" "d \<noteq> c" if "Inside d \<in> set (pl_runs ?q)" for d
    using lock_ok_inside taken_not_inside [OF once] that by blast+
  have "\<exists>n. pl_lock (snd (advisory_unlock c ?q)) = Some (d, n)" if "Inside d \<in> set (pl_runs ?q)" for d
    using inside [OF that] unlock_keeps(4) by blast
  then have "lock_ok (give_back pol c (snd (advisory_unlock c ?q)))" "lock_ok (give_back pol' c ?q)" for pol'
    by (intro give_back_lock_ok allI impI; use once inside(1) in simp)+
  moreover have "set_run i Done (give_back pol' c q) = give_back pol' c (set_run i Done q)"
    "set_run i Done (snd (advisory_unlock c q)) = snd (advisory_unlock c (set_run i Done q))" for pol' q
    by (simp_all add: give_back_def set_run_def advisory_unlock_def split: option.split)
  ultimately show ?thesis by (cases how) (simp_all add: cancel_run_def)
qed

lemma end_run_ok:
  assumes "lock_ok p" "i < length (pl_runs p)"
  shows "lock_ok (end_run pol i p)"
proof -
  obtain c p1 where t: "take_connection pol p = (c, p1)" by (metis prod.collapse)
  note took = take_connection_ok [OF t lock_ok_once [OF assms(1)]]
  let ?p2 = "snd (advisory_unlock c p1)"
  have "\<exists>n. pl_lock ?p2 = Some (d, n)" if d: "Inside d \<in> set (pl_runs ?p2)" for d
  proof -
    have "Inside d \<in> set (pl_runs p1)" using d by simp
    then have "d \<noteq> c" "\<exists>n. pl_lock p1 = Some (d, n)"
      using taken_not_inside [OF took(1)] lock_ok_inside [OF assms(1)] by (auto simp: took)
    then show ?thesis using unlock_keeps(4) by blast
  qed
  then have "lock_ok (give_back pol c ?p2)" using took(1) by (intro give_back_lock_ok) simp_all
  then have "lock_ok (set_run i Done (give_back pol c ?p2))"
    by (rule set_run_lock_ok) (use assms(2) in \<open>simp_all add: give_back_ok took\<close>)
  then show ?thesis by (simp add: end_run_def t case_prod_unfold)
qed

lemma lock_ok_step: "lock_step pol p p' \<Longrightarrow> lock_ok p \<Longrightarrow> lock_ok p'"
proof (induction rule: lock_step.induct)
  case (arrive p)
  then show ?case by (simp add: lock_ok_places places_def in_use_def)
next
  case (other_begins p c p')
  note took = take_connection_ok [OF other_begins(1) lock_ok_once [OF other_begins(2)]]
  then show ?case using lock_ok_inside [OF other_begins(2)] by (simp add: lock_ok_places places_def in_use_def)
next
  case (other_ends c p)
  have "add_mset c (places (p\<lparr>pl_others := remove1 c (pl_others p)\<rparr>)) = places p"
    using other_ends(1) by (simp add: places_def in_use_def)
  then show ?case using other_ends(2) lock_ok_once [OF other_ends(2)] lock_ok_inside [OF other_ends(2)]
    by (intro give_back_lock_ok) simp_all
qed (simp_all add: begin_run_ok commit_run_ok fail_run_ok cancel_run_ok end_run_ok)

lemma quiet_pool_ok: "distinct cs \<Longrightarrow> lock_ok (quiet_pool cs)"
  by (auto simp: lock_ok_def quiet_pool_def in_use_def list_all_iff less_Suc_eq_le intro: Max_ge)

section \<open>Properties\<close>

text \<open>
  C20. Two runs of the monitor never overlap, whatever the pool decides and whatever runs and other
  requests do on it, in whatever order: of all runs at most one is inside the lock.
\<close>

theorem monitor_runs_exclude_each_other:
  assumes "distinct cs" "lock_reachable pol (quiet_pool cs) p" "i < length (pl_runs p)" "j < length (pl_runs p)"
    and "pl_runs p ! i = Inside c" "pl_runs p ! j = Inside d"
  shows "i = j"
proof (rule ccontr)
  assume "i \<noteq> j"
  have ok: "lock_ok p" by (rule locking.invariant [where ok = lock_ok, OF lock_ok_step assms(2) quiet_pool_ok [OF assms(1)]])
  have in_runs: "Inside c \<in> set (pl_runs p)" "Inside d \<in> set (pl_runs p)" using assms(3-6) by (metis nth_mem)+
  have "d = c" using lock_ok_inside [OF ok in_runs(1)] lock_ok_inside [OF ok in_runs(2)] by auto
  have "pl_runs (set_run i Committed p) ! j = Inside c" using \<open>i \<noteq> j\<close> assms(4,6) \<open>d = c\<close> by simp
  then have "Inside c \<in> set (pl_runs (set_run i Committed p))" using assms(4) by (metis length_list_update nth_mem pool_simps(5))
  with taken_not_inside [OF commit_run_ok(2) [OF ok assms(3,5)]] show False by blast
qed

text \<open>
  The default of the library: first in first out, up to the size of the pool. What a pool is after
  the steps of one run that is alone on it.
\<close>

definition fifo :: "pool_policy \<Rightarrow> bool" where
  "fifo pol \<longleftrightarrow> (\<forall>c cs. pp_pick pol (c # cs) = c) \<and> (\<forall>cs. pp_keep pol cs = (length cs < pool_size))"

text \<open>The effect of each part of a run under that policy.\<close>

lemma fifo_take: "fifo pol \<Longrightarrow> pl_idle p = c # cs \<Longrightarrow> take_connection pol p = (c, p\<lparr>pl_idle := cs\<rparr>)"
  by (simp add: take_connection_def fifo_def)

lemma fifo_give: "fifo pol \<Longrightarrow> length (pl_idle p) < pool_size \<Longrightarrow> give_back pol c p = p\<lparr>pl_idle := pl_idle p @ [c]\<rparr>"
  by (simp add: give_back_def fifo_def)

lemmas run_parts = begin_run_def commit_run_def end_run_def try_advisory_lock_def advisory_unlock_def set_run_def

lemma lone_run_leaks:
  assumes "fifo pol" "cs = a # b # rest" "distinct cs" "length cs \<le> pool_size"
  shows "lock_reachable pol (quiet_pool cs)
    ((quiet_pool cs)\<lparr>pl_idle := rest @ [a, b], pl_lock := Some (a, 1), pl_runs := [Done]\<rparr>)"
proof -
  let ?q = "quiet_pool cs"
  have 1: "lock_reachable pol ?q (?q\<lparr>pl_runs := [Fresh]\<rparr>)"
    by (rule locking.further_eq [OF locking.start lock_step.arrive]) (simp add: quiet_pool_def)
  have 2: "lock_reachable pol ?q (?q\<lparr>pl_idle := b # rest, pl_lock := Some (a, 1), pl_runs := [Inside a]\<rparr>)"
    by (rule locking.further_eq [OF 1 lock_step.enters [of 0]])
       (simp_all add: quiet_pool_def assms(2) fifo_take [OF assms(1)] run_parts)
  have 3: "lock_reachable pol ?q (?q\<lparr>pl_idle := b # rest @ [a], pl_lock := Some (a, 1), pl_runs := [Committed]\<rparr>)"
    by (rule locking.further_eq [OF 2 lock_step.commits [of 0 _ a]])
       (use assms(2,4) in \<open>simp_all add: fifo_give [OF assms(1)] run_parts\<close>)
  show ?thesis
    by (rule locking.further_eq [OF 3 lock_step.releases [of 0]])
       (use assms(2-4) in \<open>simp_all add: fifo_take [OF assms(1)] fifo_give [OF assms(1)] run_parts\<close>)
qed

text \<open>
  C21. The lock can outlive its run. With the first-in-first-out pool of the library and three idle
  connections or more, a run that is alone takes the lock on one connection and, after its commit,
  releases it on another, which does not hold it: the lock stays with the pooled connection, and the
  next run, with nobody inside, is answered that the monitor is already running.
\<close>

theorem idle_monitor_refuses_run:
  assumes "fifo pol" "cs = a # b # c # rest" "distinct cs" "length cs \<le> pool_size"
  shows "\<exists>p. lock_reachable pol (quiet_pool cs) p \<and> pl_runs p = [Done, Refused] \<and> pl_lock p = Some (a, 1) \<and> pl_others p = []"
proof -
  let ?q = "quiet_pool cs"
  have 1: "lock_reachable pol ?q (?q\<lparr>pl_idle := c # rest @ [a, b], pl_lock := Some (a, 1), pl_runs := [Done, Fresh]\<rparr>)"
    by (rule locking.further_eq [OF lone_run_leaks [of pol cs a b "c # rest"] lock_step.arrive]) (use assms in simp_all)
  have "lock_reachable pol ?q (?q\<lparr>pl_idle := rest @ [a, b, c], pl_lock := Some (a, 1), pl_runs := [Done, Refused]\<rparr>)"
    by (rule locking.further_eq [OF 1 lock_step.enters [of 1]])
       (use assms(2-4) in \<open>simp_all add: fifo_take [OF assms(1)] fifo_give [OF assms(1)] run_parts\<close>)
  then show ?thesis by (intro exI conjI) (assumption, simp_all add: quiet_pool_def)
qed

definition queue_policy :: pool_policy where
  "queue_policy = \<lparr>pp_pick = (\<lambda>cs. case cs of [] \<Rightarrow> 0 | c # _ \<Rightarrow> c), pp_keep = (\<lambda>cs. length cs < pool_size)\<rparr>"

lemma fifo_queue: "fifo queue_policy"
  by (simp add: fifo_def queue_policy_def)

theorem monitor_runs_exclude_each_other_witness:
  "\<exists>p. lock_reachable queue_policy (quiet_pool [0]) p \<and> pl_runs p ! 0 = Inside 0 \<and>
     (\<forall>j < length (pl_runs p). (\<exists>d. pl_runs p ! j = Inside d) \<longrightarrow> j = 0)"
proof -
  let ?q = "quiet_pool [0]"
  have 1: "lock_reachable queue_policy ?q (?q\<lparr>pl_runs := [Fresh, Fresh]\<rparr>)"
    by (rule locking.further_eq [OF locking.further_eq [OF locking.start lock_step.arrive] lock_step.arrive, OF refl])
       (simp add: quiet_pool_def)
  have 2: "lock_reachable queue_policy ?q (?q\<lparr>pl_idle := [], pl_lock := Some (0, 1), pl_runs := [Inside 0, Fresh]\<rparr>)" (is "lock_reachable _ _ ?p")
    by (rule locking.further_eq [OF 1 lock_step.enters [of 0]])
       (simp_all add: quiet_pool_def fifo_take [OF fifo_queue] run_parts)
  have "distinct [0::nat]" by simp
  note only = monitor_runs_exclude_each_other [OF this 2]
  have "j = 0" if "j < length (pl_runs ?p)" "pl_runs ?p ! j = Inside d" for j d
    by (rule only [OF that(1) _ that(2), of 0 0]) simp_all
  with 2 show ?thesis by (intro exI [of _ ?p]) auto
qed

theorem idle_monitor_refuses_run_witness:
  "\<exists>p. lock_reachable queue_policy (quiet_pool [0, 1, 2]) p \<and> pl_runs p = [Done, Refused] \<and> pl_lock p = Some (0, 1)"
  using idle_monitor_refuses_run [OF fifo_queue, of "[0, 1, 2]" 0 1 2 "[]"] by (auto simp: pool_size_def)

end
