(* ===== verification/Alembic_Init.thy ===== *)
theory Alembic_Init
  imports Prelude
begin

text \<open>
  \<open>backend/alembic/versions/0001_init.py\<close>, the migration that creates the tables of the monitor, and the
  tables that \<open>backend/app/models.py\<close> declares to the object-relational mapper. Both are data here; the
  statements of the migration run on a catalog of tables and indexes the way PostgreSQL runs them. The
  lemmas say that the migration creates the declared tables and that its downgrade takes them away.
  The mapper's relationships and the refresh of \<open>updated_at\<close> on update declare nothing to the database
  and are left out.
\<close>

section \<open>Tables\<close>

datatype column_type = Uuid | Text_col | Jsonb | Timestamp_tz | Integer_col | Boolean_col

datatype on_delete = Cascade | Set_null

datatype default_value = Now | New_uuid | Text_default string | Int_default int | Bool_default bool | Empty_object

record column =
  cl_name :: string
  cl_type :: column_type
  cl_nullable :: bool
  cl_primary :: bool
  cl_unique :: bool
  cl_references :: "(string \<times> string \<times> on_delete) option"
  cl_server_default :: "default_value option"   \<comment> \<open>filled in by the database\<close>
  cl_default :: "default_value option"          \<comment> \<open>filled in by the mapper\<close>

datatype table_constraint =
    Check string string "string list"     \<comment> \<open>name, column and the values it may have\<close>
  | Unique string "string list"           \<comment> \<open>name and columns\<close>

record table =
  tb_name :: string
  tb_columns :: "column list"
  tb_constraints :: "table_constraint list"

type_synonym index = "string \<times> string \<times> string list"   \<comment> \<open>name, table and columns\<close>

definition plain_column :: "string \<Rightarrow> column_type \<Rightarrow> bool \<Rightarrow> column" where
  "plain_column name type nullable =
     \<lparr>cl_name = name, cl_type = type, cl_nullable = nullable, cl_primary = False, cl_unique = False,
      cl_references = None, cl_server_default = None, cl_default = None\<rparr>"

definition server_defaulted :: "string \<Rightarrow> column_type \<Rightarrow> default_value \<Rightarrow> column" where
  "server_defaulted name type v = (plain_column name type False)\<lparr>cl_server_default := Some v\<rparr>"

definition mapper_defaulted :: "string \<Rightarrow> column_type \<Rightarrow> default_value \<Rightarrow> column" where
  "mapper_defaulted name type v = (plain_column name type False)\<lparr>cl_default := Some v\<rparr>"

definition foreign_key :: "string \<Rightarrow> bool \<Rightarrow> string \<Rightarrow> on_delete \<Rightarrow> column" where
  "foreign_key name nullable target action =
     (plain_column name Uuid nullable)\<lparr>cl_references := Some (target, ''id'', action)\<rparr>"

definition primary_id :: column where
  "primary_id = (plain_column ''id'' Uuid False)\<lparr>cl_primary := True\<rparr>"

section \<open>The migration\<close>

datatype ddl =
    Create_extension string
  | Create_table table
  | Create_index string string "string list"
  | Drop_index string string
  | Drop_table string

definition init_api_endpoints :: "ddl list" where
  "init_api_endpoints =
     [Create_table \<lparr>tb_name = ''api_endpoints'', tb_columns =
        [primary_id,
         (plain_column ''name'' Text_col False)\<lparr>cl_unique := True\<rparr>,
         plain_column ''provider'' Text_col False,
         plain_column ''url'' Text_col False,
         server_defaulted ''method'' Text_col (Text_default ''GET''),
         server_defaulted ''headers_json'' Jsonb Empty_object,
         server_defaulted ''is_active'' Boolean_col (Bool_default True),
         server_defaulted ''created_at'' Timestamp_tz Now,
         server_defaulted ''updated_at'' Timestamp_tz Now], tb_constraints = []\<rparr>,
      Create_index ''ix_api_endpoints_is_active'' ''api_endpoints'' [''is_active'']]"

definition init_monitor_runs :: "ddl list" where
  "init_monitor_runs =
     [Create_table \<lparr>tb_name = ''monitor_runs'', tb_columns =
        [primary_id,
         server_defaulted ''started_at'' Timestamp_tz Now,
         plain_column ''finished_at'' Timestamp_tz True,
         plain_column ''status'' Text_col False,
         server_defaulted ''endpoints_checked'' Integer_col (Int_default 0),
         server_defaulted ''snapshots_created'' Integer_col (Int_default 0),
         server_defaulted ''diffs_detected'' Integer_col (Int_default 0),
         plain_column ''error_message'' Text_col True],
        tb_constraints = [Check ''ck_monitor_runs_status'' ''status''
          [''running'', ''success'', ''partial_failure'', ''failed'']]\<rparr>,
      Create_index ''ix_monitor_runs_started_at_desc'' ''monitor_runs'' [''started_at'']]"

definition init_schema_snapshots :: "ddl list" where
  "init_schema_snapshots =
     [Create_table \<lparr>tb_name = ''schema_snapshots'', tb_columns =
        [primary_id,
         foreign_key ''endpoint_id'' False ''api_endpoints'' Cascade,
         foreign_key ''monitor_run_id'' False ''monitor_runs'' Cascade,
         plain_column ''schema_hash'' Text_col False,
         server_defaulted ''status_code'' Integer_col (Int_default 0),
         server_defaulted ''response_time_ms'' Integer_col (Int_default 0),
         server_defaulted ''response_size_bytes'' Integer_col (Int_default 0),
         plain_column ''normalized_schema_json'' Jsonb True,
         plain_column ''raw_sample_json'' Jsonb True,
         plain_column ''fetch_error'' Text_col True,
         server_defaulted ''created_at'' Timestamp_tz Now], tb_constraints = []\<rparr>,
      Create_index ''ix_schema_snapshots_hash'' ''schema_snapshots'' [''schema_hash''],
      Create_index ''ix_schema_snapshots_endpoint_created'' ''schema_snapshots'' [''endpoint_id'', ''created_at'']]"

definition init_schema_diffs :: "ddl list" where
  "init_schema_diffs =
     [Create_table \<lparr>tb_name = ''schema_diffs'', tb_columns =
        [primary_id,
         foreign_key ''endpoint_id'' False ''api_endpoints'' Cascade,
         foreign_key ''old_snapshot_id'' True ''schema_snapshots'' Set_null,
         foreign_key ''new_snapshot_id'' False ''schema_snapshots'' Cascade,
         plain_column ''severity'' Text_col False,
         plain_column ''change_type'' Text_col False,
         plain_column ''path'' Text_col False,
         plain_column ''old_type'' Text_col True,
         plain_column ''new_type'' Text_col True,
         plain_column ''old_value_json'' Jsonb True,
         plain_column ''new_value_json'' Jsonb True,
         plain_column ''message'' Text_col False,
         server_defaulted ''created_at'' Timestamp_tz Now],
        tb_constraints = [Check ''ck_schema_diffs_severity'' ''severity'' [''breaking'', ''risky'', ''safe'']]\<rparr>,
      Create_index ''ix_schema_diffs_endpoint_created'' ''schema_diffs'' [''endpoint_id'', ''created_at''],
      Create_index ''ix_schema_diffs_path'' ''schema_diffs'' [''path''],
      Create_index ''ix_schema_diffs_severity'' ''schema_diffs'' [''severity''],
      Create_index ''ix_schema_diffs_new_snapshot'' ''schema_diffs'' [''new_snapshot_id'']]"

definition init_changelogs :: "ddl list" where
  "init_changelogs =
     [Create_table \<lparr>tb_name = ''changelogs'', tb_columns =
        [primary_id,
         foreign_key ''endpoint_id'' False ''api_endpoints'' Cascade,
         foreign_key ''snapshot_id'' False ''schema_snapshots'' Cascade,
         plain_column ''diff_ids'' Jsonb False,
         plain_column ''diff_set_hash'' Text_col False,
         plain_column ''generated_text'' Text_col False,
         plain_column ''model_name'' Text_col True,
         server_defaulted ''created_at'' Timestamp_tz Now],
        tb_constraints = [Unique ''uq_changelog_snapshot_diffset'' [''snapshot_id'', ''diff_set_hash'']]\<rparr>,
      Create_index ''ix_changelogs_endpoint_created'' ''changelogs'' [''endpoint_id'', ''created_at'']]"

definition upgrade :: "ddl list" where
  "upgrade = [Create_extension ''pgcrypto''] @ init_api_endpoints @ init_monitor_runs @ init_schema_snapshots
     @ init_schema_diffs @ init_changelogs"

definition downgrade :: "ddl list" where
  "downgrade =
     [Drop_index ''ix_changelogs_endpoint_created'' ''changelogs'', Drop_table ''changelogs'',
      Drop_index ''ix_schema_diffs_new_snapshot'' ''schema_diffs'', Drop_index ''ix_schema_diffs_severity'' ''schema_diffs'',
      Drop_index ''ix_schema_diffs_path'' ''schema_diffs'', Drop_index ''ix_schema_diffs_endpoint_created'' ''schema_diffs'',
      Drop_table ''schema_diffs'',
      Drop_index ''ix_schema_snapshots_endpoint_created'' ''schema_snapshots'',
      Drop_index ''ix_schema_snapshots_hash'' ''schema_snapshots'', Drop_table ''schema_snapshots'',
      Drop_index ''ix_monitor_runs_started_at_desc'' ''monitor_runs'', Drop_table ''monitor_runs'',
      Drop_index ''ix_api_endpoints_is_active'' ''api_endpoints'', Drop_table ''api_endpoints'']"

section \<open>The declared tables\<close>

definition mapped_uuid_pk :: column where
  "mapped_uuid_pk = primary_id\<lparr>cl_default := Some New_uuid\<rparr>"

definition ApiEndpoint_table :: table where
  "ApiEndpoint_table = \<lparr>tb_name = ''api_endpoints'', tb_columns =
     [mapped_uuid_pk,
      (plain_column ''name'' Text_col False)\<lparr>cl_unique := True\<rparr>,
      plain_column ''provider'' Text_col False,
      plain_column ''url'' Text_col False,
      mapper_defaulted ''method'' Text_col (Text_default ''GET''),
      mapper_defaulted ''headers_json'' Jsonb Empty_object,
      mapper_defaulted ''is_active'' Boolean_col (Bool_default True),
      server_defaulted ''created_at'' Timestamp_tz Now,
      server_defaulted ''updated_at'' Timestamp_tz Now], tb_constraints = []\<rparr>"

definition MonitorRun_table :: table where
  "MonitorRun_table = \<lparr>tb_name = ''monitor_runs'', tb_columns =
     [mapped_uuid_pk,
      server_defaulted ''started_at'' Timestamp_tz Now,
      plain_column ''finished_at'' Timestamp_tz True,
      plain_column ''status'' Text_col False,
      mapper_defaulted ''endpoints_checked'' Integer_col (Int_default 0),
      mapper_defaulted ''snapshots_created'' Integer_col (Int_default 0),
      mapper_defaulted ''diffs_detected'' Integer_col (Int_default 0),
      plain_column ''error_message'' Text_col True],
     tb_constraints = [Check ''ck_monitor_runs_status'' ''status''
       [''running'', ''success'', ''partial_failure'', ''failed'']]\<rparr>"

definition SchemaSnapshot_table :: table where
  "SchemaSnapshot_table = \<lparr>tb_name = ''schema_snapshots'', tb_columns =
     [mapped_uuid_pk,
      foreign_key ''endpoint_id'' False ''api_endpoints'' Cascade,
      foreign_key ''monitor_run_id'' False ''monitor_runs'' Cascade,
      plain_column ''schema_hash'' Text_col False,
      mapper_defaulted ''status_code'' Integer_col (Int_default 0),
      mapper_defaulted ''response_time_ms'' Integer_col (Int_default 0),
      mapper_defaulted ''response_size_bytes'' Integer_col (Int_default 0),
      plain_column ''normalized_schema_json'' Jsonb True,
      plain_column ''raw_sample_json'' Jsonb True,
      plain_column ''fetch_error'' Text_col True,
      server_defaulted ''created_at'' Timestamp_tz Now], tb_constraints = []\<rparr>"

definition SchemaDiff_table :: table where
  "SchemaDiff_table = \<lparr>tb_name = ''schema_diffs'', tb_columns =
     [mapped_uuid_pk,
      foreign_key ''endpoint_id'' False ''api_endpoints'' Cascade,
      foreign_key ''old_snapshot_id'' True ''schema_snapshots'' Set_null,
      foreign_key ''new_snapshot_id'' False ''schema_snapshots'' Cascade,
      plain_column ''severity'' Text_col False,
      plain_column ''change_type'' Text_col False,
      plain_column ''path'' Text_col False,
      plain_column ''old_type'' Text_col True,
      plain_column ''new_type'' Text_col True,
      plain_column ''old_value_json'' Jsonb True,
      plain_column ''new_value_json'' Jsonb True,
      plain_column ''message'' Text_col False,
      server_defaulted ''created_at'' Timestamp_tz Now],
     tb_constraints = [Check ''ck_schema_diffs_severity'' ''severity'' [''breaking'', ''risky'', ''safe'']]\<rparr>"

definition Changelog_table :: table where
  "Changelog_table = \<lparr>tb_name = ''changelogs'', tb_columns =
     [mapped_uuid_pk,
      foreign_key ''endpoint_id'' False ''api_endpoints'' Cascade,
      foreign_key ''snapshot_id'' False ''schema_snapshots'' Cascade,
      plain_column ''diff_ids'' Jsonb False,
      plain_column ''diff_set_hash'' Text_col False,
      plain_column ''generated_text'' Text_col False,
      plain_column ''model_name'' Text_col True,
      server_defaulted ''created_at'' Timestamp_tz Now],
     tb_constraints = [Unique ''uq_changelog_snapshot_diffset'' [''snapshot_id'', ''diff_set_hash'']]\<rparr>"

text \<open>The tables with the indexes of their \<open>__table_args__\<close>.\<close>

definition metadata :: "(table \<times> index list) list" where
  "metadata =
     [(ApiEndpoint_table, [(''ix_api_endpoints_is_active'', ''api_endpoints'', [''is_active''])]),
      (MonitorRun_table, [(''ix_monitor_runs_started_at_desc'', ''monitor_runs'', [''started_at''])]),
      (SchemaSnapshot_table,
        [(''ix_schema_snapshots_hash'', ''schema_snapshots'', [''schema_hash'']),
         (''ix_schema_snapshots_endpoint_created'', ''schema_snapshots'', [''endpoint_id'', ''created_at''])]),
      (SchemaDiff_table,
        [(''ix_schema_diffs_endpoint_created'', ''schema_diffs'', [''endpoint_id'', ''created_at'']),
         (''ix_schema_diffs_path'', ''schema_diffs'', [''path'']),
         (''ix_schema_diffs_severity'', ''schema_diffs'', [''severity'']),
         (''ix_schema_diffs_new_snapshot'', ''schema_diffs'', [''new_snapshot_id''])]),
      (Changelog_table, [(''ix_changelogs_endpoint_created'', ''changelogs'', [''endpoint_id'', ''created_at''])])]"

section \<open>Running statements\<close>

record catalog =
  ct_extensions :: "string list"
  ct_tables :: "table list"
  ct_indexes :: "index list"

definition table_names :: "catalog \<Rightarrow> string list" where
  "table_names c = map tb_name (ct_tables c)"

text \<open>Tables and indexes share one space of names.\<close>

definition relation_names :: "catalog \<Rightarrow> string list" where
  "relation_names c = table_names c @ map fst (ct_indexes c)"

definition columns_of :: "catalog \<Rightarrow> string \<Rightarrow> string list" where
  "columns_of c t = concat (map (\<lambda>tb. map cl_name (tb_columns tb)) (filter (\<lambda>tb. tb_name tb = t) (ct_tables c)))"

definition references_of :: "table \<Rightarrow> string list" where
  "references_of t = concat (map (\<lambda>cl. case cl_references cl of None \<Rightarrow> [] | Some (target, _) \<Rightarrow> [target]) (tb_columns t))"

datatype ddl_error = Duplicate_relation string | Undefined_relation string | Undefined_column string | Dependent_objects string

fun run_ddl :: "ddl \<Rightarrow> catalog \<Rightarrow> ddl_error + catalog" where
  "run_ddl (Create_extension e) c = Inr (c\<lparr>ct_extensions := List.insert e (ct_extensions c)\<rparr>)"
| "run_ddl (Create_table t) c =
     (if tb_name t \<in> set (relation_names c) then Inl (Duplicate_relation (tb_name t))
      else case filter (\<lambda>r. r \<noteq> tb_name t \<and> r \<notin> set (table_names c)) (references_of t) of
        r # _ \<Rightarrow> Inl (Undefined_relation r)
      | [] \<Rightarrow> Inr (c\<lparr>ct_tables := ct_tables c @ [t]\<rparr>))"
| "run_ddl (Create_index i t cs) c =
     (if i \<in> set (relation_names c) then Inl (Duplicate_relation i)
      else if t \<notin> set (table_names c) then Inl (Undefined_relation t)
      else case filter (\<lambda>cl. cl \<notin> set (columns_of c t)) cs of
        cl # _ \<Rightarrow> Inl (Undefined_column cl)
      | [] \<Rightarrow> Inr (c\<lparr>ct_indexes := ct_indexes c @ [(i, t, cs)]\<rparr>))"
| "run_ddl (Drop_index i t) c =
     (if i \<notin> fst ` set (ct_indexes c) then Inl (Undefined_relation i)
      else Inr (c\<lparr>ct_indexes := filter (\<lambda>x. fst x \<noteq> i) (ct_indexes c)\<rparr>))"
| "run_ddl (Drop_table t) c =
     (if t \<notin> set (table_names c) then Inl (Undefined_relation t)
      else if list_ex (\<lambda>tb. tb_name tb \<noteq> t \<and> t \<in> set (references_of tb)) (ct_tables c) then Inl (Dependent_objects t)
      else Inr (c\<lparr>ct_tables := filter (\<lambda>tb. tb_name tb \<noteq> t) (ct_tables c),
                  ct_indexes := filter (\<lambda>x. fst (snd x) \<noteq> t) (ct_indexes c)\<rparr>))"

text \<open>A migration runs in one transaction.\<close>

fun run_ddls :: "ddl list \<Rightarrow> catalog \<Rightarrow> ddl_error + catalog" where
  "run_ddls [] c = Inr c"
| "run_ddls (d # ds) c = (case run_ddl d c of Inl e \<Rightarrow> Inl e | Inr c' \<Rightarrow> run_ddls ds c')"

section \<open>Undoing statements\<close>

text \<open>Indexes and foreign keys of a catalog point to its tables.\<close>

definition catalog_ok :: "catalog \<Rightarrow> bool" where
  "catalog_ok c \<longleftrightarrow> list_all (\<lambda>x. fst (snd x) \<in> set (table_names c)) (ct_indexes c) \<and>
     list_all (\<lambda>t. set (references_of t) \<subseteq> set (table_names c)) (ct_tables c)"

fun undo :: "ddl \<Rightarrow> ddl list" where
  "undo (Create_table t) = [Drop_table (tb_name t)]"
| "undo (Create_index i t cs) = [Drop_index i t]"
| "undo _ = []"

fun creates :: "ddl \<Rightarrow> bool" where
  "creates (Create_table t) = True"
| "creates (Create_index i t cs) = True"
| "creates _ = False"

lemma run_ddls_append:
  "run_ddls (ds @ ds') c = (case run_ddls ds c of Inl e \<Rightarrow> Inl e | Inr c' \<Rightarrow> run_ddls ds' c')"
  by (induction ds c rule: run_ddls.induct) (auto split: sum.split)

lemma filter_fresh: "x \<notin> f ` set xs \<Longrightarrow> filter (\<lambda>y. f y \<noteq> x) xs = xs"
  by (rule filter_True) auto

text \<open>A creation is undone by its drop: nothing of a sound catalog can depend on what is new.\<close>

lemma undo_create:
  assumes "catalog_ok c" "run_ddl d c = Inr c'" "creates d"
  shows "catalog_ok c' \<and> run_ddls (undo d) c' = Inr c"
proof (cases d)
  case (Create_table t)
  with assms(2) have new: "tb_name t \<notin> set (relation_names c)" and c': "c' = c\<lparr>ct_tables := ct_tables c @ [t]\<rparr>"
    and refs: "set (references_of t) \<subseteq> insert (tb_name t) (set (table_names c))"
    by (auto simp: filter_empty_conv split: if_splits list.splits)
  have fresh: "tb_name t \<notin> tb_name ` set (ct_tables c)" using new by (simp add: relation_names_def table_names_def)
  have ix: "\<forall>x \<in> set (ct_indexes c). fst (snd x) \<noteq> tb_name t"
    and tb: "\<forall>u \<in> set (ct_tables c). tb_name t \<notin> set (references_of u)"
    using assms(1) fresh by (auto simp: catalog_ok_def list_all_iff table_names_def)
  have "catalog_ok c'" using assms(1) refs by (auto simp: catalog_ok_def c' table_names_def list_all_iff)
  moreover have "run_ddl (Drop_table (tb_name t)) c' = Inr c"
    using ix tb filter_fresh [OF fresh] by (auto simp: c' table_names_def list_ex_iff intro!: filter_True)
  ultimately show ?thesis by (simp add: Create_table)
next
  case (Create_index i t cs)
  with assms(2) have new: "i \<notin> set (relation_names c)" "t \<in> set (table_names c)"
    and c': "c' = c\<lparr>ct_indexes := ct_indexes c @ [(i, t, cs)]\<rparr>"
    by (auto split: if_splits list.splits)
  have fresh: "i \<notin> fst ` set (ct_indexes c)" using new by (simp add: relation_names_def)
  have "catalog_ok c'" using assms(1) new(2) by (simp add: catalog_ok_def c' table_names_def)
  moreover have "run_ddl (Drop_index i t) c' = Inr c" by (simp add: c' filter_fresh [OF fresh])
  ultimately show ?thesis by (simp add: Create_index)
qed (use assms(3) in simp_all)

lemma run_ddls_undo:
  "list_all creates ds \<Longrightarrow> catalog_ok c \<Longrightarrow> run_ddls ds c = Inr c' \<Longrightarrow>
     catalog_ok c' \<and> run_ddls (concat (map undo (rev ds))) c' = Inr c"
proof (induction ds arbitrary: c)
  case (Cons d ds)
  from Cons.prems(3) obtain c1 where c1: "run_ddl d c = Inr c1" "run_ddls ds c1 = Inr c'"
    by (auto split: sum.splits)
  note u = undo_create [OF Cons.prems(2) c1(1)]
  from Cons.IH [OF _ _ c1(2)] u Cons.prems(1) have "catalog_ok c' \<and> run_ddls (concat (map undo (rev ds))) c' = Inr c1" by simp
  with u Cons.prems(1) show ?case by (simp add: run_ddls_append)
qed simp

text \<open>The downgrade is the upgrade read backwards, but for the extension, which stays.\<close>

lemma downgrade_reads_backwards:
  "upgrade = Create_extension ''pgcrypto'' # tl upgrade" "list_all creates (tl upgrade)"
  "downgrade = concat (map undo (rev (tl upgrade)))"
  by (simp_all add: upgrade_def downgrade_def init_api_endpoints_def init_monitor_runs_def
      init_schema_snapshots_def init_schema_diffs_def init_changelogs_def)

section \<open>Properties\<close>

text \<open>
  Wherever the migration succeeds its downgrade succeeds as well and restores the catalog: the
  tables and indexes are those of before, in the same order, and only the extension stays.
\<close>

theorem downgrade_undoes_upgrade:
  assumes "catalog_ok c" "run_ddls upgrade c = Inr c'"
  shows "run_ddls downgrade c' = Inr (c\<lparr>ct_extensions := List.insert ''pgcrypto'' (ct_extensions c)\<rparr>) \<and> catalog_ok c'"
proof -
  let ?c = "c\<lparr>ct_extensions := List.insert ''pgcrypto'' (ct_extensions c)\<rparr>"
  have ok: "catalog_ok ?c" using assms(1) by (simp add: catalog_ok_def table_names_def)
  have "run_ddls (tl upgrade) ?c = Inr c'" using assms(2) by (subst (asm) downgrade_reads_backwards(1)) simp
  from run_ddls_undo [OF downgrade_reads_backwards(2) ok this] show ?thesis
    by (simp add: downgrade_reads_backwards(3) [symmetric])
qed

definition empty_catalog :: catalog where
  "empty_catalog = \<lparr>ct_extensions = [], ct_tables = [], ct_indexes = []\<rparr>"

text \<open>
  A column of the migration against the declared one: the same but for the default, which the
  migration gives to the database where the declaration gives it to the mapper; fresh ids are the
  mapper's alone.
\<close>

definition agrees :: "column \<Rightarrow> column \<Rightarrow> bool" where
  "agrees declared created \<longleftrightarrow>
     created = declared\<lparr>cl_default := None, cl_server_default :=
       (case cl_server_default declared of
          Some v \<Rightarrow> Some v
        | None \<Rightarrow> if cl_default declared = Some New_uuid then None else cl_default declared)\<rparr>"

definition implements :: "catalog \<Rightarrow> table \<Rightarrow> table \<times> index list \<Rightarrow> bool" where
  "implements c created declared \<longleftrightarrow> tb_name created = tb_name (fst declared) \<and>
     list_all2 agrees (tb_columns (fst declared)) (tb_columns created) \<and>
     tb_constraints created = tb_constraints (fst declared) \<and>
     filter (\<lambda>x. fst (snd x) = tb_name created) (ct_indexes c) = snd declared"

definition created_catalog :: catalog where
  "created_catalog = (case run_ddls upgrade empty_catalog of Inl e \<Rightarrow> empty_catalog | Inr c \<Rightarrow> c)"

text \<open>
  On an empty database the migration succeeds and creates exactly the tables the mapper declares,
  column by column, with their keys, constraints and indexes; a value the mapper would fill in is the
  database's default for it, so that rows written without the mapper get the same values.
\<close>

theorem migration_creates_models:
  "run_ddls upgrade empty_catalog = Inr created_catalog \<and> catalog_ok created_catalog \<and>
   list_all2 (implements created_catalog) (ct_tables created_catalog) metadata"
  by code_simp

theorem downgrade_undoes_upgrade_witness:
  "run_ddls downgrade created_catalog = Inr (empty_catalog\<lparr>ct_extensions := [''pgcrypto'']\<rparr>)"
proof -
  have "catalog_ok empty_catalog" by (simp add: catalog_ok_def empty_catalog_def)
  moreover have "run_ddls upgrade empty_catalog = Inr created_catalog" by code_simp
  ultimately show ?thesis using downgrade_undoes_upgrade [of empty_catalog created_catalog] by (simp add: empty_catalog_def)
qed

end
