(* ===== verification/Migrations.thy ===== *)
theory Migrations
  imports Prelude
begin

text \<open>
  \<open>scripts/apply_runtime_migrations.py\<close>: the SQL files of \<open>migrations/\<close> are run in the order of their
  names, each once, and recorded in a table of the database they change. PostgreSQL is a parameter:
  \<open>step\<close> runs one statement on the schema or fails, and a migration is its file name with the
  statements of its text. The lemmas compare the loop with a fold over the files not yet recorded.
\<close>

section \<open>Definitions\<close>

datatype sql_error = DuplicateObject | DuplicateTable | OtherError string

type_synonym 'q migration = "string \<times> 'q list"

record 's runtime_schema =
  rs_applied :: "string list option"   \<comment> \<open>\<open>runtime_schema_migrations\<close>, once it is there\<close>
  rs_objects :: 's

text \<open>\<open>cur.execute(sql)\<close> with a text of several statements: they run up to the first that fails.\<close>

fun run_statements :: "('q \<Rightarrow> 's \<Rightarrow> sql_error + 's) \<Rightarrow> 'q list \<Rightarrow> 's \<Rightarrow> sql_error + 's" where
  "run_statements step [] s = Inr s"
| "run_statements step (q # qs) s = (case step q s of Inl e \<Rightarrow> Inl e | Inr s' \<Rightarrow> run_statements step qs s')"

definition bookkeeping :: "'s runtime_schema \<Rightarrow> string list" where
  "bookkeeping db = (case rs_applied db of None \<Rightarrow> [] | Some names \<Rightarrow> names)"

definition record_migration :: "string \<Rightarrow> 's runtime_schema \<Rightarrow> 's runtime_schema" where
  "record_migration name db = db\<lparr>rs_applied := Some (bookkeeping db @ [name])\<rparr>"

text \<open>
  Lines 52-79. The result is what ended the loop, if anything raised, the lines printed, and the
  committed state; a rollback brings back the state of the last commit.
\<close>

fun apply_files ::
  "('q \<Rightarrow> 's \<Rightarrow> sql_error + 's) \<Rightarrow> 'q migration list \<Rightarrow> 's runtime_schema
     \<Rightarrow> sql_error option \<times> string list \<times> 's runtime_schema" where
  "apply_files step [] db = (None, [], db)"
| "apply_files step ((name, sql) # files) db =
     (if name \<in> set (bookkeeping db) then apply_files step files db
      else
        case run_statements step sql (rs_objects db) of
          Inl e \<Rightarrow>
            if e = DuplicateObject \<or> e = DuplicateTable then
              let (err, out, db') = apply_files step files (record_migration name db) in
              (err, (''skipped '' @ name @ '' (already applied objects present)'') # out, db')
            else (Some e, [], db)
        | Inr s \<Rightarrow>
            let (err, out, db') = apply_files step files (record_migration name (db\<lparr>rs_objects := s\<rparr>)) in
            (err, (''applied '' @ name) # out, db'))"

text \<open>The databases of the server by name; a created database starts as the server's template.\<close>

type_synonym 's server = "(string \<times> 's runtime_schema) list"

definition create_database :: "'s runtime_schema \<Rightarrow> string \<Rightarrow> 's server \<Rightarrow> string list \<times> 's server" where
  "create_database template target_db srv =
     (if map_of srv target_db = None then ([''created database '' @ target_db], AList.update target_db template srv)
      else ([], srv))"

definition apply_runtime_migrations ::
  "('q \<Rightarrow> 's \<Rightarrow> sql_error + 's) \<Rightarrow> 's runtime_schema \<Rightarrow> 'q migration list \<Rightarrow> string \<Rightarrow> 's server
     \<Rightarrow> sql_error option \<times> string list \<times> 's server" where
  "apply_runtime_migrations step template listing target_db srv =
     (let files = sort_items listing;
          (created, srv1) = create_database template target_db srv;
          db = the (map_of srv1 target_db);
          (err, out, db') = apply_files step files (db\<lparr>rs_applied := Some (bookkeeping db)\<rparr>)
      in (err, created @ out, AList.update target_db db' srv1))"

section \<open>The loop as a fold\<close>

text \<open>What a file does to the objects: all of its statements or, when one is refused, none of them.\<close>

definition effect :: "('q \<Rightarrow> 's \<Rightarrow> sql_error + 's) \<Rightarrow> 'q migration \<Rightarrow> 's \<Rightarrow> 's" where
  "effect step f s = (case run_statements step (snd f) s of Inl e \<Rightarrow> s | Inr s' \<Rightarrow> s')"

definition pending_files :: "'q migration list \<Rightarrow> 's runtime_schema \<Rightarrow> 'q migration list" where
  "pending_files files db = filter (\<lambda>f. fst f \<notin> set (bookkeeping db)) files"

lemma bookkeeping_simps [simp]:
  "bookkeeping (db\<lparr>rs_objects := s\<rparr>) = bookkeeping db" "bookkeeping (db\<lparr>rs_applied := Some ns\<rparr>) = ns"
  "bookkeeping (record_migration name db) = bookkeeping db @ [name]"
  "rs_objects (record_migration name db) = rs_objects db"
  by (simp_all add: bookkeeping_def record_migration_def)

lemma pending_files_marked [simp]:
  "pending_files files (db\<lparr>rs_applied := Some (bookkeeping db)\<rparr>) = pending_files files db"
  by (simp add: pending_files_def)

lemma run_statements_append:
  "run_statements step (qs @ qs') s =
     (case run_statements step qs s of Inl e \<Rightarrow> Inl e | Inr s' \<Rightarrow> run_statements step qs' s')"
  by (induction step qs s rule: run_statements.induct) (auto split: sum.split)

lemma pending_files_record:
  "name \<notin> fst ` set files \<Longrightarrow> bookkeeping db' = bookkeeping db @ [name] \<Longrightarrow> pending_files files db' = pending_files files db"
  by (force simp: pending_files_def intro!: filter_cong)

text \<open>One pending file that does not stop the loop.\<close>

lemma apply_files_step:
  assumes "name \<notin> set (bookkeeping db)"
    and "\<forall>e. run_statements step sql (rs_objects db) = Inl e \<longrightarrow> e = DuplicateObject \<or> e = DuplicateTable"
  obtains line where "\<And>files. apply_files step ((name, sql) # files) db =
    (let (err, out, db') = apply_files step files
         (record_migration name (db\<lparr>rs_objects := effect step (name, sql) (rs_objects db)\<rparr>))
     in (err, line # out, db'))"
proof (cases "run_statements step sql (rs_objects db)")
  case (Inl e)
  then show ?thesis using assms by (intro that) (auto simp: effect_def)
next
  case (Inr s)
  then show ?thesis using assms by (intro that) (auto simp: effect_def)
qed

lemma apply_files_fold:
  assumes "distinct (map fst files)" "apply_files step files db = (None, out, db')"
  shows "rs_objects db' = fold (effect step) (pending_files files db) (rs_objects db) \<and>
    bookkeeping db' = bookkeeping db @ map fst (pending_files files db) \<and> length out = length (pending_files files db)"
  using assms
proof (induction files arbitrary: db out)
  case (Cons f files)
  obtain name sql where f: "f = (name, sql)" by (cases f)
  show ?case
  proof (cases "name \<in> set (bookkeeping db)")
    case True
    then show ?thesis using Cons.IH [of db out] Cons.prems by (simp add: f pending_files_def)
  next
    case False
    have goes: "\<forall>e. run_statements step sql (rs_objects db) = Inl e \<longrightarrow> e = DuplicateObject \<or> e = DuplicateTable"
      using Cons.prems(2) False by (auto simp: f split: if_splits)
    let ?db = "record_migration name (db\<lparr>rs_objects := effect step (name, sql) (rs_objects db)\<rparr>)"
    obtain line where line: "\<And>fs. apply_files step ((name, sql) # fs) db =
        (let (err, out, db') = apply_files step fs ?db in (err, line # out, db'))"
      using apply_files_step [OF False goes] by blast
    with Cons.prems(2) obtain out1 where
      rest: "apply_files step files ?db = (None, out1, db')" and len: "length out = Suc (length out1)"
      by (auto simp: f simp del: apply_files.simps split: prod.splits)
    have "pending_files files ?db = pending_files files db"
      by (rule pending_files_record) (use Cons.prems(1) in \<open>auto simp: f\<close>)
    then show ?thesis using Cons.IH [OF _ rest] Cons.prems(1) False len by (simp add: f pending_files_def)
  qed
qed (simp add: pending_files_def)

lemma apply_files_recorded:
  "\<forall>f \<in> set files. fst f \<in> set (bookkeeping db) \<Longrightarrow> apply_files step files db = (None, [], db)"
  by (induction files) auto

lemma apply_files_append_recorded:
  "\<forall>f \<in> set done'. fst f \<in> set (bookkeeping db) \<Longrightarrow> apply_files step (done' @ files) db = apply_files step files db"
  by (induction done') auto

text \<open>Where the loop stops when it does.\<close>

lemma apply_files_failure:
  assumes "distinct (map fst files)" "apply_files step files db = (Some e, out, db')"
  shows "\<exists>before name sql after. files = before @ (name, sql) # after \<and> name \<notin> set (bookkeeping db) \<and>
    apply_files step before db = (None, out, db') \<and> run_statements step sql (rs_objects db') = Inl e \<and>
    e \<noteq> DuplicateObject \<and> e \<noteq> DuplicateTable"
  using assms
proof (induction files arbitrary: db out)
  case (Cons f files)
  obtain name sql where f: "f = (name, sql)" by (cases f)
  show ?case
  proof (cases "name \<in> set (bookkeeping db)")
    case True
    with Cons.prems have rest: "apply_files step files db = (Some e, out, db')" by (simp add: f)
    from Cons.IH [OF _ rest] Cons.prems(1) obtain before n q after where
      "files = before @ (n, q) # after" "n \<notin> set (bookkeeping db)" "apply_files step before db = (None, out, db')"
      "run_statements step q (rs_objects db') = Inl e" "e \<noteq> DuplicateObject" "e \<noteq> DuplicateTable" by auto
    with True show ?thesis by (intro exI [of _ "f # before"] exI [of _ n] exI [of _ q] exI [of _ after]) (simp add: f)
  next
    case False
    show ?thesis
    proof (cases "\<forall>x. run_statements step sql (rs_objects db) = Inl x \<longrightarrow> x = DuplicateObject \<or> x = DuplicateTable")
      case True
      let ?db = "record_migration name (db\<lparr>rs_objects := effect step (name, sql) (rs_objects db)\<rparr>)"
      obtain line where line: "\<And>fs. apply_files step ((name, sql) # fs) db =
          (let (err, out, db') = apply_files step fs ?db in (err, line # out, db'))"
        using apply_files_step [OF False True] by blast
      with Cons.prems(2) obtain out1 where rest: "apply_files step files ?db = (Some e, out1, db')" "out = line # out1"
        by (auto simp: f simp del: apply_files.simps split: prod.splits)
      from Cons.IH [OF _ rest(1)] Cons.prems(1) obtain before n q after where
        b: "files = before @ (n, q) # after" "n \<notin> set (bookkeeping ?db)" "apply_files step before ?db = (None, out1, db')"
        "run_statements step q (rs_objects db') = Inl e" "e \<noteq> DuplicateObject" "e \<noteq> DuplicateTable" by auto
      have "apply_files step (f # before) db = (None, out, db')" by (simp only: f line b(3) rest(2)) simp
      with b show ?thesis by (intro exI [of _ "f # before"] exI [of _ n] exI [of _ q] exI [of _ after]) simp
    next
      case stop: False
      then show ?thesis using Cons.prems(2) False
        by (intro exI [of _ "[]"] exI [of _ name] exI [of _ sql] exI [of _ files]) (auto simp: f split: if_splits)
    qed
  qed
qed simp

section \<open>The script\<close>

definition target_of :: "'s runtime_schema \<Rightarrow> string \<Rightarrow> 's server \<Rightarrow> 's runtime_schema" where
  "target_of template target_db srv = (case map_of srv target_db of None \<Rightarrow> template | Some db \<Rightarrow> db)"

text \<open>A run in terms of its loop, from the state the target database is in or is created in.\<close>

lemma script_loop:
  assumes "apply_runtime_migrations step template listing target_db srv = (err, out, srv')"
  shows "\<exists>created out1 db. out = created @ out1 \<and> map_of srv' target_db = Some db \<and>
    (\<forall>other. other \<noteq> target_db \<longrightarrow> map_of srv' other = map_of srv other) \<and>
    apply_files step (sort_items listing)
      ((target_of template target_db srv)\<lparr>rs_applied := Some (bookkeeping (target_of template target_db srv))\<rparr>) = (err, out1, db)"
  using assms
  by (cases "map_of srv target_db")
     (auto simp: apply_runtime_migrations_def create_database_def target_of_def update_conv' Let_def split: prod.splits)

lemma rs_applied_Some:
  "apply_files step files db = (err, out, db') \<Longrightarrow> rs_applied db = Some ns \<Longrightarrow> \<exists>ns'. rs_applied db' = Some ns'"
  by (induction step files db arbitrary: err out ns rule: apply_files.induct)
     (auto simp: record_migration_def split: if_splits sum.splits prod.splits)

text \<open>With every file recorded the script changes nothing and prints nothing.\<close>

lemma nothing_to_apply:
  assumes "map_of srv target_db = Some db" "rs_applied db = Some names" "\<forall>f \<in> set listing. fst f \<in> set names"
  shows "apply_runtime_migrations step template listing target_db srv = (None, [], srv)"
proof -
  have same: "db\<lparr>rs_applied := Some (bookkeeping db)\<rparr> = db" using assms(2) by (simp add: bookkeeping_def)
  have "apply_files step (sort_items listing) db = (None, [], db)"
    by (rule apply_files_recorded) (use assms(2,3) in \<open>simp add: bookkeeping_def\<close>)
  then show ?thesis
    using assms(1) by (simp add: apply_runtime_migrations_def create_database_def same update_triv)
qed

text \<open>
  C33. A run that ends well has brought the database up to date, once: its objects are the effects, in
  the order of the names, of the files that were not recorded before; every file is recorded; no
  other database is touched; and a later run, whatever the statements would do then, changes
  nothing and prints nothing.
\<close>

theorem migrations_applied_once:
  assumes "distinct (map fst listing)" "apply_runtime_migrations step template listing target_db srv = (None, out, srv')"
    and "db = target_of template target_db srv"
  shows "\<exists>db'. map_of srv' target_db = Some db' \<and>
    rs_objects db' = fold (effect step) (pending_files (sort_items listing) db) (rs_objects db) \<and>
    bookkeeping db' = bookkeeping db @ map fst (pending_files (sort_items listing) db) \<and>
    (\<forall>other. other \<noteq> target_db \<longrightarrow> map_of srv' other = map_of srv other) \<and>
    apply_runtime_migrations step' template' listing target_db srv' = (None, [], srv')"
proof -
  from script_loop [OF assms(2)] obtain created out1 db' where
    db': "map_of srv' target_db = Some db'" "\<forall>other. other \<noteq> target_db \<longrightarrow> map_of srv' other = map_of srv other"
    and loop: "apply_files step (sort_items listing) (db\<lparr>rs_applied := Some (bookkeeping db)\<rparr>) = (None, out1, db')"
    unfolding assms(3) by blast
  from apply_files_fold [OF _ loop] assms(1)
  have fold: "rs_objects db' = fold (effect step) (pending_files (sort_items listing) db) (rs_objects db)"
    "bookkeeping db' = bookkeeping db @ map fst (pending_files (sort_items listing) db)" by simp_all
  obtain ns where ns: "rs_applied db' = Some ns" using rs_applied_Some [OF loop] by auto
  then have "ns = bookkeeping db'" by (simp add: bookkeeping_def)
  then have "\<forall>f \<in> set listing. fst f \<in> set ns" by (auto simp: fold(2) pending_files_def)
  with nothing_to_apply [OF db'(1) ns] db' fold show ?thesis by blast
qed

text \<open>
  A run that is stopped by an error keeps what it committed: there is a first file that failed, the
  files before it are recorded with their effects, the failing file is neither recorded nor has it
  left anything behind, and a later run starts again at that file.
\<close>

theorem failed_migration_resumes:
  assumes "distinct (map fst listing)" "apply_runtime_migrations step template listing target_db srv = (Some e, out, srv')"
    and "db = target_of template target_db srv"
  shows "\<exists>before name sql after db'. sort_items listing = before @ (name, sql) # after \<and> map_of srv' target_db = Some db' \<and>
    rs_objects db' = fold (effect step) (pending_files before db) (rs_objects db) \<and>
    bookkeeping db' = bookkeeping db @ map fst (pending_files before db) \<and> name \<notin> set (bookkeeping db') \<and>
    run_statements step sql (rs_objects db') = Inl e \<and>
    apply_files step' (sort_items listing) db' = apply_files step' ((name, sql) # after) db'"
proof -
  from script_loop [OF assms(2)] obtain created out1 db' where
    db': "map_of srv' target_db = Some db'"
    and loop: "apply_files step (sort_items listing) (db\<lparr>rs_applied := Some (bookkeeping db)\<rparr>) = (Some e, out1, db')"
    unfolding assms(3) by blast
  have dist: "distinct (map fst (sort_items listing))" using assms(1) by simp
  from apply_files_failure [OF dist loop] obtain before name sql after where
    split: "sort_items listing = before @ (name, sql) # after" and new: "name \<notin> set (bookkeeping db)"
    and run: "apply_files step before (db\<lparr>rs_applied := Some (bookkeeping db)\<rparr>) = (None, out1, db')"
    and err: "run_statements step sql (rs_objects db') = Inl e" by auto
  have dist2: "distinct (map fst before)" "name \<notin> fst ` set before" using dist by (auto simp: split)
  from apply_files_fold [OF dist2(1) run] have fold: "rs_objects db' = fold (effect step) (pending_files before db) (rs_objects db)"
    "bookkeeping db' = bookkeeping db @ map fst (pending_files before db)" by simp_all
  have "name \<notin> set (bookkeeping db')" using new dist2(2) by (auto simp: fold(2) pending_files_def)
  moreover have "apply_files step' (sort_items listing) db' = apply_files step' ((name, sql) # after) db'"
    unfolding split by (rule apply_files_append_recorded) (auto simp: fold(2) pending_files_def)
  ultimately show ?thesis using split db' fold err by blast
qed

text \<open>
  A file is recorded as applied when one of its statements finds its object there, whatever its
  other statements were to do: those before it are rolled back, those after it never run, and since
  the file is recorded no later run applies them.
\<close>

theorem partly_applied_migration_is_lost:
  assumes "map_of srv target_db = Some db" "rs_applied db = Some names" "name \<notin> set names"
    and "run_statements step first (rs_objects db) = Inr changed" "step q changed = Inl DuplicateTable"
    and "listing = [(name, first @ q # rest)]"
  shows "\<exists>out srv'. apply_runtime_migrations step template listing target_db srv = (None, out, srv') \<and>
    map_of srv' target_db = Some (db\<lparr>rs_applied := Some (names @ [name])\<rparr>) \<and>
    apply_runtime_migrations step' template' listing target_db srv' = (None, [], srv')"
proof -
  have fails: "run_statements step (first @ q # rest) (rs_objects db) = Inl DuplicateTable"
    using assms(4,5) by (simp add: run_statements_append)
  have marked: "db\<lparr>rs_applied := Some names\<rparr> = db" "bookkeeping db = names" using assms(2) by (simp_all add: bookkeeping_def)
  let ?db = "db\<lparr>rs_applied := Some (names @ [name])\<rparr>"
  have "apply_files step listing db = (None, [''skipped '' @ name @ '' (already applied objects present)''], ?db)"
    using assms(3) fails by (simp add: assms(6) marked record_migration_def)
  then have first: "apply_runtime_migrations step template listing target_db srv =
      (None, [''skipped '' @ name @ '' (already applied objects present)''], AList.update target_db ?db srv)"
    using assms(1,6) by (simp add: apply_runtime_migrations_def create_database_def sort_items_def marked)
  have "apply_runtime_migrations step' template' listing target_db (AList.update target_db ?db srv) =
      (None, [], AList.update target_db ?db srv)"
    by (rule nothing_to_apply [where db = ?db and names = "names @ [name]"]) (simp_all add: assms(6) update_conv')
  with first show ?thesis by (simp add: update_conv')
qed

section \<open>An example\<close>

text \<open>Statements that create named objects; a name is refused when its object is there.\<close>

definition create_object :: "string \<Rightarrow> string list \<Rightarrow> sql_error + string list" where
  "create_object q objects =
     (if q = [] then Inl (OtherError ''syntax'') else if q \<in> set objects then Inl DuplicateTable else Inr (objects @ [q]))"

definition fresh_database :: "string list runtime_schema" where
  "fresh_database = \<lparr>rs_applied = None, rs_objects = []\<rparr>"

definition example_files :: "string migration list" where
  "example_files = [(''002'', [''column'', ''table'']), (''001'', [''table''])]"

theorem migrations_applied_once_witness:
  "\<exists>out srv' db'. apply_runtime_migrations create_object fresh_database example_files ''db'' [] = (None, out, srv') \<and>
     map_of srv' ''db'' = Some db' \<and> rs_objects db' = [''table''] \<and> bookkeeping db' = [''001'', ''002''] \<and>
     apply_runtime_migrations create_object fresh_database example_files ''db'' srv' = (None, [], srv')"
proof -
  obtain out srv' where run: "apply_runtime_migrations create_object fresh_database example_files ''db'' [] = (None, out, srv')"
    by (simp add: apply_runtime_migrations_def create_database_def example_files_def sort_items_def fresh_database_def
        bookkeeping_def create_object_def record_migration_def)
  have dist: "distinct (map fst example_files)" by (simp add: example_files_def)
  have "pending_files (sort_items example_files) fresh_database = [(''001'', [''table'']), (''002'', [''column'', ''table''])]"
    by (simp add: pending_files_def example_files_def sort_items_def fresh_database_def bookkeeping_def)
  with migrations_applied_once [OF dist run refl, of create_object fresh_database] run show ?thesis
    by (auto simp: target_of_def fresh_database_def effect_def create_object_def bookkeeping_def)
qed

theorem failed_migration_resumes_witness:
  "\<exists>out srv' db'. apply_runtime_migrations create_object fresh_database [(''001'', [''table'']), (''002'', [''x'', []])] ''db'' [] =
      (Some (OtherError ''syntax''), out, srv') \<and>
     map_of srv' ''db'' = Some db' \<and> bookkeeping db' = [''001''] \<and> rs_objects db' = [''table'']"
proof -
  let ?fs = "[(''001'', [''table'']), (''002'', [''x'', []])]"
  obtain out srv' where run: "apply_runtime_migrations create_object fresh_database ?fs ''db'' [] = (Some (OtherError ''syntax''), out, srv')"
    by (simp add: apply_runtime_migrations_def create_database_def sort_items_def fresh_database_def
        bookkeeping_def create_object_def record_migration_def)
  have dist: "distinct (map fst ?fs)" by simp
  have sorted: "sort_items ?fs = ?fs" by (simp add: sort_items_def)
  from failed_migration_resumes [OF dist run refl, of create_object] obtain before name sql after db' where
    f: "?fs = before @ (name, sql) # after" "map_of srv' ''db'' = Some db'"
      "rs_objects db' = fold (effect create_object) (pending_files before fresh_database) []"
      "bookkeeping db' = map fst (pending_files before fresh_database)"
      "run_statements create_object sql (rs_objects db') = Inl (OtherError ''syntax'')"
    by (auto simp: sorted target_of_def fresh_database_def bookkeeping_def)
  from f(1) have "before = [] \<and> sql = [''table''] \<or> before = [(''001'', [''table''])] \<and> sql = [''x'', []]"
    by (auto simp: Cons_eq_append_conv)
  with f show ?thesis
    using run by (auto simp: pending_files_def fresh_database_def bookkeeping_def effect_def create_object_def)
qed

theorem partly_applied_migration_is_lost_witness:
  "\<exists>out srv' db'. apply_runtime_migrations create_object fresh_database [(''002'', [''column'', ''table''])] ''db''
       [(''db'', \<lparr>rs_applied = Some [], rs_objects = [''table'']\<rparr>)] = (None, out, srv') \<and>
     map_of srv' ''db'' = Some db' \<and> bookkeeping db' = [''002''] \<and> ''column'' \<notin> set (rs_objects db')"
proof -
  let ?db = "\<lparr>rs_applied = Some [], rs_objects = [''table'']\<rparr>"
  have a: "map_of [(''db'', ?db)] ''db'' = Some ?db" "rs_applied ?db = Some []" "''002'' \<notin> set []"
    "run_statements create_object [''column''] (rs_objects ?db) = Inr [''table'', ''column'']"
    "create_object ''table'' [''table'', ''column''] = Inl DuplicateTable"
    "[(''002'', [''column'', ''table''])] = [(''002'', [''column''] @ ''table'' # [])]"
    by (simp_all add: create_object_def)
  from partly_applied_migration_is_lost [OF a, of fresh_database create_object fresh_database] show ?thesis
    by (auto simp: bookkeeping_def)
qed

end
