(* ===== verification/Drift_Simulation.thy ===== *)
theory Drift_Simulation
  imports Track Schema_Diff
begin

text \<open>
  The programs that exercise the others. \<open>simulator/main.py\<close> is a service whose answer drifts through
  four stages; the monitor's inference and diff are run on it. \<open>scripts/simulate_drift.py\<close> posts
  variants of one payload to \<open>/track\<close>, concurrently, and checks what the older guard has logged. The
  requests arrive in some order, a list of indices, and each is tracked in one transaction; the tables
  of the event-driven service are others and play no part in the check.
\<close>

section \<open>The drifting service\<close>

text \<open>\<open>now\<close> is the whole seconds of \<open>time.time()\<close>.\<close>

definition stage :: "int \<Rightarrow> int" where
  "stage now = (now div 600) mod 4"

definition simulator_payload :: "int \<Rightarrow> json" where
  "simulator_payload now =
     (let s = stage now;
          base = [(''id'', JInt 1), (''name'', JStr ''Alice''), (''active'', JBool True), (''score'', JInt 42)]
      in JObj
        (if s = 0 then dict_update base [(''email'', JStr ''a@x.com'')]
         else if s = 1 then dict_update base [(''email'', JStr ''a@x.com''), (''role'', JStr ''admin'')]
         else if s = 2 then dict_update base [(''role'', JStr ''admin'')]
         else dict_update base [(''id'', JStr ''uuid-1''), (''role'', JStr ''admin'')]))"

text \<open>What the monitor reports when it looks ten minutes later.\<close>

definition next_report :: "int \<Rightarrow> py_exc + (string \<times> string \<times> string) list" where
  "next_report now =
     map_sum id (map (\<lambda>d. (df_severity d, df_change_type d, df_path d)))
       (diff_schemas (infer_schema (simulator_payload now)) (infer_schema (simulator_payload (now + 600))))"

lemma stage_range: "stage now \<in> {0, 1, 2, 3}"
proof -
  have "0 \<le> stage now" "stage now < 4" by (simp_all add: stage_def)
  then show ?thesis by simp presburger
qed

lemma stage_next: "stage (now + 600) = (stage now + 1) mod 4"
proof -
  have "(now + 600) div 600 = now div 600 + 1" by simp
  then show ?thesis unfolding stage_def by (simp add: mod_simps)
qed

lemma simulator_payload_stage: "simulator_payload now = simulator_payload (600 * stage now)"
  using stage_range [of now] by (auto simp: simulator_payload_def stage_def)

lemma next_report_stage: "next_report now = next_report (600 * stage now)"
proof -
  have "simulator_payload (now + 600) = simulator_payload (600 * stage now + 600)"
    using simulator_payload_stage [of "now + 600"] simulator_payload_stage [of "600 * stage now + 600"] stage_range [of now]
    by (auto simp: stage_next) (simp_all add: stage_def)
  then show ?thesis unfolding next_report_def using simulator_payload_stage [of now] by simp
qed

text \<open>
  The monitor sees every drift of the simulated service, whenever it looks: two observations ten
  minutes apart differ, and the report names the field that was added, removed or retyped, with its
  severity.
\<close>

theorem simulated_drift_is_reported:
  "next_report now = Inr
     (if stage now = 0 then [(''safe'', ''added_field'', ''role'')]
      else if stage now = 1 then [(''breaking'', ''removed_field'', ''email'')]
      else if stage now = 2 then [(''breaking'', ''type_changed'', ''id'')]
      else [(''breaking'', ''removed_field'', ''role''), (''safe'', ''added_field'', ''email''),
            (''breaking'', ''type_changed'', ''id'')])"
proof -
  have all: "next_report 0 = Inr [(''safe'', ''added_field'', ''role'')]"
    "next_report 600 = Inr [(''breaking'', ''removed_field'', ''email'')]"
    "next_report 1200 = Inr [(''breaking'', ''type_changed'', ''id'')]"
    "next_report 1800 = Inr [(''breaking'', ''removed_field'', ''role''), (''safe'', ''added_field'', ''email''),
            (''breaking'', ''type_changed'', ''id'')]"
    by code_simp+
  show ?thesis using stage_range [of now] all by (subst next_report_stage) auto
qed

section \<open>The load script\<close>

definition payload_variant :: "int \<Rightarrow> json" where
  "payload_variant i =
     (let base = [(''user_id'', JInt i),
            (''meta'', JObj [(''tags'', JList [JStr ''admin'', JStr ''staff'']), (''active'', JBool True)]),
            (''score'', JInt 42), (''price'', JFloat (FNum 85 (- 1) ''42.5''))];
          phase = i mod 5
      in JObj
        (if phase = 1 then AList.update ''optional'' JNull base
         else if phase = 2 then AList.update ''score'' (JFloat (FNum 85 (- 1) ''42.5'')) base
         else if phase = 3 then AList.update ''price'' (JInt 42) base
         else if phase = 4 then AList.delete ''meta'' base
         else base))"

definition sim_route :: string where
  "sim_route = ''/mocked/contracts''"

text \<open>\<open>_submit\<close> against the older guard: an answer is a 200 unless tracking raises.\<close>

definition submit :: "(string \<Rightarrow> string) \<Rightarrow> int \<Rightarrow> database \<Rightarrow> bool \<times> database" where
  "submit sha i db =
     (case legacy_track sha ''chaos-client'' ''POST'' sim_route (payload_variant i) db of
        Inl _ \<Rightarrow> (False, db)
      | Inr (_, db') \<Rightarrow> (True, db'))"

record SimulationResult =
  sr_total :: nat
  sr_success :: nat
  sr_failure :: nat

fun submit_all :: "(string \<Rightarrow> string) \<Rightarrow> int list \<Rightarrow> database \<Rightarrow> bool list \<times> database" where
  "submit_all sha [] db = ([], db)"
| "submit_all sha (i # is) db =
     (let (ok, db1) = submit sha i db; (oks, db2) = submit_all sha is db1 in (ok # oks, db2))"

definition run_simulation :: "(string \<Rightarrow> string) \<Rightarrow> int list \<Rightarrow> database \<Rightarrow> SimulationResult \<times> database" where
  "run_simulation sha order db =
     (let (results, db') = submit_all sha order db; success = length (filter id results)
      in (\<lparr>sr_total = length order, sr_success = success, sr_failure = length order - success\<rparr>, db'))"

record artifact =
  sa_events_total :: nat
  sa_success_count :: nat
  sa_failure_count :: nat
  sa_safe_count :: nat
  sa_risky_count :: nat
  sa_breaking_count :: nat
  sa_duplicate_baselines :: nat

definition clear_tables :: "database \<Rightarrow> database" where
  "clear_tables db = db\<lparr>db_violations := [], db_snapshots := [], db_api_endpoints := []\<rparr>"

definition severity_count :: "string \<Rightarrow> database \<Rightarrow> nat" where
  "severity_count s db = length (filter (\<lambda>r. vi_severity r = s) (db_violations db))"

text \<open>\<open>SUM(active_count - 1)\<close> over the endpoints with more than one active baseline.\<close>

definition duplicate_baselines :: "database \<Rightarrow> nat" where
  "duplicate_baselines db =
     (let active = map sn_endpoint_id (filter sn_active (db_snapshots db))
      in sum_list (map (\<lambda>e. length (filter (\<lambda>x. x = e) active) - 1) (remdups active)))"

text \<open>The messages of the assertions, in their order, or the artifact; \<open>metrics_status\<close> is the answer of the metrics endpoint.\<close>

definition simulate_drift ::
  "(string \<Rightarrow> string) \<Rightarrow> int \<Rightarrow> int list \<Rightarrow> database \<Rightarrow> string + artifact" where
  "simulate_drift sha metrics_status order db =
     (let (result, db') = run_simulation sha order (clear_tables db);
          endpoints = filter (\<lambda>r. ae_route r = sim_route) (db_api_endpoints db');
          snapshots = filter (\<lambda>r. sn_endpoint_id r \<in> set (map ae_id endpoints)) (db_snapshots db')
      in if sr_failure result \<noteq> 0 then Inl ''simulation encountered failed submissions''
         else if length endpoints \<noteq> 1 then Inl ''expected exactly one endpoint row''
         else if length snapshots < 1 then Inl ''expected at least one schema snapshot''
         else if metrics_status \<noteq> 200 then Inl ''metrics endpoint failed''
         else if severity_count ''SAFE'' db' = 0 then Inl ''expected SAFE drift logs''
         else if severity_count ''RISKY'' db' = 0 then Inl ''expected RISKY drift logs''
         else if severity_count ''BREAKING'' db' = 0 then Inl ''expected BREAKING drift logs''
         else Inr \<lparr>sa_events_total = sr_total result, sa_success_count = sr_success result,
                   sa_failure_count = sr_failure result, sa_safe_count = severity_count ''SAFE'' db',
                   sa_risky_count = severity_count ''RISKY'' db', sa_breaking_count = severity_count ''BREAKING'' db',
                   sa_duplicate_baselines = duplicate_baselines db'\<rparr>)"

section \<open>Phases\<close>

definition types_of :: "int \<Rightarrow> json" where
  "types_of p = normalize_types (payload_variant p)"

definition variant_text :: "int \<Rightarrow> string" where
  "variant_text p = (case structural_string (payload_variant p) of Inl _ \<Rightarrow> [] | Inr t \<Rightarrow> t)"

text \<open>What is logged for a request of phase \<open>q\<close> against a baseline of phase \<open>p\<close>.\<close>

definition logged :: "int \<Rightarrow> int \<Rightarrow> string list" where
  "logged p q = map (\<lambda>d. the (dr_severity d))
     (filter (\<lambda>d. dr_severity d \<noteq> None) (classify_contract_drift (structural_diff (types_of p) (types_of q))))"

lemma phase_cases:
  fixes i :: int
  obtains "i mod 5 = 0" | "i mod 5 = 1" | "i mod 5 = 2" | "i mod 5 = 3" | "i mod 5 = 4"
proof -
  have "0 \<le> i mod 5" "i mod 5 < 5" by simp_all
  then have "i mod 5 = 0 \<or> i mod 5 = 1 \<or> i mod 5 = 2 \<or> i mod 5 = 3 \<or> i mod 5 = 4" by presburger
  then show thesis using that by metis
qed

lemma phases:
  "types_of i = types_of (i mod 5)" "structural_string (payload_variant i) = Inr (variant_text (i mod 5))"
proof -
  have "types_of i = types_of (i mod 5) \<and> structural_string (payload_variant i) = Inr (variant_text (i mod 5))"
    by (rule phase_cases [of i])
       (simp_all add: types_of_def variant_text_def payload_variant_def Let_def structural_string_def sort_items_def)
  then show "types_of i = types_of (i mod 5)" "structural_string (payload_variant i) = Inr (variant_text (i mod 5))" by simp_all
qed

definition phase_list :: "int list" where
  "phase_list = [0, 1, 2, 3, 4]"

lemma in_phase_list: "i mod 5 \<in> set phase_list"
  by (rule phase_cases [of i]) (simp_all add: phase_list_def)

lemma texts_distinct: "distinct (map variant_text phase_list)"
  by code_simp

text \<open>The severities per baseline, by the phase of the request.\<close>

lemma logged_row_0: "map (\<lambda>q. remdups (logged 0 q)) phase_list =
    [[], [''SAFE''], [''RISKY''], [''BREAKING''], [''BREAKING'']]"
  by code_simp

lemma logged_row_1: "map (\<lambda>q. remdups (logged 1 q)) phase_list =
    [[''BREAKING''], [], [''BREAKING'', ''RISKY''], [''BREAKING''], [''BREAKING'']]"
  by code_simp

lemma logged_row_2: "map (\<lambda>q. remdups (logged 2 q)) phase_list =
    [[''BREAKING''], [''SAFE'', ''BREAKING''], [], [''BREAKING''], [''BREAKING'']]"
  by code_simp

lemma logged_row_3: "map (\<lambda>q. remdups (logged 3 q)) phase_list =
    [[''RISKY''], [''SAFE'', ''RISKY''], [''RISKY''], [], [''BREAKING'', ''RISKY'']]"
  by code_simp

lemma logged_row_4: "map (\<lambda>q. remdups (logged 4 q)) phase_list =
    [[''SAFE''], [''SAFE''], [''SAFE'', ''RISKY''], [''SAFE'', ''BREAKING''], []]"
  by code_simp

lemmas logged_rows = logged_row_0 logged_row_1 logged_row_2 logged_row_3 logged_row_4

section \<open>One request\<close>

definition tracked :: "(string \<Rightarrow> string) \<Rightarrow> int \<Rightarrow> uuid \<Rightarrow> database \<Rightarrow> bool" where
  "tracked sha p e db \<longleftrightarrow>
     db_api_endpoints db = [\<lparr>ae_id = e, ae_service = ''chaos-client'', ae_method = ''POST'', ae_route = sim_route\<rparr>] \<and>
     (\<exists>q. filter sn_active (db_snapshots db) = [q] \<and> sn_endpoint_id q = e \<and> sn_fingerprint q = sha (variant_text p) \<and>
        sn_schema q = db_jsonb db (types_of p))"

text \<open>The column reads a schema back with the same types.\<close>

definition keeps_types :: "(json \<Rightarrow> json) \<Rightarrow> bool" where
  "keeps_types jsonb \<longleftrightarrow>
     (\<forall>p q. structural_diff (jsonb (types_of p)) (types_of q) = structural_diff (types_of p) (types_of q))"

lemma variant_fingerprint: "fingerprint_schema sha (payload_variant i) = Inr (sha (variant_text (i mod 5)))"
  by (simp add: fingerprint_schema_def phases(2))

lemma variant_types: "normalize_types (payload_variant i) = types_of (i mod 5)"
  using phases(1) [of i] by (simp add: types_of_def)

lemma submit_first:
  assumes "db_api_endpoints db = []" "db_snapshots db = []"
  shows "\<exists>e db'. submit sha i db = (True, db') \<and> tracked sha (i mod 5) e db' \<and>
    db_violations db' = db_violations db \<and> db_jsonb db' = db_jsonb db"
  using assms
  by (simp add: submit_def legacy_track_def variant_fingerprint variant_types phases(2) Let_def
      register_payload_snapshot_def find_api_endpoint_def register_snapshot_def find_snapshot_def
      get_active_baseline_snapshot_def activate_baseline_def update_rows_def tracked_def order_desc_def)

lemma tracked_baseline:
  assumes "tracked sha p e db"
  shows "get_active_baseline_snapshot db e = Some (sha (variant_text p), db_jsonb db (types_of p))"
    and "find_api_endpoint db (''chaos-client'', ''POST'', sim_route) = Some e"
proof -
  obtain q where q: "filter sn_active (db_snapshots db) = [q]" "sn_endpoint_id q = e" "sn_fingerprint q = sha (variant_text p)"
    "sn_schema q = db_jsonb db (types_of p)" using assms by (auto simp: tracked_def)
  have "filter (\<lambda>r. sn_endpoint_id r = e \<and> sn_active r) (db_snapshots db) =
      filter (\<lambda>r. sn_endpoint_id r = e) (filter sn_active (db_snapshots db))" by (simp add: conj_commute)
  also have "\<dots> = [q]" using q by simp
  finally show "get_active_baseline_snapshot db e = Some (sha (variant_text p), db_jsonb db (types_of p))"
    using q by (simp add: get_active_baseline_snapshot_def order_desc_def)
  show "find_api_endpoint db (''chaos-client'', ''POST'', sim_route) = Some e"
    using assms by (simp add: tracked_def find_api_endpoint_def api_endpoint_key_def)
qed

lemma tracked_log [simp]: "tracked sha p e (log_drift_violations e' fp ds db) = tracked sha p e db"
  by (simp add: tracked_def)

lemma log_drift_severities:
  "map vi_severity (db_violations (log_drift_violations e fp ds db)) =
     map vi_severity (db_violations db) @ map (\<lambda>d. the (dr_severity d)) (filter (\<lambda>d. dr_severity d \<noteq> None) ds)"
proof -
  have "map (snd \<circ> snd) (map (\<lambda>r. (vi_endpoint_id r, vi_fingerprint r, vi_severity r)) (db_violations (log_drift_violations e fp ds db))) =
    map (snd \<circ> snd) (map (\<lambda>r. (vi_endpoint_id r, vi_fingerprint r, vi_severity r)) (db_violations db) @
     map (\<lambda>d. (e, fp, the (dr_severity d))) (filter (\<lambda>d. dr_severity d \<noteq> None) ds))"
    by (simp only: log_drift_rows)
  then show ?thesis by (simp add: comp_def)
qed

lemma logged_same: "p \<in> set phase_list \<Longrightarrow> logged p p = []"
proof -
  assume "p \<in> set phase_list"
  then have "p = 0 \<or> p = 1 \<or> p = 2 \<or> p = 3 \<or> p = 4" by (simp add: phase_list_def)
  moreover have "remdups (logged 0 0) = []" "remdups (logged 1 1) = []" "remdups (logged 2 2) = []" "remdups (logged 3 3) = []"
    "remdups (logged 4 4) = []"
    using logged_rows by (simp_all only: phase_list_def list.map list.inject)
  ultimately show ?thesis by (elim disjE) simp_all
qed

lemma submit_later:
  assumes "tracked sha p e db" "keeps_types (db_jsonb db)" "inj_on sha (variant_text ` set phase_list)" "p \<in> set phase_list"
  shows "\<exists>db'. submit sha i db = (True, db') \<and> tracked sha p e db' \<and> db_jsonb db' = db_jsonb db \<and>
    map vi_severity (db_violations db') = map vi_severity (db_violations db) @ logged p (i mod 5)"
proof -
  let ?fp = "sha (variant_text (i mod 5))" and ?n = "types_of (i mod 5)"
  obtain ins db1 where reg: "register_snapshot e ?fp ?n db = (ins, db1)" by (metis prod.collapse)
  have rps: "register_payload_snapshot ''chaos-client'' ''POST'' sim_route ?fp ?n db = ((e, ins), db1)"
    using tracked_baseline(2) [OF assms(1)] reg by (simp add: register_payload_snapshot_def)
  have fr: "db_violations db1 = db_violations db" "db_jsonb db1 = db_jsonb db" "tracked sha p e db1"
    using reg assms(1) by (auto simp: register_snapshot_def tracked_def split: if_splits)
  let ?ds = "if sha (variant_text p) = ?fp then []
    else classify_contract_drift (structural_diff (db_jsonb db (types_of p)) ?n)"
  have sub: "submit sha i db = (True, log_drift_violations e ?fp ?ds db1)"
    using tracked_baseline(1) [OF fr(3)] rps
    by (simp add: submit_def legacy_track_def variant_fingerprint variant_types phases(2) Let_def fr(2))
  have "map (\<lambda>d. the (dr_severity d)) (filter (\<lambda>d. dr_severity d \<noteq> None) ?ds) = logged p (i mod 5)"
  proof (cases "p = i mod 5")
    case True
    then show ?thesis using logged_same [OF assms(4)] by simp
  next
    case False
    have "variant_text p \<noteq> variant_text (i mod 5)"
      using texts_distinct False assms(4) in_phase_list [of i] by (auto simp: distinct_map inj_on_def)
    then have "sha (variant_text p) \<noteq> ?fp"
      using assms(3,4) in_phase_list [of i] by (auto simp: inj_on_def)
    then show ?thesis using assms(2) by (simp add: logged_def keeps_types_def)
  qed
  then show ?thesis using sub fr by (simp add: log_drift_severities)
qed

section \<open>A run\<close>

lemma submit_all_later:
  assumes "tracked sha p e db" "keeps_types (db_jsonb db)" "inj_on sha (variant_text ` set phase_list)" "p \<in> set phase_list"
  shows "\<exists>db'. submit_all sha order db = (replicate (length order) True, db') \<and> tracked sha p e db' \<and>
    map vi_severity (db_violations db') = map vi_severity (db_violations db) @ concat (map (\<lambda>i. logged p (i mod 5)) order)"
  using assms(1,2)
proof (induction order arbitrary: db)
  case (Cons i order)
  from submit_later [OF Cons.prems assms(3,4)] obtain db1 where
    1: "submit sha i db = (True, db1)" "tracked sha p e db1" "db_jsonb db1 = db_jsonb db"
      "map vi_severity (db_violations db1) = map vi_severity (db_violations db) @ logged p (i mod 5)" by blast
  from Cons.IH [OF 1(2)] Cons.prems(2) 1(3) obtain db' where
    "submit_all sha order db1 = (replicate (length order) True, db')" "tracked sha p e db'"
    "map vi_severity (db_violations db') = map vi_severity (db_violations db1) @ concat (map (\<lambda>i. logged p (i mod 5)) order)"
    by auto
  with 1 show ?case by simp
qed simp

lemma seen:
  assumes "p \<in> set phase_list"
  shows "list_ex (\<lambda>q. ''SAFE'' \<in> set (logged p q)) phase_list \<longleftrightarrow> p \<noteq> 1"
    and "list_ex (\<lambda>q. ''RISKY'' \<in> set (logged p q)) phase_list \<longleftrightarrow> p \<noteq> 2"
    and "list_ex (\<lambda>q. ''BREAKING'' \<in> set (logged p q)) phase_list"
proof -
  let ?row = "\<lambda>p. concat (map (\<lambda>q. remdups (logged p q)) phase_list)"
  have ex: "list_ex (\<lambda>q. s \<in> set (logged p q)) phase_list \<longleftrightarrow> s \<in> set (?row p)" for s by (simp add: list_ex_iff)
  have each: "?row 0 = [''SAFE'', ''RISKY'', ''BREAKING'', ''BREAKING'']"
    "?row 1 = [''BREAKING'', ''BREAKING'', ''RISKY'', ''BREAKING'', ''BREAKING'']"
    "?row 2 = [''BREAKING'', ''SAFE'', ''BREAKING'', ''BREAKING'', ''BREAKING'']"
    "?row 3 = [''RISKY'', ''SAFE'', ''RISKY'', ''RISKY'', ''BREAKING'', ''RISKY'']"
    "?row 4 = [''SAFE'', ''SAFE'', ''SAFE'', ''RISKY'', ''SAFE'', ''BREAKING'']"
    unfolding logged_rows by simp_all
  have "p = 0 \<or> p = 1 \<or> p = 2 \<or> p = 3 \<or> p = 4" using assms by (simp add: phase_list_def)
  then show "list_ex (\<lambda>q. ''SAFE'' \<in> set (logged p q)) phase_list \<longleftrightarrow> p \<noteq> 1"
    "list_ex (\<lambda>q. ''RISKY'' \<in> set (logged p q)) phase_list \<longleftrightarrow> p \<noteq> 2"
    "list_ex (\<lambda>q. ''BREAKING'' \<in> set (logged p q)) phase_list"
    unfolding ex by (elim disjE; simp only: each; simp)+
qed

text \<open>Every phase is among the requests.\<close>

definition all_phases :: "int list \<Rightarrow> bool" where
  "all_phases order \<longleftrightarrow> set phase_list \<subseteq> set (map (\<lambda>i. i mod 5) order)"

lemma severity_count_zero:
  assumes "map vi_severity (db_violations db') = concat (map (\<lambda>i. logged p (i mod 5)) order)"
    and "all_phases (j # order)" "j mod 5 = p" "p \<in> set phase_list"
  shows "severity_count s db' = 0 \<longleftrightarrow> \<not> list_ex (\<lambda>q. s \<in> set (logged p q)) phase_list"
proof -
  have "severity_count s db' = length (filter (\<lambda>x. x = s) (map vi_severity (db_violations db')))"
    by (simp add: severity_count_def filter_map comp_def)
  then have "severity_count s db' = 0 \<longleftrightarrow> s \<notin> set (map vi_severity (db_violations db'))"
    by (auto simp: filter_empty_conv)
  also have "\<dots> \<longleftrightarrow> \<not> (\<exists>i \<in> set order. s \<in> set (logged p (i mod 5)))" unfolding assms(1) by auto
  also have "(\<exists>i \<in> set order. s \<in> set (logged p (i mod 5))) \<longleftrightarrow> list_ex (\<lambda>q. s \<in> set (logged p q)) phase_list"
  proof
    show "\<exists>i \<in> set order. s \<in> set (logged p (i mod 5)) \<Longrightarrow> list_ex (\<lambda>q. s \<in> set (logged p q)) phase_list"
      using in_phase_list by (auto simp: list_ex_iff)
    assume "list_ex (\<lambda>q. s \<in> set (logged p q)) phase_list"
    then obtain q where q: "q \<in> set phase_list" "s \<in> set (logged p q)" by (auto simp: list_ex_iff)
    then have "q \<noteq> p" using logged_same [OF assms(4)] by auto
    then show "\<exists>i \<in> set order. s \<in> set (logged p (i mod 5))"
      using assms(2,3) q by (auto simp: all_phases_def)
  qed
  finally show ?thesis .
qed

lemma tracked_tables:
  assumes "tracked sha p e db"
  shows "length (filter (\<lambda>r. ae_route r = sim_route) (db_api_endpoints db)) = 1"
    and "filter (\<lambda>r. sn_endpoint_id r \<in> set (map ae_id (filter (\<lambda>r. ae_route r = sim_route) (db_api_endpoints db)))) (db_snapshots db) \<noteq> []"
    and "duplicate_baselines db = 0"
proof -
  obtain q where q: "filter sn_active (db_snapshots db) = [q]" "sn_endpoint_id q = e" using assms by (auto simp: tracked_def)
  then have "q \<in> set (db_snapshots db)" by (auto simp: filter_eq_Cons_iff)
  with q show "filter (\<lambda>r. sn_endpoint_id r \<in> set (map ae_id (filter (\<lambda>r. ae_route r = sim_route) (db_api_endpoints db)))) (db_snapshots db) \<noteq> []"
    using assms by (auto simp: tracked_def filter_empty_conv)
  show "length (filter (\<lambda>r. ae_route r = sim_route) (db_api_endpoints db)) = 1" using assms by (simp add: tracked_def)
  show "duplicate_baselines db = 0" by (simp add: duplicate_baselines_def q)
qed

text \<open>
  What the script finds depends on which request arrives first. Its requests all succeed, leave one
  endpoint and never two baselines; but the first of them becomes the baseline, and when it is one
  with the optional field nothing is ever added, when it is one with the two floats nothing is ever
  widened: the script then fails its own check, for want of SAFE or of RISKY drift. In every other
  order of arrival that covers the five variants it succeeds.
\<close>

theorem simulation_verdict_depends_on_first_request:
  assumes "keeps_types (db_jsonb db)" "inj_on sha (variant_text ` set phase_list)" "all_phases (i # order)"
  shows "case simulate_drift sha 200 (i # order) db of
      Inl failed \<Rightarrow> i mod 5 = 1 \<and> failed = ''expected SAFE drift logs'' \<or> i mod 5 = 2 \<and> failed = ''expected RISKY drift logs''
    | Inr a \<Rightarrow> i mod 5 \<in> {0, 3, 4} \<and> sa_success_count a = length (i # order) \<and> sa_failure_count a = 0 \<and>
        sa_duplicate_baselines a = 0"
proof -
  let ?p = "i mod 5"
  note p = in_phase_list [of i]
  have "db_api_endpoints (clear_tables db) = []" "db_snapshots (clear_tables db) = []" by (simp_all add: clear_tables_def)
  from submit_first [OF this, of sha i] obtain e db1 where
    1: "submit sha i (clear_tables db) = (True, db1)" "tracked sha ?p e db1" "db_violations db1 = []" "db_jsonb db1 = db_jsonb db"
    by (auto simp: clear_tables_def)
  from submit_all_later [OF 1(2) _ assms(2) p, of order] assms(1) obtain db' where
    2: "submit_all sha order db1 = (replicate (length order) True, db')" "tracked sha ?p e db'"
      "map vi_severity (db_violations db') = concat (map (\<lambda>i. logged ?p (i mod 5)) order)" by (auto simp: 1)
  have run: "run_simulation sha (i # order) (clear_tables db) =
      (\<lparr>sr_total = length (i # order), sr_success = length (i # order), sr_failure = 0\<rparr>, db')"
    using 1(1) 2(1) by (simp add: run_simulation_def Let_def)
  have counts: "severity_count ''SAFE'' db' = 0 \<longleftrightarrow> ?p = 1" "severity_count ''RISKY'' db' = 0 \<longleftrightarrow> ?p = 2"
    "severity_count ''BREAKING'' db' \<noteq> 0"
    unfolding severity_count_zero [OF 2(3) assms(3) refl p] using seen [OF p] by simp_all
  have five: "?p = 0 \<or> ?p = 1 \<or> ?p = 2 \<or> ?p = 3 \<or> ?p = 4" using p by (simp add: phase_list_def)
  note tables = tracked_tables [OF 2(2)]
  have tests: "length (filter (\<lambda>r. ae_route r = sim_route) (db_api_endpoints db')) = 1"
    "\<not> length (filter (\<lambda>r. sn_endpoint_id r \<in> set (map ae_id (filter (\<lambda>r. ae_route r = sim_route) (db_api_endpoints db'))))
        (db_snapshots db')) < 1"
    using tables(1,2) by (simp_all add: leI Suc_le_eq)
  have verdict: "simulate_drift sha 200 (i # order) db =
      (if ?p = 1 then Inl ''expected SAFE drift logs'' else if ?p = 2 then Inl ''expected RISKY drift logs''
       else Inr \<lparr>sa_events_total = length (i # order), sa_success_count = length (i # order), sa_failure_count = 0,
          sa_safe_count = severity_count ''SAFE'' db', sa_risky_count = severity_count ''RISKY'' db',
          sa_breaking_count = severity_count ''BREAKING'' db', sa_duplicate_baselines = 0\<rparr>)"
    using counts by (simp only: simulate_drift_def run Let_def prod.case tests tables(3)) simp
  show ?thesis unfolding verdict using five by auto
qed

theorem simulation_verdict_depends_on_first_request_witness:
  "simulate_drift id 200 [1, 0, 2, 3, 4] (empty_db show_nat 0 id) = Inl ''expected SAFE drift logs'' \<and>
   (\<exists>a. simulate_drift id 200 [0, 1, 2, 3, 4] (empty_db show_nat 0 id) = Inr a \<and> sa_success_count a = 5)"
proof -
  have k: "keeps_types (db_jsonb (empty_db show_nat 0 id))" by (simp add: keeps_types_def empty_db_def)
  have ph: "all_phases [1, 0, 2, 3, 4]" "all_phases [0, 1, 2, 3, 4]" by (simp_all add: all_phases_def phase_list_def)
  from simulation_verdict_depends_on_first_request [OF k inj_on_id ph(1)]
    simulation_verdict_depends_on_first_request [OF k inj_on_id ph(2)]
  show ?thesis by (auto split: sum.splits)
qed

end
