(* ===== verification/Benchmark_Summary.thy ===== *)
theory Benchmark_Summary
  imports Json
begin

text \<open>
  \<open>scripts/summarize_benchmarks.py\<close>: the load test artifacts, JSON files with their metrics, become the
  rows of a Markdown table. An artifact is given by its file name and its parsed contents. The lemmas
  say when an artifact can be summarized and what the table consists of.
\<close>

section \<open>Definitions\<close>

text \<open>\<open>d.get(k, default)\<close>; a value that is not a dictionary has no \<open>get\<close>.\<close>

definition py_get :: "string \<Rightarrow> json \<Rightarrow> json \<Rightarrow> py_exc + json" where
  "py_get k d_default d =
     (case d of
        JObj kvs \<Rightarrow> Inr (case map_of kvs k of None \<Rightarrow> d_default | Some v \<Rightarrow> v)
      | _ \<Rightarrow> Inl (AttributeError ''get''))"

text \<open>\<open>v.get(stat) if isinstance(v, dict) else None\<close>, and \<open>_metric\<close>.\<close>

definition stat_of :: "string \<Rightarrow> json \<Rightarrow> json" where
  "stat_of stat v = (case v of JObj kvs \<Rightarrow> (case map_of kvs stat of None \<Rightarrow> JNull | Some x \<Rightarrow> x) | _ \<Rightarrow> JNull)"

definition metric :: "json \<Rightarrow> string \<Rightarrow> string \<Rightarrow> py_exc + json" where
  "metric metrics key stat = map_sum id (stat_of stat) (py_get key (JObj []) metrics)"

definition summarize_artifact :: "string \<Rightarrow> json \<Rightarrow> py_exc + json dict" where
  "summarize_artifact name payload =
     (case py_get ''metrics'' (JObj []) payload of
        Inl e \<Rightarrow> Inl e
      | Inr metrics \<Rightarrow>
          (case map_exc (\<lambda>k. py_get k (JObj []) metrics)
                  [''http_reqs'', ''http_req_duration'', ''http_req_failed'', ''vus_max''] of
             Inl e \<Rightarrow> Inl e
           | Inr vs \<Rightarrow>
               (case py_get ''vus'' (vs ! 3) metrics of
                  Inl e \<Rightarrow> Inl e
                | Inr vus \<Rightarrow>
                    Inr [(''artifact'', JStr name), (''vus'', stat_of ''value'' vus), (''requests'', stat_of ''count'' (vs ! 0)),
                         (''p95_latency_ms'', stat_of ''p(95)'' (vs ! 1)), (''error_rate'', stat_of ''value'' (vs ! 2)),
                         (''throughput_rps'', stat_of ''rate'' (vs ! 0))])))"

definition columns :: "string list" where
  "columns = [''artifact'', ''vus'', ''requests'', ''p95_latency_ms'', ''error_rate'', ''throughput_rps'']"

text \<open>\<open>format(**row)\<close>: a missing column raises.\<close>

definition row_line :: "json dict \<Rightarrow> py_exc + string" where
  "row_line row =
     map_sum id (\<lambda>cells. ''| '' @ join '' | '' cells @ '' |'')
       (map_exc (\<lambda>c. case map_of row c of None \<Rightarrow> Inl (KeyError c) | Some v \<Rightarrow> Inr (py_str v)) columns)"

definition header_lines :: "string list" where
  "header_lines =
     [''# DriftGate Benchmark Summary'', [],
      ''| artifact | VUs | requests | p95 latency ms | error rate | throughput rps |'',
      ''| --- | --- | --- | --- | --- | --- |'']"

definition render_markdown :: "json dict list \<Rightarrow> py_exc + string" where
  "render_markdown rows = map_sum id (\<lambda>lines. join newline (header_lines @ lines)) (map_exc row_line rows)"

text \<open>\<open>main\<close>: the text that is printed or written to the output file.\<close>

definition summarize_benchmarks :: "(string \<times> json) list \<Rightarrow> py_exc + string" where
  "summarize_benchmarks artifacts =
     (case map_exc (\<lambda>(name, payload). summarize_artifact name payload) artifacts of
        Inl e \<Rightarrow> Inl e
      | Inr rows \<Rightarrow> render_markdown rows)"

section \<open>Lemmas\<close>

text \<open>The metrics of an artifact that has them, or has none.\<close>

definition metrics_of :: "json \<Rightarrow> json dict option" where
  "metrics_of payload =
     (case payload of
        JObj kvs \<Rightarrow> (case map_of kvs ''metrics'' of None \<Rightarrow> Some [] | Some (JObj ms) \<Rightarrow> Some ms | Some _ \<Rightarrow> None)
      | _ \<Rightarrow> None)"

definition metric_of :: "json dict \<Rightarrow> string \<Rightarrow> json" where
  "metric_of ms k = (case map_of ms k of None \<Rightarrow> JObj [] | Some v \<Rightarrow> v)"

definition summary_row :: "string \<Rightarrow> json dict \<Rightarrow> json dict" where
  "summary_row name ms =
     [(''artifact'', JStr name),
      (''vus'', stat_of ''value'' (case map_of ms ''vus'' of None \<Rightarrow> metric_of ms ''vus_max'' | Some v \<Rightarrow> v)),
      (''requests'', stat_of ''count'' (metric_of ms ''http_reqs'')),
      (''p95_latency_ms'', stat_of ''p(95)'' (metric_of ms ''http_req_duration'')),
      (''error_rate'', stat_of ''value'' (metric_of ms ''http_req_failed'')),
      (''throughput_rps'', stat_of ''rate'' (metric_of ms ''http_reqs''))]"

lemma summarize_artifact_eq:
  "summarize_artifact name payload =
     (case metrics_of payload of None \<Rightarrow> Inl (AttributeError ''get'') | Some ms \<Rightarrow> Inr (summary_row name ms))"
  by (auto simp: summarize_artifact_def metrics_of_def summary_row_def py_get_def metric_of_def
      split: json.splits option.splits)

text \<open>The line of a row of the summary.\<close>

definition summary_line :: "json dict \<Rightarrow> string" where
  "summary_line row = ''| '' @ join '' | '' (map (\<lambda>c. py_str (the (map_of row c))) columns) @ '' |''"

lemma row_line_summary: "row_line (summary_row name ms) = Inr (summary_line (summary_row name ms))"
  by (simp add: row_line_def summary_line_def columns_def summary_row_def)

lemma render_summary:
  "render_markdown (map (\<lambda>(name, ms). summary_row name ms) artifacts) =
     Inr (join newline (header_lines @ map (\<lambda>(name, ms). summary_line (summary_row name ms)) artifacts))"
proof -
  have "map_exc row_line (map (\<lambda>(name, ms). summary_row name ms) artifacts) =
      Inr (map summary_line (map (\<lambda>(name, ms). summary_row name ms) artifacts))"
    by (rule map_exc_total) (auto simp: row_line_summary)
  then show ?thesis by (simp add: render_markdown_def comp_def case_prod_unfold)
qed

section \<open>Properties\<close>

text \<open>
  The report is a function of the metrics of the artifacts: when each artifact is an object whose
  metrics, if it has any, are an object, it is the heading and one line per artifact, in order, with
  \<open>None\<close> for what is missing; an artifact of another shape stops it with an exception.
\<close>

theorem benchmark_report:
  "summarize_benchmarks artifacts =
     (if list_all (\<lambda>(name, payload). metrics_of payload \<noteq> None) artifacts
      then Inr (join newline (header_lines @
             map (\<lambda>(name, payload). summary_line (summary_row name (the (metrics_of payload)))) artifacts))
      else Inl (AttributeError ''get''))"
proof (cases "list_all (\<lambda>(name, payload). metrics_of payload \<noteq> None) artifacts")
  case True
  then have "map_exc (\<lambda>(name, payload). summarize_artifact name payload) artifacts =
      Inr (map (\<lambda>(name, payload). summary_row name (the (metrics_of payload))) artifacts)"
    by (intro map_exc_total) (auto simp: summarize_artifact_eq list_all_iff)
  then show ?thesis
    using True render_summary [of "map (\<lambda>(name, payload). (name, the (metrics_of payload))) artifacts"]
    by (simp add: summarize_benchmarks_def comp_def case_prod_unfold)
next
  case False
  have "\<exists>x \<in> set artifacts. metrics_of (snd x) = None \<Longrightarrow>
      map_exc (\<lambda>(name, payload). summarize_artifact name payload) artifacts = Inl (AttributeError ''get'')"
  proof (induction artifacts)
    case (Cons a artifacts)
    then show ?case by (cases a; cases "metrics_of (snd a)") (auto simp: summarize_artifact_eq split: sum.splits)
  qed simp
  moreover have "\<exists>x \<in> set artifacts. metrics_of (snd x) = None" using False by (force simp: list_all_iff)
  ultimately show ?thesis using False by (simp add: summarize_benchmarks_def)
qed

end
