(* ===== verification/Spec2Isabelle.thy ===== *)
theory Spec2Isabelle
  imports Responses Contract_Review Gateway_Track Notification_Life Notify_Flow Legacy_Race Store_Protocol Monitor_Lock Alembic_Init Migrations
    Drift_Simulation Benchmark_Summary
begin

text \<open>
  SchemaPilot watches JSON contracts for drift. The repository holds three Python programs and a
  gateway in TypeScript, and this development models all four: the runtime tracker (\<open>app/\<close>), which observes payloads, versions
  their contracts, grades changes and notifies subscribers; the scheduled monitor (\<open>backend/\<close>),
  which fetches endpoints, infers schemas and records differences; and the scripts around them
  (\<open>scripts/\<close>, \<open>simulator/\<close>), which review OpenAPI documents before a merge, migrate the databases,
  put load on the services and summarize the measurements; and the webhook gateway (\<open>gateway/\<close>), which
  checks the signature and the key of a webhook and forwards it to the tracker.

  \<^bold>\<open>Common ground.\<close> \<open>Prelude\<close>: exceptions as values (\<open>py_exc + 'a\<close>, \<open>map_exc\<close> for a loop that may
  raise), insertion-ordered dictionaries as association lists, sorted sets. \<open>Json\<close>: JSON values as
  Python holds them, truthiness, equality, \<open>json.dumps\<close>, \<open>repr\<close>. \<open>Database\<close>: the tables of the
  tracker as a record of row lists, with \<open>update_rows\<close>, \<open>order_desc\<close>, \<open>first_row\<close> and \<open>limit_rows\<close> for
  the statements the code sends; generated ids come from an injective sequence. \<open>Keyed_Diff\<close>: the
  locale \<open>keyed_diff\<close>, the contract of a comparison by keys, and \<open>symmetric_diff\<close>, which extends it;
  interpreted on the three diff engines in \<open>Classifier\<close>, \<open>Engine\<close> and \<open>Schema_Diff\<close>. \<open>Transitions\<close>: the
  locale \<open>transitions\<close>, what a step relation and its reachable states promise, interpreted on the
  step relations of all systems below, and \<open>simulation\<close> of one by another.

  \<^bold>\<open>The tracker.\<close>
  \<^item> \<open>Canonical\<close>, \<open>Classifier\<close>: \<open>runtime/canonical.py\<close>, \<open>classifier.py\<close>, \<open>models.py\<close>. The canonical
    schema and its fingerprint, the diff of two schemas and the grade of each path.
  \<^item> \<open>Parser\<close>, \<open>Engine\<close>: \<open>core/parser.py\<close>, \<open>engine.py\<close>, the older guard with its own tables.
  \<^item> \<open>Registry\<close>: \<open>runtime/registry.py\<close>, endpoints and versions. An upsert refines the abstract step
    on histories. \<open>Upsert_Race\<close> splits it into the steps other processes can see and explores every
    interleaving, with equal and with different advisory lock ids.
  \<^item> \<open>Subscriptions\<close>, \<open>Webhook\<close>, \<open>Outbox_Worker\<close>: \<open>runtime/subscriptions.py\<close>, \<open>webhook.py\<close>,
    \<open>workers/outbox_worker.py\<close> and the handlers in \<open>api/\<close>. Who is notified, the retries of one
    delivery, the dead letter queue and its replay, and the worker that drains the outbox. The
    network is a function of the calls made so far; each post has one outcome. \<open>Outbox_Race\<close> splits an
    iteration of the worker at its commits and runs any number of workers with their row locks, each of
    which may stop at any moment. \<open>Notification_Life\<close>: the life of one notification as an abstract machine,
    which those workers refine while they take one row at a time, and a single worker with any batch, and
    what a stopped worker leaves behind.
  \<^item> \<open>Notify_Flow\<close>: the service and the worker as one system, from the tracked change to the post or
    the dead letter, with inline delivery and without, and a poll at the commit inside an inline delivery.
  \<^item> \<open>Document_Store\<close>, \<open>Events\<close>: \<open>runtime/document_store.py\<close>, \<open>event_backends.py\<close>, \<open>events.py\<close>. The Mongo
    client and the senders are records of functions; the query of a listing is the cursor that the chain
    of calls builds. \<open>Store_Protocol\<close>: the protocol of the stores, what the client documents of multisets
    of documents (\<open>client_ok\<close>), and sequences of calls.
  \<^item> \<open>Service\<close>: \<open>runtime/service.py\<close>, \<open>track_contract\<close> over all of the above in one transaction.
  \<^item> \<open>Track\<close>: \<open>main.py\<close>, the \<open>/track\<close> handler, which runs the service and then the older guard.
  \<^item> \<open>Tracker_System\<close>: requests and polls in any order (\<open>tracker_reachable\<close>), and the constraints of all
    tables as an invariant, which is why a statement may be taken to succeed. \<open>Legacy_Race\<close>: requests that overlap between
    the commits of the older guard.

  \<^bold>\<open>The monitor.\<close>
  \<^item> \<open>Schema_Infer\<close>: \<open>core/schema_infer.py\<close>. The walk with its accumulators, and what it computes: the
    entry of a path is a function of the values seen there.
  \<^item> \<open>Schema_Diff\<close>: \<open>core/schema_diff.py\<close>, \<open>severity.py\<close>. \<open>Schema_Hash\<close>: \<open>core/canonical.py\<close>,
    \<open>normalizer.py\<close>. The diff, the hash, and that comparing hashes first loses no difference.
  \<^item> \<open>Fetch\<close>: \<open>core/fetcher.py\<close>, \<open>registry_loader.py\<close>, \<open>locking.py\<close>. What the HTTP client did, an
    exception that nothing catches included, and the parsed registry file are values.
  \<^item> \<open>Monitor\<close>, \<open>Monitor_Runs\<close>: \<open>workers/monitor_runner.py\<close>. One run in its transaction, and the
    invariants of the committed database over any sequence of runs (\<open>monitor_reachable\<close>).
    \<open>Monitor_Lock\<close>: the advisory lock of \<open>locking.py\<close> as held by pooled connections, with the steps of any
    number of runs and other requests.
  \<^item> \<open>Alembic_Init\<close>: \<open>alembic/versions/0001_init.py\<close> and the tables of \<open>models.py\<close>, run on a catalog.
  \<^item> \<open>Changelog_Api\<close>: \<open>core/changelog.py\<close>, \<open>deps.py\<close>, \<open>database.py\<close> and the handlers in \<open>api/\<close>. \<open>Responses\<close>: the
    response models of \<open>schemas.py\<close> as JSON.

  \<^bold>\<open>The gateway.\<close>
  \<^item> \<open>Gateway\<close>: \<open>gateway/src/server.ts\<close>, \<open>idempotency.ts\<close>, \<open>forward.ts\<close>. The handler up to its \<open>await\<close>
    (\<open>admit\<close>) and after it (\<open>conclude\<close>), one request at a time (\<open>handle\<close>) and interleaved
    (\<open>gateway_step\<close>).
  \<^item> \<open>Gateway_Track\<close>: the gateway with the \<open>/track\<close> handler behind it, over a network that may lose the
    post or its answer.

  \<^bold>\<open>The scripts.\<close>
  \<^item> \<open>Contract_Review\<close>: \<open>openapi_diff.py\<close>, \<open>contract_check.py\<close>, \<open>contract_review_agent.py\<close>. Two copies of one
    comparison, shown to agree, and what they decide.
  \<^item> \<open>Migrations\<close>: \<open>apply_runtime_migrations.py\<close>, over any statements a database may execute.
  \<^item> \<open>Drift_Simulation\<close>: \<open>simulator/main.py\<close>, observed by the inference and the diff of the monitor, and
    \<open>simulate_drift.py\<close>, over the older guard of the tracker.
  \<^item> \<open>Benchmark_Summary\<close>: \<open>summarize_benchmarks.py\<close>.

  \<^bold>\<open>What the lemmas show.\<close> Functional behaviour of every operation on every branch, errors included;
  invariants kept by every operation (keys of tables, attempt bounds, no row left in delivery);
  refinement and equivalence (histories, the two stores, the two comparisons, hash and diff);
  round trips of stored documents and schemas; termination of the retry loops. The theorems of kind
  safety prove, of the code as it is, that some drift goes unreported or some record is lost.

  \<^bold>\<open>Bounds.\<close> No definition takes fuel. Loops recurse on their data or on the attempts left; the
  polling loop of the worker is over a list of polls; \<open>outbox_drains\<close> and \<open>outbox_settles\<close> say which
  lists empty the outbox.
  Python integers are \<open>int\<close>; database times are integers.

  \<^bold>\<open>Parameters.\<close> Digests, the text of a JSONB value as the database returns it, the parsing of a
  truncated body, environment variables, clocks, random ids, the HTTP client, the language model, the
  statements of a SQL file, which connection a pool hands out, the HMAC and the JSON parser of Node.
  Their hypotheses are documented facts: JSONB keeps a value up to the order of keys
  (\<open>keeps_value\<close>; numbers with an exponent in their text are beyond it), generated ids differ. \<open>None\<close> in a JSONB attribute is what SQLAlchemy makes of it
  (\<open>me_none\<close>). Texts are those of code points below 256, floats carry their exact value.

  \<^bold>\<open>Not modelled.\<close> Application wiring, settings, logging, metrics and health; \<open>alembic/env.py\<close>, which
  hands the migration to the library; the command line and the files of the scripts; the frontend,
  which shows what the services answer. The gateway's keys live as long as its process, whose restarts
  are not steps of the model. The tasks of a monitor run share a session, which the library forbids;
  they are taken one after the other. A tracked request is one step of \<open>Tracker_System\<close>, although an inline
  delivery commits in the middle of it: what a worker can see there is in
  \<open>inline_notification_posted_again\<close> alone, and the commits of the older guard are in \<open>Legacy_Race\<close>. A
  malformed UUID is told from an unknown one nowhere: both are refused with a \<open>DBAPIError\<close>.
\<close>

end
